(* ===== verification/Go_Prelude.thy ===== *)
theory Go_Prelude
  imports Main "HOL-Library.AList" "HOL-Library.Multiset"
begin

text \<open>
  What every component of the development shares: the types that stand for Go's own
  (instants, durations, maps, results), the named collections of facts the component
  proofs are carried by, and the generic lemmas on lists, association lists and counts.

  \<^item> An instant (\<^verbatim>\<open>time.Time\<close>) is the number of nanoseconds since Go's zero time, so
    \<^verbatim>\<open>IsZero\<close> is equality with 0, \<^verbatim>\<open>Before\<close> and \<^verbatim>\<open>After\<close> are \<open><\<close>, and \<^verbatim>\<open>Add\<close> is \<open>+\<close>.
    A duration is a number of nanoseconds. \<^verbatim>\<open>Sub\<close> saturates, as Go's does.
  \<^item> A Go map is an association list whose keys are distinct; the order of the list
    stands for the order Go walks the map in, which the language leaves open, and no
    theorem depends on it.
  \<^item> A fallible operation returns \<open>'e + 'a\<close>, \<open>Inl\<close> for the error.
\<close>

named_theorems go_simps \<open>unfolding of the model's small helpers\<close>
named_theorems inv_intros \<open>preservation of the components' invariants\<close>

section \<open>Instants and durations\<close>

type_synonym instant = int
type_synonym duration = int

definition max_duration :: duration where
  "max_duration = 2 ^ 63 - 1"

definition min_duration :: duration where
  "min_duration = - (2 ^ 63)"

definition time_sub :: "instant \<Rightarrow> instant \<Rightarrow> duration" where
  "time_sub t u = max min_duration (min max_duration (t - u))"

lemma time_sub_self [simp]: "time_sub t t = 0"
  by (simp add: time_sub_def max_duration_def min_duration_def)

lemma time_sub_exact:
  "min_duration \<le> t - u \<Longrightarrow> t - u \<le> max_duration \<Longrightarrow> time_sub t u = t - u"
  by (simp add: time_sub_def)

lemma time_sub_mono: "t \<le> t' \<Longrightarrow> time_sub t u \<le> time_sub t' u"
  by (simp add: time_sub_def min_def max_def)

lemma time_sub_nonneg: "u \<le> t \<Longrightarrow> 0 \<le> time_sub t u"
  by (simp add: time_sub_def max_duration_def min_duration_def)

definition nanosecond :: duration where "nanosecond = 1"
definition millisecond :: duration where "millisecond = 1000000"
definition second :: duration where "second = 1000000000"
definition minute :: duration where "minute = 60 * second"
definition hour :: duration where "hour = 60 * minute"

lemmas duration_units = nanosecond_def millisecond_def second_def minute_def hour_def

section \<open>Maps as association lists\<close>

type_synonym ('k, 'v) go_map = "('k \<times> 'v) list"

abbreviation lookup :: "('k, 'v) go_map \<Rightarrow> 'k \<Rightarrow> 'v option" where
  "lookup m k \<equiv> map_of m k"

abbreviation keys_of :: "('k, 'v) go_map \<Rightarrow> 'k list" where
  "keys_of m \<equiv> map fst m"

definition valid_map :: "('k, 'v) go_map \<Rightarrow> bool" where
  "valid_map m \<longleftrightarrow> distinct (keys_of m)"

text \<open>Reading a missing key of a Go map gives the zero value of its type.\<close>

definition lookup_or :: "'v \<Rightarrow> ('k, 'v) go_map \<Rightarrow> 'k \<Rightarrow> 'v" where
  "lookup_or z m k = (case lookup m k of None \<Rightarrow> z | Some v \<Rightarrow> v)"

lemma valid_map_Nil [simp]: "valid_map []"
  by (simp add: valid_map_def)

lemma valid_map_update [simp]: "valid_map m \<Longrightarrow> valid_map (AList.update k v m)"
  by (simp add: valid_map_def distinct_update)

lemma valid_map_delete [simp]: "valid_map m \<Longrightarrow> valid_map (AList.delete k m)"
  by (simp add: valid_map_def distinct_delete)

lemma lookup_update [simp]:
  "lookup (AList.update k v m) x = (if x = k then Some v else lookup m x)"
  by (simp add: update_conv')

lemma lookup_delete [simp]:
  "lookup (AList.delete k m) x = (if x = k then None else lookup m x)"
  by (simp add: delete_conv')

lemma in_set_lookup: "valid_map m \<Longrightarrow> (k, v) \<in> set m \<longleftrightarrow> lookup m k = Some v"
  by (simp add: valid_map_def)

lemma lookup_in_set: "lookup m k = Some v \<Longrightarrow> (k, v) \<in> set m"
  by (rule map_of_SomeD)

lemma delete_eq_filter: "AList.delete k m = filter (\<lambda>e. fst e \<noteq> k) m"
  by (induction m) (auto simp: AList.delete_eq)

lemma update_absent: "lookup m k = None \<Longrightarrow> AList.update k v m = m @ [(k, v)]"
  by (induction m) (auto split: if_splits)

lemma key_in_iff: "k \<in> set (keys_of m) \<longleftrightarrow> (\<exists>v. lookup m k = Some v)"
  using map_of_eq_None_iff [of m k] by (cases "lookup m k") auto

lemma delete_Cons: "AList.delete k ((a, b) # m) = (if a = k then AList.delete k m else (a, b) # AList.delete k m)"
  by (simp add: AList.delete_eq)

lemma delete_update_same: "AList.delete k (AList.update k v m) = AList.delete k m"
  by (induction m) (auto simp: AList.delete_eq)

lemma delete_absent: "lookup m k = None \<Longrightarrow> AList.delete k m = m"
  by (induction m) (auto simp: AList.delete_eq split: if_splits)

lemma keys_update_present:
  "lookup m k = Some u \<Longrightarrow> keys_of (AList.update k v m) = keys_of m"
  by (induction m) (auto split: if_splits)

lemma length_update_present:
  "lookup m k = Some u \<Longrightarrow> length (AList.update k v m) = length m"
  by (metis keys_update_present length_map)

text \<open>
  Counting the keys of a map by a property: what the stores' quotas are counted
  against. \<open>count_keys P m\<close> counts, and the lemmas say what one insertion, one deletion
  and one replacement do to it.
\<close>

definition count_keys :: "('k \<Rightarrow> bool) \<Rightarrow> ('k, 'v) go_map \<Rightarrow> nat" where
  "count_keys P m = length (filter P (keys_of m))"

lemma count_keys_Nil [simp]: "count_keys P [] = 0"
  by (simp add: count_keys_def)

lemma count_keys_True [simp]: "count_keys (\<lambda>_. True) m = length m"
  by (simp add: count_keys_def)

lemma count_keys_insert:
  "lookup m k = None \<Longrightarrow> count_keys P (AList.update k v m) = count_keys P m + (if P k then 1 else 0)"
  by (simp add: count_keys_def update_absent)

lemma count_keys_replace:
  "lookup m k = Some u \<Longrightarrow> count_keys P (AList.update k v m) = count_keys P m"
  by (simp add: count_keys_def keys_update_present)

lemma count_keys_delete_absent:
  "lookup m k = None \<Longrightarrow> count_keys P (AList.delete k m) = count_keys P m"
  by (simp add: delete_eq_filter map_of_eq_None_iff)
     (metis (mono_tags, lifting) filter_True image_eqI)

lemma length_filter_remove:
  assumes "distinct xs" and "x \<in> set xs"
  shows "length (filter P xs) =
         length (filter P (filter (\<lambda>y. y \<noteq> x) xs)) + (if P x then 1 else 0)"
  using assms
proof (induction xs)
  case (Cons y ys)
  show ?case
  proof (cases "y = x")
    case True
    with Cons.prems have "filter (\<lambda>z. z \<noteq> x) ys = ys" by (auto intro: filter_True)
    with True show ?thesis by simp
  next
    case False
    with Cons show ?thesis by auto
  qed
qed simp

lemma keys_delete: "keys_of (AList.delete k m) = filter (\<lambda>x. x \<noteq> k) (keys_of m)"
  by (induction m) (auto simp: delete_eq_filter)

lemma count_keys_delete:
  assumes "valid_map m" and "lookup m k = Some v"
  shows "count_keys P m = count_keys P (AList.delete k m) + (if P k then 1 else 0)"
proof -
  from assms(2) have "k \<in> set (keys_of m)"
    by (metis image_eqI lookup_in_set set_map fst_conv)
  with assms(1) show ?thesis
    unfolding count_keys_def keys_delete valid_map_def by (intro length_filter_remove)
qed

lemma count_keys_le: "count_keys P m \<le> length m"
  unfolding count_keys_def by (metis length_filter_le length_map)

lemma count_keys_pos: "lookup m k = Some v \<Longrightarrow> P k \<Longrightarrow> 0 < count_keys P m"
  unfolding count_keys_def
  by (metis filter_empty_conv fst_conv image_eqI length_greater_0_conv lookup_in_set set_map)

lemma count_keys_0: "count_keys P m = 0 \<Longrightarrow> lookup m k = Some v \<Longrightarrow> \<not> P k"
  by (metis count_keys_pos less_irrefl)

section \<open>Lists\<close>

lemma filter_eq_self: "(\<And>x. x \<in> set xs \<Longrightarrow> P x) \<Longrightarrow> filter P xs = xs"
  by (rule filter_True) simp

lemma sum_list_filter_split:
  "mset xs = mset (filter P xs) + mset (filter (\<lambda>x. \<not> P x) xs)"
  by (induction xs) auto

section \<open>Binary search\<close>

text \<open>\<^verbatim>\<open>sort.Search\<close>: the halving loop over \<open>[i, j)\<close>.\<close>

function search_between :: "(nat \<Rightarrow> bool) \<Rightarrow> nat \<Rightarrow> nat \<Rightarrow> nat" where
  "search_between f i j =
     (if i < j
      then let h = (i + j) div 2 in
           if \<not> f h then search_between f (h + 1) j else search_between f i h
      else i)"
  by pat_completeness auto
termination
  by (relation "measure (\<lambda>(f, i, j). j - i)") auto

declare search_between.simps [simp del]

definition sort_search :: "nat \<Rightarrow> (nat \<Rightarrow> bool) \<Rightarrow> nat" where
  "sort_search n f = search_between f 0 n"

lemma search_between_least:
  assumes "\<And>a b. a \<le> b \<Longrightarrow> b < n \<Longrightarrow> f a \<Longrightarrow> f b"
    and "i \<le> j" "j \<le> n" "\<And>k. k < i \<Longrightarrow> \<not> f k" "\<And>k. j \<le> k \<Longrightarrow> k < n \<Longrightarrow> f k"
  shows "search_between f i j \<le> n \<and> (\<forall>k < n. f k \<longleftrightarrow> search_between f i j \<le> k)"
  using assms
proof (induction f i j rule: search_between.induct)
  case (1 f i j)
  show ?case
  proof (cases "i < j")
    case True
    define h where "h = (i + j) div 2"
    have h: "i \<le> h" "h < j" "h < n" using True "1.prems"(3) by (auto simp: h_def)
    show ?thesis
    proof (cases "f h")
      case False
      then have "\<not> f k" if "k < h + 1" for k
        using that h(3) "1.prems"(1) [of k h] by auto
      then have "search_between f (h + 1) j \<le> n \<and> (\<forall>k < n. f k \<longleftrightarrow> search_between f (h + 1) j \<le> k)"
        using True False h "1.prems" by (intro "1.IH"(1)) (auto simp: h_def)
      then show ?thesis
        using True False by (subst (1 2) search_between.simps) (simp add: h_def)
    next
      case fh: True
      then have "f k" if "h \<le> k" "k < n" for k
        using that "1.prems"(1) [of h k] by auto
      then have "search_between f i h \<le> n \<and> (\<forall>k < n. f k \<longleftrightarrow> search_between f i h \<le> k)"
        using True fh h "1.prems" by (intro "1.IH"(2)) (auto simp: h_def)
      then show ?thesis
        using True fh by (subst (1 2) search_between.simps) (simp add: h_def)
    qed
  next
    case False
    then have "i = j" using "1.prems"(2) by simp
    with "1.prems" have "f k \<longleftrightarrow> j \<le> k" if "k < n" for k
      using that by (meson not_le)
    with \<open>i = j\<close> "1.prems"(3) show ?thesis
      by (subst (1 2) search_between.simps) simp
  qed
qed

text \<open>On a predicate that stays true once true, the search finds where it turns.\<close>

lemma sort_search_least:
  assumes "\<And>a b. a \<le> b \<Longrightarrow> b < n \<Longrightarrow> f a \<Longrightarrow> f b"
  shows "sort_search n f \<le> n" and "k < n \<Longrightarrow> f k \<longleftrightarrow> sort_search n f \<le> k"
  using search_between_least [of n f 0 n] assms by (auto simp: sort_search_def)

section \<open>Checks\<close>

text \<open>A check is \<open>None\<close> when it holds; \<open>or_else\<close> is Go's early return on the first error.\<close>

definition or_else :: "'e option \<Rightarrow> 'e option \<Rightarrow> 'e option" where
  "or_else a b = (case a of None \<Rightarrow> b | Some e \<Rightarrow> Some e)"

lemma or_else_None [simp]: "or_else a b = None \<longleftrightarrow> a = None \<and> b = None"
  by (cases a) (simp_all add: or_else_def)

end
