(* ===== verification/Go_Float.thy ===== *)
theory Go_Float
  imports Complex_Main
begin

text \<open>
  Go's \<^verbatim>\<open>float64\<close> as the rule language uses it: literals are compared and converted,
  never computed with. A finite value is the rational number it denotes, so the two zeros
  are one value (as \<open>==\<close> has them), and every comparison with NaN is false.
\<close>

datatype float64 = NaN | NegInf | Finite rat | PosInf

fun float_less :: "float64 \<Rightarrow> float64 \<Rightarrow> bool" where
  "float_less NaN _ = False"
| "float_less _ NaN = False"
| "float_less NegInf NegInf = False"
| "float_less NegInf _ = True"
| "float_less _ NegInf = False"
| "float_less (Finite a) (Finite b) = (a < b)"
| "float_less (Finite a) PosInf = True"
| "float_less PosInf _ = False"

fun float_equal :: "float64 \<Rightarrow> float64 \<Rightarrow> bool" where
  "float_equal NaN _ = False"
| "float_equal x y = (x = y)"

definition float_le :: "float64 \<Rightarrow> float64 \<Rightarrow> bool" where
  "float_le x y = (float_less x y \<or> float_equal x y)"

lemma float_equal_iff: "float_equal x y \<longleftrightarrow> x = y \<and> x \<noteq> NaN"
  by (cases x) auto

lemma float_less_irrefl [simp]: "\<not> float_less x x"
  by (cases x) auto

lemma float_less_trans: "float_less x y \<Longrightarrow> float_less y z \<Longrightarrow> float_less x z"
  by (cases x; cases y; cases z) auto

lemma float_less_linear: "x \<noteq> NaN \<Longrightarrow> y \<noteq> NaN \<Longrightarrow> float_less x y \<or> x = y \<or> float_less y x"
  by (cases x; cases y) auto

lemma float_less_not_NaN: "float_less x y \<Longrightarrow> x \<noteq> NaN \<and> y \<noteq> NaN"
  by (cases x; cases y) auto

lemma float_less_asym: "float_less x y \<Longrightarrow> \<not> float_less y x"
  using float_less_irrefl float_less_trans by blast

lemma float_less_NegInf [simp]: "\<not> float_less x NegInf"
  by (cases x) auto

lemma float_less_PosInf [simp]: "\<not> float_less PosInf x"
  by (cases x) auto

end
