(* ===== verification/Detection_Rule.thy ===== *)
theory Detection_Rule
  imports Go_Prelude Go_Float "HOL-Library.Word"
begin

unbundle bit_operations_syntax

text \<open>
  The declarations of the rule language (\<^verbatim>\<open>internal/detection\<close>: \<^verbatim>\<open>rule.go\<close>, \<^verbatim>\<open>expression.go\<close>,
  \<^verbatim>\<open>count.go\<close>, \<^verbatim>\<open>sequence.go\<close>): what a rule is, what it asks of one event, what it counts
  and what it orders. Go's string enumerations are datatypes whose last constructor stands
  for a string that names none of the declared values, and a nil interface is the
  constructor \<open>Missing\<close>. \<open>Stages\<close> is the eight-bit set of stages one event reached.
\<close>

type_synonym field = string
type_synonym rule_id = string
type_synonym event_class = int

section \<open>Expressions\<close>

datatype kind = Text | Number | Truth | Choice

datatype operator =
    Equals | OneOf | Contains | StartsWith | EndsWith
  | Above | AtLeast | Below | AtMost | Present
  | OtherOperator string

record literal_value =
  v_kind :: kind
  v_text :: string
  v_number :: float64
  v_truth :: bool

definition TextValue :: "string \<Rightarrow> literal_value" where
  "TextValue text = \<lparr>v_kind = Text, v_text = text, v_number = Finite 0, v_truth = False\<rparr>"

definition NumberValue :: "float64 \<Rightarrow> literal_value" where
  "NumberValue number = \<lparr>v_kind = Number, v_text = [], v_number = number, v_truth = False\<rparr>"

definition TruthValue :: "bool \<Rightarrow> literal_value" where
  "TruthValue truth = \<lparr>v_kind = Truth, v_text = [], v_number = Finite 0, v_truth = truth\<rparr>"

definition fits :: "literal_value \<Rightarrow> kind \<Rightarrow> bool" where
  "fits v k = (if k = Choice then v_kind v = Text else v_kind v = k)"

record predicate =
  p_field :: field
  p_operator :: operator
  p_values :: "literal_value list"

datatype expression =
    Missing
  | Predicate predicate
  | AllOf "expression list"
  | AnyOf "expression list"
  | NotOf expression

fun accepts :: "operator \<Rightarrow> kind list option" where
  "accepts Equals = Some [Text, Number, Truth, Choice]"
| "accepts OneOf = Some [Text, Number, Choice]"
| "accepts Contains = Some [Text]"
| "accepts StartsWith = Some [Text]"
| "accepts EndsWith = Some [Text]"
| "accepts Above = Some [Number]"
| "accepts AtLeast = Some [Number]"
| "accepts Below = Some [Number]"
| "accepts AtMost = Some [Number]"
| "accepts Present = Some [Text, Number, Truth, Choice]"
| "accepts (OtherOperator _) = None"

text \<open>How many literals an operator reads; a maximum of 0 is no ceiling.\<close>

definition takes :: "operator \<Rightarrow> nat \<times> nat" where
  "takes op = (if op = Present then (0, 0) else if op = OneOf then (1, 0) else (1, 1))"

definition operator_asks :: "operator \<Rightarrow> kind \<Rightarrow> bool" where
  "operator_asks op k = (case accepts op of None \<Rightarrow> False | Some ks \<Rightarrow> k \<in> set ks)"

definition operator_known :: "operator \<Rightarrow> bool" where
  "operator_known op = (accepts op \<noteq> None)"

section \<open>Counts and sequences\<close>

record count =
  c_at_least :: int
  c_within :: duration
  c_group_by :: "field list"

definition count_empty :: "count \<Rightarrow> bool" where
  "count_empty c = (c_at_least c = 0 \<and> c_within c = 0 \<and> c_group_by c = [])"

definition Counts :: "count \<Rightarrow> bool" where
  "Counts c = (\<not> count_empty c)"

record binding =
  b_field :: field
  b_value :: string
  b_absent :: bool

definition binding_string :: "binding \<Rightarrow> string" where
  "binding_string b =
     (if b_absent b then b_field b @ '' absent'' else b_field b @ '' '' @ b_value b)"

definition tenantField :: field where "tenantField = ''origin.tenant_id''"
definition identityField :: field where "identityField = ''event_id''"

record counted =
  cd_group :: "binding list"
  cd_count :: int
  cd_first :: instant
  cd_saturated :: bool

record stage =
  st_name :: string
  st_match :: expression

record sequence =
  s_stages :: "stage list"
  s_within :: duration
  s_group_by :: "field list"

definition Correlates :: "sequence \<Rightarrow> bool" where
  "Correlates s = (0 < length (s_stages s) \<or> s_within s \<noteq> 0 \<or> 0 < length (s_group_by s))"

record satisfied =
  sat_name :: string
  sat_agent :: string
  sat_event :: string
  sat_at :: instant

record correlated =
  co_group :: "binding list"
  co_stages :: "satisfied list"
  co_clock_spread :: duration

definition correlated_events :: "correlated \<Rightarrow> string list" where
  "correlated_events c = map sat_event (co_stages c)"

definition correlated_span :: "correlated \<Rightarrow> duration" where
  "correlated_span c =
     (if length (co_stages c) < 2 then 0
      else time_sub (sat_at (last (co_stages c))) (sat_at (hd (co_stages c))))"

definition correlated_ordered :: "correlated \<Rightarrow> bool" where
  "correlated_ordered c = (co_clock_spread c < correlated_span c)"

section \<open>The set of stages one event reached\<close>

type_synonym stages = "8 word"

definition stages_add :: "stages \<Rightarrow> nat \<Rightarrow> stages" where
  "stages_add s i = s OR push_bit i 1"

definition stages_has :: "stages \<Rightarrow> nat \<Rightarrow> bool" where
  "stages_has s i = (s AND push_bit i 1 \<noteq> 0)"

definition stages_any :: "stages \<Rightarrow> bool" where
  "stages_any s = (s \<noteq> 0)"

definition stages_string :: "stages \<Rightarrow> string" where
  "stages_string s = [char_of (unat s)]"

definition StagesOf :: "string \<Rightarrow> stages" where
  "StagesOf value = (case value of [c] \<Rightarrow> word_of_nat (of_char c) | _ \<Rightarrow> 0)"

lemma stages_has_bit: "stages_has s i = bit s i"
  by (simp add: stages_has_def push_bit_eq_mult and_exp_eq_0_iff_not_bit)

lemma stages_has_0 [simp]: "\<not> stages_has 0 i"
  by (simp add: stages_has_def)

lemma stages_has_add:
  "stages_has (stages_add s i) j \<longleftrightarrow> stages_has s j \<or> (i = j \<and> i < 8)"
  unfolding stages_has_bit stages_add_def
  by (auto simp: bit_simps dest: bit_imp_le_length)

lemma stages_any_iff: "stages_any s \<longleftrightarrow> (\<exists>i < 8. stages_has s i)"
proof -
  have "stages_any s \<longleftrightarrow> (\<exists>i. bit s i)"
    unfolding stages_any_def using bit_eq_iff [of s 0] by auto
  then show ?thesis
    unfolding stages_has_bit using bit_imp_le_length [of s] by auto
qed

lemma StagesOf_string: "StagesOf (stages_string s) = s"
proof -
  have "unat s < 256" using unsigned_less [of s, where 'a = nat] by simp
  then show ?thesis by (simp add: StagesOf_def stages_string_def)
qed

section \<open>Rules\<close>

datatype severity = Low | Medium | High | Critical | OtherSeverity string
datatype status = Draft | Active | Disabled | Deprecated | OtherStatus string

definition Runs :: "status \<Rightarrow> bool" where
  "Runs s = (s = Active)"

record technique =
  t_tactic :: string
  t_id :: string
  t_name :: string

definition technique_empty :: "technique \<Rightarrow> bool" where
  "technique_empty t = (t_tactic t = [] \<and> t_id t = [] \<and> t_name t = [])"

record source =
  src_catalogue :: string
  src_identifier :: string

definition source_empty :: "source \<Rightarrow> bool" where
  "source_empty s = (src_catalogue s = [] \<and> src_identifier s = [])"

record rule =
  r_id :: rule_id
  r_revision :: int
  r_name :: string
  r_description :: string
  r_class :: event_class
  r_match :: expression
  r_count :: count
  r_sequence :: sequence
  r_severity :: severity
  r_status :: status
  r_technique :: technique
  r_false_positives :: string
  r_response :: string
  r_source :: source
  r_tags :: "string list"
  r_references :: "string list"

section \<open>The declared ceilings\<close>

definition MaxWithin :: duration where "MaxWithin = 24 * hour"
definition MaxCount :: int where "MaxCount = 4096"
definition MinCount :: int where "MinCount = 2"
definition MaxGroupBy :: nat where "MaxGroupBy = 8"
definition MinStages :: nat where "MinStages = 2"
definition MaxStages :: nat where "MaxStages = 8"

lemmas rule_ceilings =
  MaxWithin_def MaxCount_def MinCount_def MaxGroupBy_def MinStages_def MaxStages_def

end
