(* ===== verification/State_Bounds.thy ===== *)
theory State_Bounds
  imports Detection_Rule
begin

text \<open>
  The declarations of \<^verbatim>\<open>internal/detectionstate\<close>: the key state is held under, the
  observation one event contributes, the bounds a store is built with (\<^verbatim>\<open>bounds.go\<close>), what
  a rule may ask of them, and the fields the stream is partitioned by (\<^verbatim>\<open>partitioning.go\<close>).
  Which fields the event contract declares is the argument \<open>kind_of\<close>.
\<close>

section \<open>Keys and observations\<close>

record state_key =
  k_tenant :: string
  k_rule :: rule_id
  k_group :: string

record event_name =
  e_agent :: string
  e_id :: string

record observation =
  o_event :: event_name
  o_at :: instant
  o_value :: string
  o_partition :: int
  o_skew :: duration

datatype state_error =
    ErrNoEvent | ErrNoAgent | ErrNoTime | ErrValueTooLong
  | ErrNoWindow | ErrNoObservations | ErrNoKeys | ErrNoTenantKeys | ErrNoRuleKeys
  | ErrWindowTooLong | ErrUnreachable | ErrUnorderable
  | ErrNoPartitioning | ErrUndeclaredPartitioning field | ErrSplitState
  | ErrAtCapacity | ErrTenantAtCapacity | ErrRuleAtCapacity | ErrTooLate
  | ContextError string

definition MaxValueLength :: nat where "MaxValueLength = 512"

definition observation_validate :: "observation \<Rightarrow> state_error option" where
  "observation_validate obs =
     (if e_id (o_event obs) = [] then Some ErrNoEvent
      else if e_agent (o_event obs) = [] then Some ErrNoAgent
      else if o_at obs = 0 then Some ErrNoTime
      else if length (o_value obs) > MaxValueLength then Some ErrValueTooLong
      else None)"

record state =
  s_first :: instant
  s_last :: instant
  s_count :: int
  s_distinct :: int
  s_saturated :: bool
  s_repeated :: bool

definition zero_state :: state where
  "zero_state = \<lparr>s_first = 0, s_last = 0, s_count = 0, s_distinct = 0, s_saturated = False, s_repeated = False\<rparr>"

definition state_span :: "state \<Rightarrow> duration" where
  "state_span s = time_sub (s_last s) (s_first s)"

section \<open>Bounds\<close>

definition MaxWindow :: duration where "MaxWindow = MaxWithin"
definition MaxObservationsPerKey :: int where "MaxObservationsPerKey = MaxCount"
definition MaxKeys :: int where "MaxKeys = 2 ^ 20"

record bounds =
  bd_window :: duration
  bd_observations_per_key :: int
  bd_keys :: int
  bd_keys_per_tenant :: int
  bd_keys_per_rule :: int

definition bounds_validate :: "bounds \<Rightarrow> state_error option" where
  "bounds_validate b =
     (if bd_window b \<le> 0 \<or> bd_window b > MaxWindow then Some ErrNoWindow
      else if bd_observations_per_key b \<le> 0 \<or> bd_observations_per_key b > MaxObservationsPerKey
        then Some ErrNoObservations
      else if bd_keys b \<le> 0 \<or> bd_keys b > MaxKeys then Some ErrNoKeys
      else if bd_keys_per_tenant b \<le> 0 \<or> bd_keys_per_tenant b > bd_keys b then Some ErrNoTenantKeys
      else if bd_keys_per_rule b \<le> 0 \<or> bd_keys_per_rule b > bd_keys_per_tenant b
        then Some ErrNoRuleKeys
      else None)"

definition bounds_observations :: "bounds \<Rightarrow> int" where
  "bounds_observations b = bd_keys b * bd_observations_per_key b"

definition bounds_admits :: "bounds \<Rightarrow> count \<Rightarrow> state_error option" where
  "bounds_admits b c =
     (if \<not> Counts c then None
      else if c_within c > bd_window b then Some ErrWindowTooLong
      else if c_at_least c > bd_observations_per_key b then Some ErrUnreachable
      else None)"

definition bounds_orders :: "bounds \<Rightarrow> sequence \<Rightarrow> state_error option" where
  "bounds_orders b s =
     (if \<not> Correlates s then None
      else if s_within s > bd_window b then Some ErrWindowTooLong
      else if int (length (s_stages s)) > bd_observations_per_key b then Some ErrUnorderable
      else None)"

lemma bounds_valid_iff:
  "bounds_validate b = None \<longleftrightarrow>
     0 < bd_window b \<and> bd_window b \<le> MaxWindow \<and>
     0 < bd_observations_per_key b \<and> bd_observations_per_key b \<le> MaxObservationsPerKey \<and>
     0 < bd_keys b \<and> bd_keys b \<le> MaxKeys \<and>
     0 < bd_keys_per_tenant b \<and> bd_keys_per_tenant b \<le> bd_keys b \<and>
     0 < bd_keys_per_rule b \<and> bd_keys_per_rule b \<le> bd_keys_per_tenant b"
  by (auto simp: bounds_validate_def)

section \<open>Partitioning\<close>

record partitioning =
  pt_by :: "field list"
  pt_sole :: bool

fun undeclared_in :: "(field \<Rightarrow> kind option) \<Rightarrow> field list \<Rightarrow> field option" where
  "undeclared_in kind_of [] = None"
| "undeclared_in kind_of (f # fs) =
     (if kind_of f = None then Some f else undeclared_in kind_of fs)"

definition partitioning_validate ::
  "(field \<Rightarrow> kind option) \<Rightarrow> partitioning \<Rightarrow> state_error option" where
  "partitioning_validate kind_of p =
     (if pt_by p = [] then Some ErrNoPartitioning
      else map_option ErrUndeclaredPartitioning (undeclared_in kind_of (pt_by p)))"

fun colocates_loop :: "field list \<Rightarrow> field list \<Rightarrow> bool" where
  "colocates_loop grp [] = True"
| "colocates_loop grp (keyed # rest) =
     (if keyed \<noteq> tenantField \<and> keyed \<notin> set grp then False else colocates_loop grp rest)"

definition Colocates :: "partitioning \<Rightarrow> field list \<Rightarrow> bool" where
  "Colocates p grp = (if pt_by p = [] then False else colocates_loop grp (pt_by p))"

definition partitioning_holds :: "partitioning \<Rightarrow> field list \<Rightarrow> bool" where
  "partitioning_holds p grp = (pt_sole p \<or> Colocates p grp)"

definition partitioning_admits :: "partitioning \<Rightarrow> count \<Rightarrow> state_error option" where
  "partitioning_admits p c =
     (if \<not> Counts c \<or> partitioning_holds p (c_group_by c) then None else Some ErrSplitState)"

definition partitioning_orders :: "partitioning \<Rightarrow> sequence \<Rightarrow> state_error option" where
  "partitioning_orders p s =
     (if \<not> Correlates s \<or> partitioning_holds p (s_group_by s) then None else Some ErrSplitState)"

lemma colocates_loop_iff: "colocates_loop grp fs \<longleftrightarrow> set fs \<subseteq> insert tenantField (set grp)"
  by (induction fs) auto

text \<open>
  Two events of one tenant that agree on what a rule groups by are written to one
  partition: a stream keyed by \<open>pt_by p\<close> puts events that agree on every keyed field
  together, and a colocated group holds every keyed field but the tenant.
\<close>

lemma Colocates_same_partition:
  assumes "Colocates p grp"
    and "reads tenantField = reads' tenantField"
    and "\<And>f. f \<in> set grp \<Longrightarrow> reads f = reads' f"
  shows "map reads (pt_by p) = map reads' (pt_by p)"
  using assms by (auto simp: Colocates_def colocates_loop_iff split: if_splits)

end
