(* ===== verification/State_Window.thy ===== *)
theory State_Window
  imports State_Bounds
begin

text \<open>
  The window one key holds (\<^verbatim>\<open>held\<close> in \<^verbatim>\<open>internal/detectionstate/keeper.go\<close>): observations in
  event time, the names already folded, and how many observations carry each value. The
  invariant \<open>held_ok\<close> says the three agree; every operation keeps it, and under it the
  state a caller reads is a function of the set of observations held. Folding a stream
  that never holds more than the ceiling inside one window then ends with exactly the
  observations of the last window, in whatever order and however often they arrived.
\<close>

section \<open>The operations\<close>

record held =
  h_key :: state_key
  h_window :: duration
  h_seen :: "observation list"
  h_ids :: "event_name set"
  h_values :: "(string, int) go_map"

definition new_held :: "state_key \<Rightarrow> duration \<Rightarrow> held" where
  "new_held k w = \<lparr>h_key = k, h_window = w, h_seen = [], h_ids = {}, h_values = []\<rparr>"

definition held_last :: "held \<Rightarrow> instant" where
  "held_last h = (if h_seen h = [] then 0 else o_at (last (h_seen h)))"

definition held_expires :: "held \<Rightarrow> instant" where
  "held_expires h = held_last h + h_window h"

definition held_state :: "int \<Rightarrow> held \<Rightarrow> state" where
  "held_state ceil h =
     (if h_seen h = [] then zero_state
      else \<lparr>s_first = o_at (h_seen h ! 0), s_last = held_last h,
            s_count = int (length (h_seen h)), s_distinct = int (length (h_values h)),
            s_saturated = (int (length (h_seen h)) \<ge> ceil), s_repeated = False\<rparr>)"

definition held_discard :: "nat \<Rightarrow> held \<Rightarrow> held" where
  "held_discard index h =
     (let gone = h_seen h ! index;
          h' = h\<lparr>h_seen := take index (h_seen h) @ drop (index + 1) (h_seen h),
                 h_ids := h_ids h - {o_event gone}\<rparr>
      in if o_value gone = [] then h'
         else let n = lookup_or 0 (h_values h) (o_value gone) - 1 in
              if n \<le> 0 then h'\<lparr>h_values := AList.delete (o_value gone) (h_values h)\<rparr>
              else h'\<lparr>h_values := AList.update (o_value gone) n (h_values h)\<rparr>)"

lemma held_discard_fields [simp]:
  "h_key (held_discard i h) = h_key h"
  "h_window (held_discard i h) = h_window h"
  "h_seen (held_discard i h) = take i (h_seen h) @ drop (i + 1) (h_seen h)"
  "h_ids (held_discard i h) = h_ids h - {o_event (h_seen h ! i)}"
  by (simp_all add: held_discard_def Let_def)

function held_expire :: "instant \<Rightarrow> held \<Rightarrow> held" where
  "held_expire cutoff h =
     (if 0 < length (h_seen h) \<and> o_at (h_seen h ! 0) < cutoff
      then held_expire cutoff (held_discard 0 h) else h)"
  by pat_completeness auto
termination
  by (relation "measure (\<lambda>(cutoff, h). length (h_seen h))") auto

function held_trim :: "int \<Rightarrow> held \<Rightarrow> held" where
  "held_trim ceil h =
     (if int (length (h_seen h)) > ceil \<and> h_seen h \<noteq> []
      then held_trim ceil (held_discard 0 h) else h)"
  by pat_completeness auto
termination
  by (relation "measure (\<lambda>(ceil, h). length (h_seen h))") auto

declare held_expire.simps [simp del] held_trim.simps [simp del]

definition held_insert :: "observation \<Rightarrow> held \<Rightarrow> held" where
  "held_insert seen h =
     (let pos = sort_search (length (h_seen h)) (\<lambda>i. o_at (h_seen h ! i) > o_at seen);
          h' = h\<lparr>h_seen := take pos (h_seen h) @ seen # drop pos (h_seen h),
                 h_ids := insert (o_event seen) (h_ids h)\<rparr>
      in if o_value seen = [] then h'
         else h'\<lparr>h_values := AList.update (o_value seen)
                               (lookup_or 0 (h_values h) (o_value seen) + 1) (h_values h)\<rparr>)"

definition held_observe :: "observation \<Rightarrow> int \<Rightarrow> held \<Rightarrow> held \<times> state \<times> state_error option" where
  "held_observe seen ceil h =
     (if o_event seen \<in> h_ids h then (h, (held_state ceil h)\<lparr>s_repeated := True\<rparr>, None)
      else let newest = (if held_last h > o_at seen then held_last h else o_at seen);
               cutoff = newest - h_window h;
               h1 = held_expire cutoff h
           in if o_at seen < cutoff then (h1, held_state ceil h1, Some ErrTooLate)
              else let h2 = held_trim ceil (held_insert seen h1)
                   in (h2, held_state ceil h2, None))"

section \<open>The invariant and what each operation does to the window\<close>

definition value_count :: "string \<Rightarrow> observation list \<Rightarrow> nat" where
  "value_count v xs = length (filter (\<lambda>x. o_value x = v) xs)"

definition values_ok :: "observation list \<Rightarrow> (string, int) go_map \<Rightarrow> bool" where
  "values_ok xs m \<longleftrightarrow> valid_map m \<and>
     (\<forall>v. lookup m v = (if v = [] \<or> value_count v xs = 0 then None else Some (int (value_count v xs))))"

definition held_ok :: "held \<Rightarrow> bool" where
  "held_ok h \<longleftrightarrow>
     sorted (map o_at (h_seen h)) \<and> distinct (map o_event (h_seen h)) \<and>
     h_ids h = o_event ` set (h_seen h) \<and> values_ok (h_seen h) (h_values h)"

lemma held_ok_new [simp]: "held_ok (new_held k w)"
  by (simp add: held_ok_def new_held_def values_ok_def value_count_def)

lemma held_ok_window [simp]: "held_ok (h\<lparr>h_window := w\<rparr>) = held_ok h"
  by (simp add: held_ok_def)

lemma held_ok_discard:
  assumes "held_ok h" and "h_seen h = x # xs"
  shows "held_ok (held_discard 0 h)" and "h_seen (held_discard 0 h) = xs"
proof -
  have ev: "o_event x \<notin> o_event ` set xs" and "valid_map (h_values h)"
    using assms by (auto simp: held_ok_def values_ok_def)
  have "values_ok xs (h_values (held_discard 0 h))"
    using assms by (auto simp: held_ok_def values_ok_def held_discard_def Let_def value_count_def lookup_or_def)
  moreover have "h_ids h - {o_event x} = o_event ` set xs"
    using assms ev by (auto simp: held_ok_def)
  ultimately show "held_ok (held_discard 0 h)"
    using assms by (simp add: held_ok_def)
qed (simp add: assms(2))

lemma held_expire_ok:
  assumes "held_ok h"
  shows "held_ok (held_expire c h) \<and> h_seen (held_expire c h) = dropWhile (\<lambda>x. o_at x < c) (h_seen h) \<and>
         h_key (held_expire c h) = h_key h \<and> h_window (held_expire c h) = h_window h"
  using assms
proof (induction c h rule: held_expire.induct)
  case (1 c h)
  show ?case
  proof (cases "h_seen h")
    case Nil
    with "1.prems" show ?thesis by (subst (1 2 3 4) held_expire.simps) simp
  next
    case (Cons x xs)
    with "1.prems" "1.IH" held_ok_discard [OF "1.prems" Cons] show ?thesis
      by (subst (1 2 3 4) held_expire.simps) simp
  qed
qed

lemma held_trim_ok:
  assumes "held_ok h" and "0 \<le> ceil"
  shows "held_ok (held_trim ceil h) \<and>
         h_seen (held_trim ceil h) = drop (length (h_seen h) - nat ceil) (h_seen h) \<and>
         h_key (held_trim ceil h) = h_key h \<and> h_window (held_trim ceil h) = h_window h"
  using assms
proof (induction ceil h rule: held_trim.induct)
  case (1 c h)
  show ?case
  proof (cases "int (length (h_seen h)) > c \<and> h_seen h \<noteq> []")
    case False
    with "1.prems" show ?thesis by (subst (1 2 3 4) held_trim.simps) auto
  next
    case True
    then obtain x xs where xs: "h_seen h = x # xs" by (cases "h_seen h") auto
    with True "1.prems" have "Suc (length xs) - nat c = Suc (length xs - nat c)" by auto
    with True xs "1.prems" "1.IH" held_ok_discard [OF "1.prems"(1) xs] show ?thesis
      by (subst (1 2 3 4) held_trim.simps) simp
  qed
qed

text \<open>The binary search files an observation after everything no later than it.\<close>

lemma held_insert_at:
  fixes seen :: observation
  assumes "sorted (map o_at xs)"
  defines "pos \<equiv> sort_search (length xs) (\<lambda>i. o_at (xs ! i) > o_at seen)"
  shows "pos \<le> length xs" and "\<forall>x \<in> set (take pos xs). o_at x \<le> o_at seen"
    and "\<forall>x \<in> set (drop pos xs). o_at seen < o_at x"
proof -
  have mono: "o_at seen < o_at (xs ! b)" if "a \<le> b" "b < length xs" "o_at seen < o_at (xs ! a)" for a b
    using that sorted_nth_mono [OF assms(1), of a b] by auto
  note search = sort_search_least [where f = "\<lambda>i. o_at (xs ! i) > o_at seen" and n = "length xs", OF mono]
  show len: "pos \<le> length xs" unfolding pos_def by (rule search(1))
  have turn: "o_at seen < o_at (xs ! k) \<longleftrightarrow> pos \<le> k" if "k < length xs" for k
    unfolding pos_def by (rule search(2) [OF _ _ _ that])
  show "\<forall>x \<in> set (take pos xs). o_at x \<le> o_at seen"
    using len turn by (auto simp: in_set_conv_nth) (metis leD leI less_le_trans)
  show "\<forall>x \<in> set (drop pos xs). o_at seen < o_at x"
    using len turn by (auto simp: in_set_conv_nth)
qed

lemma held_insert_fields:
  assumes "held_ok h"
  shows "set (h_seen (held_insert o' h)) = insert o' (set (h_seen h))"
    and "mset (h_seen (held_insert o' h)) = add_mset o' (mset (h_seen h))"
    and "sorted (map o_at (h_seen (held_insert o' h)))"
    and "h_ids (held_insert o' h) = insert (o_event o') (h_ids h)"
    and "h_key (held_insert o' h) = h_key h" "h_window (held_insert o' h) = h_window h"
proof -
  define pos where "pos = sort_search (length (h_seen h)) (\<lambda>i. o_at (h_seen h ! i) > o_at o')"
  have srt: "sorted (map o_at (h_seen h))" using assms by (simp add: held_ok_def)
  have seen: "h_seen (held_insert o' h) = take pos (h_seen h) @ o' # drop pos (h_seen h)"
    by (simp add: held_insert_def Let_def pos_def)
  show ms: "mset (h_seen (held_insert o' h)) = add_mset o' (mset (h_seen h))"
    unfolding seen by (metis append_take_drop_id mset.simps(2) mset_append union_mset_add_mset_right)
  then show "set (h_seen (held_insert o' h)) = insert o' (set (h_seen h))"
    by (metis set_mset_add_mset_insert set_mset_mset)
  have "sorted (map o_at (take pos (h_seen h)))" "sorted (map o_at (drop pos (h_seen h)))"
    using srt by (simp_all add: take_map [symmetric] drop_map [symmetric] sorted_wrt_take sorted_wrt_drop)
  moreover note pos = held_insert_at [OF srt, of o', folded pos_def]
  ultimately show "sorted (map o_at (h_seen (held_insert o' h)))"
    unfolding seen by (fastforce simp: sorted_append)
qed (simp_all add: held_insert_def Let_def)

lemma held_insert_values:
  "h_values (held_insert o' h) =
     (if o_value o' = [] then h_values h
      else AList.update (o_value o') (lookup_or 0 (h_values h) (o_value o') + 1) (h_values h))"
  by (simp add: held_insert_def Let_def)

lemma held_ok_insert:
  assumes "held_ok h" and "o_event o' \<notin> h_ids h"
  shows "held_ok (held_insert o' h)"
proof -
  note fields = held_insert_fields [OF assms(1), of o']
  have vc: "value_count v (h_seen (held_insert o' h)) =
            value_count v (h_seen h) + (if o_value o' = v then 1 else 0)" for v
  proof -
    have "value_count v xs = size (filter_mset (\<lambda>x. o_value x = v) (mset xs))" for xs
      by (simp add: value_count_def flip: size_mset mset_filter)
    then show ?thesis using fields(2) by simp
  qed
  have "distinct (map o_event (h_seen (held_insert o' h)))"
  proof -
    have "mset (map o_event (h_seen (held_insert o' h))) = mset (map o_event (o' # h_seen h))"
      using fields(2) by simp
    moreover have "distinct (map o_event (o' # h_seen h))"
      using assms by (simp add: held_ok_def)
    ultimately show ?thesis by (metis mset_eq_imp_distinct_iff)
  qed
  moreover have "values_ok (h_seen (held_insert o' h)) (h_values (held_insert o' h))"
    using assms(1)
    by (auto simp: held_ok_def values_ok_def vc held_insert_values lookup_or_def)
  ultimately show ?thesis
    using assms fields unfolding held_ok_def by simp
qed

section \<open>What one observation does\<close>

definition held_newest :: "observation \<Rightarrow> held \<Rightarrow> instant" where
  "held_newest seen h = max (held_last h) (o_at seen)"

lemma dropWhile_sorted:
  "sorted (map f xs) \<Longrightarrow> dropWhile (\<lambda>x. f x < (c :: int)) xs = filter (\<lambda>x. c \<le> f x) xs"
proof (induction xs)
  case (Cons x xs)
  show ?case
  proof (cases "f x < c")
    case False
    with Cons.prems have "\<forall>y \<in> set xs. c \<le> f y" by auto
    with False show ?thesis by (simp add: filter_eq_self)
  qed (use Cons in auto)
qed simp

lemma held_observe_cases:
  obtains (repeated) "o_event seen \<in> h_ids h" "fst (held_observe seen ceil h) = h"
      "snd (held_observe seen ceil h) = ((held_state ceil h)\<lparr>s_repeated := True\<rparr>, None)"
  | (late) "o_event seen \<notin> h_ids h" "o_at seen < held_newest seen h - h_window h"
      "fst (held_observe seen ceil h) = held_expire (held_newest seen h - h_window h) h"
      "snd (held_observe seen ceil h) = (held_state ceil (fst (held_observe seen ceil h)), Some ErrTooLate)"
  | (folded) "o_event seen \<notin> h_ids h" "held_newest seen h - h_window h \<le> o_at seen"
      "fst (held_observe seen ceil h) =
         held_trim ceil (held_insert seen (held_expire (held_newest seen h - h_window h) h))"
      "snd (held_observe seen ceil h) = (held_state ceil (fst (held_observe seen ceil h)), None)"
proof -
  have newest: "(if held_last h > o_at seen then held_last h else o_at seen) = held_newest seen h"
    by (simp add: held_newest_def max_def)
  consider "o_event seen \<in> h_ids h"
    | "o_event seen \<notin> h_ids h" "o_at seen < held_newest seen h - h_window h"
    | "o_event seen \<notin> h_ids h" "held_newest seen h - h_window h \<le> o_at seen"
    by linarith
  then show ?thesis
    by cases (auto simp: held_observe_def newest Let_def intro: that)
qed

lemma held_expire_ids: "held_ok h \<Longrightarrow> h_ids (held_expire c h) \<subseteq> h_ids h"
  using held_expire_ok [of h c] unfolding held_ok_def
  by (auto dest!: set_dropWhileD)

lemma held_observe_ok:
  assumes "held_ok h" and "0 \<le> ceil"
  shows "held_ok (fst (held_observe seen ceil h))"
    and "h_key (fst (held_observe seen ceil h)) = h_key h"
    and "h_window (fst (held_observe seen ceil h)) = h_window h"
    and "int (length (h_seen h)) \<le> ceil \<Longrightarrow> int (length (h_seen (fst (held_observe seen ceil h)))) \<le> ceil"
proof -
  let ?c = "held_newest seen h - h_window h"
  note ex = held_expire_ok [OF assms(1), of ?c]
  have ins: "held_ok (held_insert seen (held_expire ?c h))" if "o_event seen \<notin> h_ids h"
    using that ex held_expire_ids [OF assms(1)] by (intro held_ok_insert) auto
  note tr = held_trim_ok [OF ins assms(2)] and fi = held_insert_fields [OF conjunct1 [OF ex], of seen]
  have len: "length (h_seen (held_expire ?c h)) \<le> length (h_seen h)"
    using ex by (simp add: length_dropWhile_le)
  show "held_ok (fst (held_observe seen ceil h))"
    by (cases rule: held_observe_cases [of seen h ceil]) (use assms ex tr in auto)
  show "h_key (fst (held_observe seen ceil h)) = h_key h"
    by (cases rule: held_observe_cases [of seen h ceil]) (use ex tr fi in auto)
  show "h_window (fst (held_observe seen ceil h)) = h_window h"
    by (cases rule: held_observe_cases [of seen h ceil]) (use ex tr fi in auto)
  show "int (length (h_seen (fst (held_observe seen ceil h)))) \<le> ceil" if "int (length (h_seen h)) \<le> ceil"
    by (cases rule: held_observe_cases [of seen h ceil]) (use that assms(2) len tr in auto)
qed

text \<open>The newest instant held, as a maximum.\<close>

lemma sorted_last_Max:
  assumes "sorted (map f xs)" and "xs \<noteq> []"
  shows "f (last xs) = Max (f ` set xs)"
proof (rule sym, rule Max_eqI)
  fix y assume "y \<in> f ` set xs"
  then obtain i where "i < length xs" "y = f (xs ! i)" by (auto simp: in_set_conv_nth)
  with assms sorted_nth_mono [OF assms(1), of i "length xs - 1"] show "y \<le> f (last xs)"
    by (simp add: last_conv_nth)
qed (use assms in auto)

lemma sorted_hd_Min:
  assumes "sorted (map f xs)" and "xs \<noteq> []"
  shows "f (xs ! 0) = Min (f ` set xs)"
  using assms by (cases xs) (auto intro: Min_eqI [symmetric])

lemma held_last_Max: "held_ok h \<Longrightarrow> h_seen h \<noteq> [] \<Longrightarrow> held_last h = Max (o_at ` set (h_seen h))"
  by (simp add: held_last_def held_ok_def sorted_last_Max)

text \<open>
  Under the invariant the state read is a function of the set of observations held: the
  count is how many there are, the distinct values those that are not empty, first and
  last the earliest and the latest.
\<close>

definition set_state :: "int \<Rightarrow> observation set \<Rightarrow> state" where
  "set_state ceil S =
     (if S = {} then zero_state
      else \<lparr>s_first = Min (o_at ` S), s_last = Max (o_at ` S), s_count = int (card S),
            s_distinct = int (card (o_value ` S - {[]})),
            s_saturated = (ceil \<le> int (card S)), s_repeated = False\<rparr>)"

lemma held_distinct:
  assumes "held_ok h" shows "length (h_values h) = card (o_value ` set (h_seen h) - {[]})"
proof -
  have ok: "valid_map (h_values h)"
    "\<And>v. lookup (h_values h) v = (if v = [] \<or> value_count v (h_seen h) = 0 then None else Some (int (value_count v (h_seen h))))"
    using assms by (auto simp: held_ok_def values_ok_def)
  have "v \<in> set (keys_of (h_values h)) \<longleftrightarrow> v \<in> o_value ` set (h_seen h) - {[]}" for v
  proof -
    have "v \<in> set (keys_of (h_values h)) \<longleftrightarrow> lookup (h_values h) v \<noteq> None"
      by (simp add: map_of_eq_None_iff)
    also have "\<dots> \<longleftrightarrow> v \<noteq> [] \<and> value_count v (h_seen h) \<noteq> 0" by (simp add: ok(2))
    also have "value_count v (h_seen h) \<noteq> 0 \<longleftrightarrow> v \<in> o_value ` set (h_seen h)"
      by (auto simp: value_count_def filter_empty_conv)
    finally show ?thesis by auto
  qed
  then have "set (keys_of (h_values h)) = o_value ` set (h_seen h) - {[]}" by blast
  with ok(1) show ?thesis
    unfolding valid_map_def by (metis distinct_card length_map)
qed

lemma held_card: "held_ok h \<Longrightarrow> card (set (h_seen h)) = length (h_seen h)"
  unfolding held_ok_def by (metis distinct_card distinct_map)

lemma held_state_set:
  assumes "held_ok h" shows "held_state ceil h = set_state ceil (set (h_seen h))"
proof -
  have "o_at (h_seen h ! 0) = Min (o_at ` set (h_seen h))" if "h_seen h \<noteq> []"
    using assms that by (auto simp: held_ok_def intro: sorted_hd_Min)
  then show ?thesis
    using assms held_card [OF assms] held_distinct [OF assms] held_last_Max [OF assms]
    by (simp add: held_state_def set_state_def)
qed

section \<open>Folding a stream\<close>

text \<open>
  \<open>observe_run\<close> folds a sequence of arrivals into one key; an arrival too late is
  dropped, as the caller drops it. \<open>window_of w S\<close> is what a window of length \<open>w\<close> ending
  at the newest instant of \<open>S\<close> holds of \<open>S\<close>.
\<close>

definition observe_run :: "int \<Rightarrow> held \<Rightarrow> observation list \<Rightarrow> held" where
  "observe_run ceil h xs = fold (\<lambda>x h. fst (held_observe x ceil h)) xs h"

definition window_of :: "duration \<Rightarrow> observation set \<Rightarrow> observation set" where
  "window_of w S = {x \<in> S. Max (o_at ` S) - w \<le> o_at x}"

definition never_full :: "int \<Rightarrow> duration \<Rightarrow> observation set \<Rightarrow> bool" where
  "never_full ceil w S \<longleftrightarrow> (\<forall>x \<in> S. int (card {y \<in> S. o_at x - w \<le> o_at y \<and> o_at y \<le> o_at x}) \<le> ceil)"

lemma window_of_empty [simp]: "window_of w {} = {}"
  by (simp add: window_of_def)

lemma Max_window_of:
  assumes "finite S" "S \<noteq> {}" "0 \<le> w"
  shows "window_of w S \<noteq> {}" and "Max (o_at ` window_of w S) = Max (o_at ` S)"
proof -
  from assms obtain x where x: "x \<in> S" "o_at x = Max (o_at ` S)"
    by (metis (mono_tags, lifting) Max_in finite_imageI image_iff image_is_empty)
  with assms(3) have mem: "x \<in> window_of w S" by (simp add: window_of_def)
  then show "window_of w S \<noteq> {}" by blast
  show "Max (o_at ` window_of w S) = Max (o_at ` S)"
    using assms(1) mem x by (intro Max_eqI) (auto simp: window_of_def intro!: image_eqI [of _ o_at x])
qed

lemma observe_window_step:
  assumes ok: "held_ok h" and w: "h_window h = w" "0 \<le> w" and S: "finite S" "set (h_seen h) = window_of w S"
    and pos: "\<forall>x \<in> insert seen S. 0 < o_at x" and inj: "inj_on o_event (insert seen S)"
    and fits: "int (card (window_of w (insert seen S))) \<le> ceil"
  shows "set (h_seen (fst (held_observe seen ceil h))) = window_of w (insert seen S)"
proof -
  let ?M = "Max (o_at ` insert seen S)" and ?n = "held_newest seen h"
  have M: "?n = ?M"
  proof (cases "S = {}")
    case True
    then show ?thesis using S(2) pos by (simp add: held_newest_def held_last_def)
  next
    case False
    have "h_seen h \<noteq> []" using Max_window_of(1) [OF S(1) False w(2)] S(2) by auto
    then have "held_last h = Max (o_at ` S)"
      using held_last_Max [OF ok] S(2) Max_window_of(2) [OF S(1) False w(2)] by simp
    with False S(1) show ?thesis by (simp add: held_newest_def max.commute)
  qed
  have le: "Max (o_at ` S) \<le> ?M" if "S \<noteq> {}" using S(1) that by (intro Max_mono) auto
  let ?h = "held_expire (?n - h_window h) h"
  note ex = held_expire_ok [OF ok, of "?n - h_window h"]
  have "h_seen ?h = filter (\<lambda>x. ?M - w \<le> o_at x) (h_seen h)"
    using ex ok M w(1) by (simp add: held_ok_def dropWhile_sorted)
  then have "set (h_seen ?h) = {x \<in> window_of w S. ?M - w \<le> o_at x}"
    using S(2) by simp
  also have "\<dots> = {x \<in> S. ?M - w \<le> o_at x}"
    using le by (fastforce simp: window_of_def)
  finally have exp: "set (h_seen ?h) = {x \<in> S. ?M - w \<le> o_at x}" .
  have nonneg: "0 \<le> ceil" using fits by linarith
  show ?thesis
  proof (cases rule: held_observe_cases [of seen h ceil])
    case repeated
    then obtain y where y: "y \<in> S" "o_event y = o_event seen"
      using ok S(2) by (auto simp: held_ok_def window_of_def)
    then have "y = seen" using inj by (metis inj_onD insert_iff)
    with y(1) repeated S(2) show ?thesis by (simp add: insert_absorb)
  next
    case late
    have "window_of w (insert seen S) = {x \<in> S. ?M - w \<le> o_at x}"
      using late(2) unfolding M w(1) window_of_def by fastforce
    with exp late(3) show ?thesis by simp
  next
    case folded
    have new: "held_ok (held_insert seen ?h)"
      using folded(1) ex held_expire_ids [OF ok] by (intro held_ok_insert) auto
    have set: "set (h_seen (held_insert seen ?h)) = window_of w (insert seen S)"
      using held_insert_fields(1) [OF conjunct1 [OF ex], of seen] exp folded(2)
      unfolding M w(1) window_of_def by fastforce
    then have "int (length (h_seen (held_insert seen ?h))) \<le> ceil"
      using fits held_card [OF new] by simp
    with held_trim_ok [OF new nonneg] folded(3) set show ?thesis by simp
  qed
qed

lemma observe_run_window:
  assumes "0 \<le> w" and "\<forall>x \<in> set xs. 0 < o_at x" and "inj_on o_event (set xs)"
    and "never_full ceil w (set xs)" and "0 \<le> ceil"
  shows "held_ok (observe_run ceil (new_held k w) xs) \<and> h_window (observe_run ceil (new_held k w) xs) = w \<and>
         set (h_seen (observe_run ceil (new_held k w) xs)) = window_of w (set xs)"
  using assms(2-4)
proof (induction xs rule: rev_induct)
  case Nil
  then show ?case by (simp add: observe_run_def) (simp add: new_held_def)
next
  case (snoc x xs)
  let ?h = "observe_run ceil (new_held k w) xs" and ?S = "insert x (set xs)"
  have within: "int (card (window_of w T)) \<le> ceil" if T: "T \<subseteq> ?S" "T \<noteq> {}" for T
  proof -
    have fin: "finite T" using T(1) by (rule finite_subset) simp
    with T(2) obtain y where y: "y \<in> T" "o_at y = Max (o_at ` T)"
      by (metis (mono_tags, lifting) Max_in finite_imageI image_iff image_is_empty)
    have "window_of w T \<subseteq> {z \<in> ?S. o_at y - w \<le> o_at z \<and> o_at z \<le> o_at y}"
      using T(1) y fin by (auto simp: window_of_def)
    then have "card (window_of w T) \<le> card {z \<in> ?S. o_at y - w \<le> o_at z \<and> o_at z \<le> o_at y}"
      by (intro card_mono) auto
    moreover have "int (card {z \<in> ?S. o_at y - w \<le> o_at z \<and> o_at z \<le> o_at y}) \<le> ceil"
      using snoc.prems(3) y(1) T(1) unfolding never_full_def by auto
    ultimately show ?thesis by linarith
  qed
  have "never_full ceil w (set xs)"
    unfolding never_full_def
  proof
    fix y assume y: "y \<in> set xs"
    have "card {z \<in> set xs. o_at y - w \<le> o_at z \<and> o_at z \<le> o_at y} \<le>
          card {z \<in> ?S. o_at y - w \<le> o_at z \<and> o_at z \<le> o_at y}"
      by (intro card_mono) auto
    with snoc.prems(3) y show "int (card {z \<in> set xs. o_at y - w \<le> o_at z \<and> o_at z \<le> o_at y}) \<le> ceil"
      unfolding never_full_def by fastforce
  qed
  with snoc have IH: "held_ok ?h" "h_window ?h = w" "set (h_seen ?h) = window_of w (set xs)"
    by (auto simp: inj_on_def)
  have "set (h_seen (fst (held_observe x ceil ?h))) = window_of w (insert x (set xs))"
    using IH snoc.prems assms(1) within [of ?S] by (intro observe_window_step) auto
  with IH assms(5) held_observe_ok [of ?h ceil x] show ?case
    by (simp add: observe_run_def)
qed

text \<open>
  C1. The state a key holds is a pure function of the events inside its window. Take any
  two sequences of arrivals with the same observations, in any order and with any number
  of redeliveries, each event named once and timed after the zero instant, and never more
  than the ceiling of them inside one window. Folded into a fresh key they end with the
  same state, and what each key holds is exactly the observations of the last window,
  in event time.
\<close>

theorem window_replay:
  assumes "set xs = set ys" and "0 \<le> w" and "0 \<le> ceil"
    and "\<forall>x \<in> set xs. 0 < o_at x" and "inj_on o_event (set xs)" and "never_full ceil w (set xs)"
  shows "held_state ceil (observe_run ceil (new_held k w) xs) =
         held_state ceil (observe_run ceil (new_held k w) ys) \<and>
         set (h_seen (observe_run ceil (new_held k w) xs)) = window_of w (set xs) \<and>
         sorted (map o_at (h_seen (observe_run ceil (new_held k w) xs)))"
proof -
  have run: "held_ok (observe_run ceil (new_held k w) zs) \<and>
    set (h_seen (observe_run ceil (new_held k w) zs)) = window_of w (set xs)" if "set zs = set xs" for zs
    using observe_run_window [of w zs ceil k] assms that by simp
  then show ?thesis
    using run [of xs] run [of ys] assms(1) by (simp add: held_state_set held_ok_def)
qed

definition sample_key :: state_key where
  "sample_key = \<lparr>k_tenant = ''acme'', k_rule = ''ssh.bruteforce'', k_group = ''g''\<rparr>"

definition sample_obs :: "string \<Rightarrow> instant \<Rightarrow> observation" where
  "sample_obs i t = \<lparr>o_event = \<lparr>e_agent = ''a'', e_id = i\<rparr>, o_at = t, o_value = [], o_partition = 0, o_skew = 0\<rparr>"

theorem window_replay_witness:
  "held_state 3 (observe_run 3 (new_held sample_key 10)
      [sample_obs ''x'' 5, sample_obs ''y'' 20, sample_obs ''x'' 5, sample_obs ''z'' 12]) =
   held_state 3 (observe_run 3 (new_held sample_key 10)
      [sample_obs ''z'' 12, sample_obs ''x'' 5, sample_obs ''y'' 20]) \<and>
   set (h_seen (observe_run 3 (new_held sample_key 10)
      [sample_obs ''x'' 5, sample_obs ''y'' 20, sample_obs ''x'' 5, sample_obs ''z'' 12])) =
   {sample_obs ''y'' 20, sample_obs ''z'' 12}"
proof -
  let ?S = "{sample_obs ''x'' 5, sample_obs ''y'' 20, sample_obs ''z'' 12}"
  have ats: "o_at (sample_obs i t) = t" for i t by (simp add: sample_obs_def)
  have full: "never_full 3 10 ?S"
    unfolding never_full_def
  proof
    fix x
    have "card {y \<in> ?S. o_at x - 10 \<le> o_at y \<and> o_at y \<le> o_at x} \<le> card ?S" by (intro card_mono) auto
    also have "\<dots> \<le> 3" by (simp add: card_insert_if)
    finally show "int (card {y \<in> ?S. o_at x - 10 \<le> o_at y \<and> o_at y \<le> o_at x}) \<le> 3" by simp
  qed
  have win: "window_of 10 ?S = {sample_obs ''y'' 20, sample_obs ''z'' 12}"
    by (auto simp: window_of_def ats)
  have "inj_on o_event ?S" by (auto simp: inj_on_def sample_obs_def)
  then show ?thesis
    using window_replay [of "[sample_obs ''x'' 5, sample_obs ''y'' 20, sample_obs ''x'' 5, sample_obs ''z'' 12]"
        "[sample_obs ''z'' 12, sample_obs ''x'' 5, sample_obs ''y'' 20]" 10 3 sample_key] full win
    by (simp add: ats insert_commute)
qed



text \<open>
  At a saturated key a redelivery is not recognised as one. A key holding two
  observations is sent three events; the oldest is discarded, and its name with it, so
  delivering it again is folded as new: the state answers a full count and says nothing
  is repeated, where a repetition was delivered.
\<close>

theorem saturated_redelivery_not_repeated:
  "snd (held_observe (sample_obs ''x'' 5) 2
      (observe_run 2 (new_held sample_key 10) [sample_obs ''x'' 5, sample_obs ''y'' 6, sample_obs ''z'' 7])) =
   (\<lparr>s_first = 6, s_last = 7, s_count = 2, s_distinct = 0, s_saturated = True, s_repeated = False\<rparr>, None)"
  by code_simp

end
