(* ===== verification/Go_Heap.thy ===== *)
theory Go_Heap
  imports Go_Prelude
begin

text \<open>
  The priority queue the detection state files its keys in. The source implements
  \<^verbatim>\<open>heap.Interface\<close> over a slice and calls \<^verbatim>\<open>heap.Push\<close>, \<^verbatim>\<open>heap.Pop\<close> and \<^verbatim>\<open>heap.Fix\<close> of Go's
  standard library. Both halves are here: the sift loops of \<^verbatim>\<open>container/heap\<close> over a
  list, with the ordering key as a parameter, and the contract a client relies on, as the
  locale \<open>min_queue\<close> that the sifted list implements.
\<close>

section \<open>The sift loops\<close>

definition swap :: "'a list \<Rightarrow> nat \<Rightarrow> nat \<Rightarrow> 'a list" where
  "swap xs i j = xs[i := xs ! j, j := xs ! i]"

definition parent :: "nat \<Rightarrow> nat" where
  "parent k = (k - 1) div 2"

lemma parent_0 [simp]: "parent 0 = 0"
  by (simp add: parent_def)

lemma parent_le: "parent k \<le> k"
  by (simp add: parent_def)

lemma parent_less: "0 < k \<Longrightarrow> parent k < k"
  by (simp add: parent_def)

lemma parent_less_bound: "k < n \<Longrightarrow> parent k < n"
  using parent_le [of k] by simp

lemma parent_fixed [simp]: "parent k = k \<longleftrightarrow> k = 0"
  using parent_less [of k] by (cases "k = 0") auto

lemma parent_children: "0 < k \<Longrightarrow> parent k = i \<longleftrightarrow> k = 2 * i + 1 \<or> k = 2 * i + 2"
  unfolding parent_def by presburger

function sift_up :: "('a \<Rightarrow> int) \<Rightarrow> 'a list \<Rightarrow> nat \<Rightarrow> 'a list" where
  "sift_up f xs j =
     (let i = parent j in
      if i = j \<or> \<not> f (xs ! j) < f (xs ! i) then xs
      else sift_up f (swap xs i j) i)"
  by pat_completeness auto
termination
  by (relation "measure (\<lambda>(f, xs, j). j)") (auto simp: parent_less)

text \<open>The child of \<open>i\<close> below \<open>n\<close> the loop compares with, the left one on a tie.\<close>

definition least_child :: "('a \<Rightarrow> int) \<Rightarrow> 'a list \<Rightarrow> nat \<Rightarrow> nat \<Rightarrow> nat" where
  "least_child f xs i n =
     (let j1 = 2 * i + 1; j2 = j1 + 1 in
      if j2 < n \<and> f (xs ! j2) < f (xs ! j1) then j2 else j1)"

lemma least_child_cases: "least_child f xs i n = 2 * i + 1 \<or> least_child f xs i n = 2 * i + 2"
  by (auto simp: least_child_def Let_def)

lemma least_child_bound: "2 * i + 1 < n \<Longrightarrow> i < least_child f xs i n \<and> least_child f xs i n < n"
  by (auto simp: least_child_def Let_def)

text \<open>The slice after the loop and the index the moved element stopped at.\<close>

function sift_down :: "('a \<Rightarrow> int) \<Rightarrow> 'a list \<Rightarrow> nat \<Rightarrow> nat \<Rightarrow> 'a list \<times> nat" where
  "sift_down f xs i n =
     (if n \<le> 2 * i + 1 then (xs, i)
      else let j = least_child f xs i n in
           if \<not> f (xs ! j) < f (xs ! i) then (xs, i)
           else sift_down f (swap xs i j) j n)"
  by pat_completeness auto
termination
proof (relation "measure (\<lambda>(f, xs, i, n). n - i)")
  fix f :: "'a \<Rightarrow> int" and xs :: "'a list" and i n j :: nat
  assume "\<not> n \<le> 2 * i + 1" and "j = least_child f xs i n"
  then show "((f, swap xs i j, j, n), (f, xs, i, n)) \<in> measure (\<lambda>(f, xs, i, n). n - i)"
    using least_child_bound [of i n f xs] by auto
qed auto

declare sift_up.simps [simp del] sift_down.simps [simp del]

definition heap_push :: "('a \<Rightarrow> int) \<Rightarrow> 'a \<Rightarrow> 'a list \<Rightarrow> 'a list" where
  "heap_push f x xs = sift_up f (xs @ [x]) (length xs)"

definition heap_pop :: "('a \<Rightarrow> int) \<Rightarrow> 'a list \<Rightarrow> 'a list" where
  "heap_pop f xs =
     (let n = length xs - 1 in take n (fst (sift_down f (swap xs 0 n) 0 n)))"

definition heap_fix :: "('a \<Rightarrow> int) \<Rightarrow> 'a list \<Rightarrow> nat \<Rightarrow> 'a list" where
  "heap_fix f xs i =
     (let (ys, stop) = sift_down f xs i (length xs) in
      if i < stop then ys else sift_up f ys i)"

section \<open>Sifting permutes\<close>

lemma length_swap [simp]: "length (swap xs i j) = length xs"
  by (simp add: swap_def)

lemma nth_swap:
  "i < length xs \<Longrightarrow> j < length xs \<Longrightarrow> k < length xs \<Longrightarrow>
   swap xs i j ! k = (if k = j then xs ! i else if k = i then xs ! j else xs ! k)"
  by (auto simp: swap_def nth_list_update)

lemma mset_swap_heap [simp]:
  "i < length xs \<Longrightarrow> j < length xs \<Longrightarrow> mset (swap xs i j) = mset xs"
  unfolding swap_def using mset_swap [of j xs i]
  by (cases "i = j") (auto simp: list_update_swap)

lemma length_sift_up [simp]: "length (sift_up f xs j) = length xs"
  by (induction f xs j rule: sift_up.induct) (subst sift_up.simps, simp add: Let_def)

lemma mset_sift_up: "j < length xs \<Longrightarrow> mset (sift_up f xs j) = mset xs"
proof (induction f xs j rule: sift_up.induct)
  case (1 f xs j)
  show ?case
  proof (cases "parent j = j \<or> \<not> f (xs ! j) < f (xs ! parent j)")
    case True
    then show ?thesis by (subst sift_up.simps) (simp add: Let_def)
  next
    case False
    with "1.prems" have "parent j < length xs" by (simp add: parent_less_bound)
    with False "1.prems" "1.IH" show ?thesis
      by (subst sift_up.simps) (simp add: Let_def)
  qed
qed

lemma length_sift_down [simp]: "length (fst (sift_down f xs i n)) = length xs"
  by (induction f xs i n rule: sift_down.induct) (subst sift_down.simps, simp add: Let_def)

lemma sift_down_stop:
  "n \<le> 2 * i + 1 \<or> \<not> f (xs ! least_child f xs i n) < f (xs ! i) \<Longrightarrow>
   sift_down f xs i n = (xs, i)"
  by (subst sift_down.simps) (auto simp: Let_def)

lemma sift_down_step:
  "2 * i + 1 < n \<Longrightarrow> f (xs ! least_child f xs i n) < f (xs ! i) \<Longrightarrow>
   sift_down f xs i n =
     sift_down f (swap xs i (least_child f xs i n)) (least_child f xs i n) n"
  by (subst sift_down.simps) (simp add: Let_def)

lemma sift_down_induct [consumes 1, case_names stop step]:
  assumes "n \<le> length xs"
    and "\<And>xs i. n \<le> length xs \<Longrightarrow>
           n \<le> 2 * i + 1 \<or> \<not> f (xs ! least_child f xs i n) < f (xs ! i) \<Longrightarrow> P xs i"
    and "\<And>xs i. n \<le> length xs \<Longrightarrow> 2 * i + 1 < n \<Longrightarrow>
           f (xs ! least_child f xs i n) < f (xs ! i) \<Longrightarrow>
           P (swap xs i (least_child f xs i n)) (least_child f xs i n) \<Longrightarrow> P xs i"
  shows "P xs i"
  using assms(1)
proof (induction "n - i" arbitrary: xs i rule: less_induct)
  case less
  show ?case
  proof (cases "n \<le> 2 * i + 1 \<or> \<not> f (xs ! least_child f xs i n) < f (xs ! i)")
    case True
    with less.prems show ?thesis by (rule assms(2))
  next
    case False
    let ?j = "least_child f xs i n"
    from False have go: "2 * i + 1 < n" "f (xs ! ?j) < f (xs ! i)" by auto
    from go(1) have "n - ?j < n - i" using least_child_bound [of i n f xs] by auto
    moreover have "n \<le> length (swap xs i ?j)" using less.prems by simp
    ultimately have "P (swap xs i ?j) ?j" by (rule less.hyps)
    with less.prems go show ?thesis by (rule assms(3))
  qed
qed

lemma mset_sift_down:
  assumes "n \<le> length xs"
  shows "mset (fst (sift_down f xs i n)) = mset xs"
  using assms
proof (induction xs i rule: sift_down_induct [where f = f and n = n])
  case (stop xs i)
  then show ?case by (simp add: sift_down_stop)
next
  case (step xs i)
  have "i < length xs" "least_child f xs i n < length xs"
    using step.hyps least_child_bound [of i n f xs] by auto
  with step show ?case by (simp add: sift_down_step)
qed

text \<open>Elements at and beyond the bound are not touched.\<close>

lemma sift_down_beyond:
  assumes "n \<le> length xs"
  shows "n \<le> k \<Longrightarrow> k < length xs \<Longrightarrow> fst (sift_down f xs i n) ! k = xs ! k"
  using assms
proof (induction xs i rule: sift_down_induct [where f = f and n = n])
  case (stop xs i)
  then show ?case by (simp add: sift_down_stop)
next
  case (step xs i)
  let ?j = "least_child f xs i n"
  have "i < length xs" "?j < length xs" "k \<noteq> i" "k \<noteq> ?j"
    using step.hyps step.prems least_child_bound [of i n f xs] by auto
  with step show ?case by (simp add: sift_down_step nth_swap)
qed

section \<open>Sifting restores the heap order\<close>

definition heap_upto :: "('a \<Rightarrow> int) \<Rightarrow> 'a list \<Rightarrow> nat \<Rightarrow> bool" where
  "heap_upto f xs n \<longleftrightarrow> (\<forall>k < n. 0 < k \<longrightarrow> f (xs ! parent k) \<le> f (xs ! k))"

definition heap_ok :: "('a \<Rightarrow> int) \<Rightarrow> 'a list \<Rightarrow> bool" where
  "heap_ok f xs \<longleftrightarrow> heap_upto f xs (length xs)"

lemma heap_uptoD: "heap_upto f xs n \<Longrightarrow> k < n \<Longrightarrow> 0 < k \<Longrightarrow> f (xs ! parent k) \<le> f (xs ! k)"
  by (simp add: heap_upto_def)

lemma heap_ok_root:
  assumes "heap_ok f xs" and "k < length xs"
  shows "f (xs ! 0) \<le> f (xs ! k)"
  using assms(2)
proof (induction k rule: less_induct)
  case (less k)
  show ?case
  proof (cases "k = 0")
    case False
    then have "f (xs ! 0) \<le> f (xs ! parent k)"
      using less.prems by (intro less.IH) (auto simp: parent_less parent_less_bound)
    also have "\<dots> \<le> f (xs ! k)"
      using assms(1) less.prems False by (simp add: heap_ok_def heap_upto_def)
    finally show ?thesis .
  qed simp
qed

text \<open>
  What holds between two turns of each loop: every parent is at most its child but for
  the pairs the moved element stands in, and the pairs around it are already in order.
\<close>

definition down_inv :: "('a \<Rightarrow> int) \<Rightarrow> 'a list \<Rightarrow> nat \<Rightarrow> nat \<Rightarrow> bool" where
  "down_inv f xs i n \<longleftrightarrow>
     (\<forall>k < n. 0 < k \<and> parent k \<noteq> i \<longrightarrow> f (xs ! parent k) \<le> f (xs ! k)) \<and>
     (0 < i \<longrightarrow> (\<forall>k < n. 0 < k \<and> parent k = i \<longrightarrow> f (xs ! parent i) \<le> f (xs ! k)))"

definition up_inv :: "('a \<Rightarrow> int) \<Rightarrow> 'a list \<Rightarrow> nat \<Rightarrow> bool" where
  "up_inv f xs j \<longleftrightarrow>
     (\<forall>k < length xs. 0 < k \<and> k \<noteq> j \<longrightarrow> f (xs ! parent k) \<le> f (xs ! k)) \<and>
     (0 < j \<longrightarrow> (\<forall>k < length xs. 0 < k \<and> parent k = j \<longrightarrow> f (xs ! parent j) \<le> f (xs ! k)))"

lemma least_child_least:
  assumes "2 * i + 1 < n" and "k < n" and "0 < k" and "parent k = i"
  shows "f (xs ! least_child f xs i n) \<le> f (xs ! k)"
proof -
  have "k = 2 * i + 1 \<or> k = 2 * i + 2" using assms(3,4) parent_children by blast
  then show ?thesis using assms(1,2) by (auto simp: least_child_def Let_def)
qed

lemma parent_least_child [simp]: "parent (least_child f xs i n) = i"
  using least_child_cases [of f xs i n] by (auto simp: parent_def)

lemma down_inv_step:
  assumes inv: "down_inv f xs i n" and n: "n \<le> length xs" and more: "2 * i + 1 < n"
    and less: "f (xs ! least_child f xs i n) < f (xs ! i)"
  shows "down_inv f (swap xs i (least_child f xs i n)) (least_child f xs i n) n"
proof -
  let ?j = "least_child f xs i n"
  let ?ys = "swap xs i ?j"
  have b: "i < ?j" "?j < n" using more least_child_bound by blast+
  have nth: "?ys ! k = (if k = ?j then xs ! i else if k = i then xs ! ?j else xs ! k)" if "k < n" for k
    using that b n by (simp add: nth_swap)
  have "f (?ys ! parent k) \<le> f (?ys ! k)" if k: "k < n" "0 < k" "parent k \<noteq> ?j" for k
  proof (cases "parent k = i")
    case True
    have "f (xs ! ?j) \<le> f (xs ! k)" using least_child_least [OF more k(1,2) True] .
    with True k b less show ?thesis by (auto simp: nth)
  next
    case False
    then have "k \<noteq> ?j" using parent_least_child by metis
    have "f (xs ! parent k) \<le> f (xs ! k)" using inv k False by (simp add: down_inv_def)
    moreover have "f (xs ! parent k) \<le> f (xs ! ?j)" if "k = i"
      using inv that k(2) b by (auto simp: down_inv_def)
    ultimately show ?thesis using k b False \<open>k \<noteq> ?j\<close> by (auto simp: nth parent_less_bound)
  qed
  moreover have "f (?ys ! parent ?j) \<le> f (?ys ! k)" if k: "k < n" "0 < k" "parent k = ?j" for k
  proof -
    have "?j < k" using k(2,3) parent_less by metis
    moreover have "f (xs ! ?j) \<le> f (xs ! k)" using inv k b by (auto simp: down_inv_def)
    ultimately show ?thesis using k b by (auto simp: nth)
  qed
  ultimately show ?thesis unfolding down_inv_def by blast
qed

lemma sift_down_heap:
  assumes "n \<le> length xs"
  shows "down_inv f xs i n \<Longrightarrow> heap_upto f (fst (sift_down f xs i n)) n"
  using assms
proof (induction xs i rule: sift_down_induct [where f = f and n = n])
  case (stop xs i)
  have "f (xs ! parent k) \<le> f (xs ! k)" if k: "k < n" "0 < k" for k
  proof (cases "parent k = i")
    case True
    with k have more: "2 * i + 1 < n" using parent_children [of k i] by auto
    with stop.hyps have "f (xs ! i) \<le> f (xs ! least_child f xs i n)" by auto
    also have "\<dots> \<le> f (xs ! k)" using least_child_least [OF more k True] .
    finally show ?thesis using True by simp
  next
    case False
    with stop.prems k show ?thesis by (simp add: down_inv_def)
  qed
  then show ?case using stop.hyps by (simp add: sift_down_stop heap_upto_def)
next
  case (step xs i)
  then show ?case by (simp add: sift_down_step down_inv_step)
qed

lemma up_inv_step:
  assumes inv: "up_inv f xs j" and j: "j < length xs" "0 < j" and less: "f (xs ! j) < f (xs ! parent j)"
  shows "up_inv f (swap xs (parent j) j) (parent j)"
proof -
  let ?i = "parent j"
  let ?ys = "swap xs ?i j"
  have b: "?i < j" using j(2) by (rule parent_less)
  have nth: "?ys ! k = (if k = j then xs ! ?i else if k = ?i then xs ! j else xs ! k)" if "k < length xs" for k
    using that b j by (simp add: nth_swap)
  have old: "f (xs ! parent k) \<le> f (xs ! k)" if "k < length xs" "0 < k" "k \<noteq> j" for k
    using inv that by (simp add: up_inv_def)
  have "f (?ys ! parent k) \<le> f (?ys ! k)" if k: "k < length xs" "0 < k" "k \<noteq> ?i" for k
  proof -
    have p: "parent k < length xs" using k(1) by (rule parent_less_bound)
    consider "k = j" | "k \<noteq> j" "parent k = j" | "k \<noteq> j" "parent k = ?i" | "k \<noteq> j" "parent k \<noteq> j" "parent k \<noteq> ?i"
      by blast
    then show ?thesis
    proof cases
      case 1
      with less b j show ?thesis by (simp add: nth)
    next
      case 2
      with inv j k have "f (xs ! ?i) \<le> f (xs ! k)" by (simp add: up_inv_def)
      with 2 k j show ?thesis by (simp add: nth p)
    next
      case 3
      with old [OF k(1,2)] have "f (xs ! ?i) \<le> f (xs ! k)" by simp
      with 3 k j b less show ?thesis by (simp add: nth p)
    next
      case 4
      with old [OF k(1,2)] k p show ?thesis by (simp add: nth)
    qed
  qed
  moreover have "f (?ys ! parent ?i) \<le> f (?ys ! k)"
    if i: "0 < ?i" and k: "k < length xs" "0 < k" "parent k = ?i" for k
  proof -
    have pi: "parent ?i < length xs" "parent ?i \<noteq> j" "parent ?i \<noteq> ?i"
      using i b j parent_less [OF i] by auto
    have grand: "f (xs ! parent ?i) \<le> f (xs ! ?i)" using old [of ?i] i b j by linarith
    show ?thesis
    proof (cases "k = j")
      case True
      with grand pi j show ?thesis by (simp add: nth)
    next
      case False
      then have "f (xs ! ?i) \<le> f (xs ! k)" using old [OF k(1,2)] k(3) by simp
      moreover have "k \<noteq> ?i" using parent_less [OF k(2)] k(3) by simp
      ultimately show ?thesis using grand pi False k(1) by (simp add: nth)
    qed
  qed
  ultimately show ?thesis unfolding up_inv_def by simp
qed

lemma sift_up_heap: "j < length xs \<Longrightarrow> up_inv f xs j \<Longrightarrow> heap_ok f (sift_up f xs j)"
proof (induction f xs j rule: sift_up.induct)
  case (1 f xs j)
  show ?case
  proof (cases "parent j = j \<or> \<not> f (xs ! j) < f (xs ! parent j)")
    case True
    have "f (xs ! parent k) \<le> f (xs ! k)" if "k < length xs" "0 < k" for k
    proof (cases "k = j")
      case True': True
      with True that(2) show ?thesis by auto
    next
      case False
      with "1.prems"(2) that show ?thesis by (simp add: up_inv_def)
    qed
    with True show ?thesis
      by (subst sift_up.simps) (simp add: Let_def heap_ok_def heap_upto_def)
  next
    case False
    then have "0 < j" by (cases "j = 0") auto
    with False "1.prems" have "up_inv f (swap xs (parent j) j) (parent j)" by (intro up_inv_step) auto
    moreover have "parent j < length xs" using "1.prems"(1) by (rule parent_less_bound)
    ultimately show ?thesis
      using False "1.IH" by (subst sift_up.simps) (simp add: Let_def)
  qed
qed

section \<open>The queue contract\<close>

text \<open>
  What a client of the queue relies on. \<open>ok\<close> is the representation invariant, \<open>refile x q\<close>
  replaces the element at the front by \<open>x\<close> and restores the order, as the source's
  assignment to index 0 followed by \<^verbatim>\<open>heap.Fix\<close> does.
\<close>

locale min_queue =
  fixes key :: "'a \<Rightarrow> int"
    and push :: "'a \<Rightarrow> 'a list \<Rightarrow> 'a list"
    and pop :: "'a list \<Rightarrow> 'a list"
    and refile :: "'a \<Rightarrow> 'a list \<Rightarrow> 'a list"
    and ok :: "'a list \<Rightarrow> bool"
  assumes ok_empty: "ok []"
    and ok_push: "ok q \<Longrightarrow> ok (push x q)"
    and ok_pop: "ok q \<Longrightarrow> q \<noteq> [] \<Longrightarrow> ok (pop q)"
    and ok_refile: "ok q \<Longrightarrow> q \<noteq> [] \<Longrightarrow> ok (refile x q)"
    and mset_push: "mset (push x q) = add_mset x (mset q)"
    and mset_pop: "q \<noteq> [] \<Longrightarrow> add_mset (hd q) (mset (pop q)) = mset q"
    and mset_refile: "q \<noteq> [] \<Longrightarrow> add_mset (hd q) (mset (refile x q)) = add_mset x (mset q)"
    and front_least: "ok q \<Longrightarrow> x \<in> set q \<Longrightarrow> key (hd q) \<le> key x"
begin

text \<open>Once the front is not due, nothing in the queue is.\<close>

lemma none_due:
  assumes "ok q" and "q = [] \<or> \<not> key (hd q) < c" and "x \<in> set q"
  shows "\<not> key x < c"
  using front_least [OF assms(1,3)] assms(2,3) by auto

text \<open>
  Draining terminates: taking a due front off the queue, or filing it again no longer
  due, leaves fewer due elements.
\<close>

lemma due_pop:
  assumes "q \<noteq> []" and "key (hd q) < c"
  shows "size (filter_mset (\<lambda>x. key x < c) (mset (pop q))) <
         size (filter_mset (\<lambda>x. key x < c) (mset q))"
  unfolding mset_pop [OF assms(1), symmetric] using assms(2) by simp

lemma due_refile:
  assumes "q \<noteq> []" and "key (hd q) < c" and "\<not> key x < c"
  shows "size (filter_mset (\<lambda>x. key x < c) (mset (refile x q))) <
         size (filter_mset (\<lambda>x. key x < c) (mset q))"
proof -
  have "filter_mset (\<lambda>x. key x < c) (add_mset (hd q) (mset (refile x q))) =
        filter_mset (\<lambda>x. key x < c) (mset q)"
    unfolding mset_refile [OF assms(1)] using assms(3) by simp
  then have "size (filter_mset (\<lambda>x. key x < c) (mset q)) =
             Suc (size (filter_mset (\<lambda>x. key x < c) (mset (refile x q))))"
    using assms(2) by (metis filter_mset_add_mset size_add_mset)
  then show ?thesis by simp
qed

end

text \<open>The sifted slice implements the contract.\<close>

definition heap_refile :: "('a \<Rightarrow> int) \<Rightarrow> 'a \<Rightarrow> 'a list \<Rightarrow> 'a list" where
  "heap_refile f x xs = heap_fix f (xs[0 := x]) 0"

lemma heap_fix_0: "heap_fix f xs 0 = fst (sift_down f xs 0 (length xs))"
  by (auto simp: heap_fix_def Let_def case_prod_beta sift_up.simps [of f _ 0])

lemma heap_ok_push:
  assumes "heap_ok f q" shows "heap_ok f (heap_push f x q)"
proof -
  have "up_inv f (q @ [x]) (length q)"
    unfolding up_inv_def
  proof (intro conjI impI allI)
    fix k assume "k < length (q @ [x])" "0 < k \<and> k \<noteq> length q"
    then have k: "k < length q" "0 < k" "parent k < length q" by (auto simp: parent_less_bound)
    with assms show "f ((q @ [x]) ! parent k) \<le> f ((q @ [x]) ! k)"
      by (simp add: heap_ok_def heap_upto_def nth_append)
  next
    fix k assume "k < length (q @ [x])" "0 < k \<and> parent k = length q"
    then have False using parent_less [of k] by auto
    then show "f ((q @ [x]) ! parent (length q)) \<le> f ((q @ [x]) ! k)" ..
  qed
  then show ?thesis unfolding heap_push_def by (intro sift_up_heap) auto
qed

lemma heap_ok_pop:
  assumes "heap_ok f q" and "q \<noteq> []" shows "heap_ok f (heap_pop f q)"
proof -
  define n where "n = length q - 1"
  have n: "n < length q" "length q = Suc n" using assms(2) by (auto simp: n_def)
  have "down_inv f (swap q 0 n) 0 n"
    unfolding down_inv_def
  proof (intro conjI impI allI)
    fix k assume k: "k < n" "0 < k \<and> parent k \<noteq> 0"
    then have "parent k < n" "parent k \<noteq> 0" by (auto simp: parent_less_bound)
    with k n assms(1) show "f (swap q 0 n ! parent k) \<le> f (swap q 0 n ! k)"
      by (simp add: nth_swap heap_ok_def heap_upto_def)
  qed auto
  then have "heap_upto f (fst (sift_down f (swap q 0 n) 0 n)) n"
    using n by (intro sift_down_heap) auto
  moreover have "heap_pop f q = take n (fst (sift_down f (swap q 0 n) 0 n))"
    by (simp add: heap_pop_def Let_def n_def)
  ultimately show ?thesis
    using n by (auto simp: heap_ok_def heap_upto_def parent_less_bound)
qed

lemma mset_heap_pop:
  assumes "q \<noteq> []" shows "add_mset (hd q) (mset (heap_pop f q)) = mset q"
proof -
  define n where "n = length q - 1"
  let ?r = "fst (sift_down f (swap q 0 n) 0 n)"
  have n: "n < length q" "length q = Suc n" using assms by (auto simp: n_def)
  have "?r ! n = swap q 0 n ! n" using n by (intro sift_down_beyond) auto
  also have "\<dots> = hd q" using n assms by (simp add: nth_swap hd_conv_nth)
  finally have last: "?r = take n ?r @ [hd q]"
    using n take_Suc_conv_app_nth [of n ?r] by simp
  have "mset q = mset ?r" using n by (simp add: mset_sift_down)
  also have "\<dots> = mset (take n ?r @ [hd q])" using last by simp
  finally show ?thesis by (simp add: heap_pop_def Let_def n_def)
qed

lemma mset_heap_refile:
  assumes "q \<noteq> []"
  shows "add_mset (hd q) (mset (heap_refile f x q)) = add_mset x (mset q)"
proof -
  obtain y ys where q: "q = y # ys" using assms by (cases q) auto
  have "mset (heap_refile f x q) = mset (q[0 := x])"
    by (simp add: heap_refile_def heap_fix_0 mset_sift_down del: length_list_update)
  with q show ?thesis by simp
qed

lemma heap_ok_refile:
  assumes "heap_ok f q" and "q \<noteq> []" shows "heap_ok f (heap_refile f x q)"
proof -
  have "down_inv f (q[0 := x]) 0 (length q)"
    unfolding down_inv_def
  proof (intro conjI impI allI)
    fix k assume k: "k < length q" "0 < k \<and> parent k \<noteq> 0"
    with assms(1) show "f (q[0 := x] ! parent k) \<le> f (q[0 := x] ! k)"
      by (auto simp: heap_ok_def heap_upto_def)
  qed auto
  then have "heap_upto f (fst (sift_down f (q[0 := x]) 0 (length q))) (length q)"
    by (intro sift_down_heap) auto
  then show ?thesis by (simp add: heap_refile_def heap_fix_0 heap_ok_def)
qed

interpretation heap: min_queue f "heap_push f" "heap_pop f" "heap_refile f" "heap_ok f" for f :: "'a \<Rightarrow> int"
proof unfold_locales
  show "heap_ok f []" by (simp add: heap_ok_def heap_upto_def)
  show "mset (heap_push f x q) = add_mset x (mset q)" for x :: 'a and q
    by (simp add: heap_push_def mset_sift_up)
  show "heap_ok f q \<Longrightarrow> x \<in> set q \<Longrightarrow> f (hd q) \<le> f x" for x and q :: "'a list"
    by (metis heap_ok_root hd_conv_nth in_set_conv_nth length_greater_0_conv length_pos_if_in_set)
qed (auto simp: heap_ok_push heap_ok_pop heap_ok_refile mset_heap_pop mset_heap_refile)

lemmas heap_laws [inv_intros] = heap.ok_empty heap.ok_push heap.ok_pop heap.ok_refile

lemma set_heap_push [simp]: "set (heap_push f x q) = insert x (set q)"
  using heap.mset_push [of f x q] by (metis set_mset_add_mset_insert set_mset_mset)

end
