(* ===== verification/State_Keeper.thy ===== *)
theory State_Keeper
  imports State_Window Go_Heap
begin

text \<open>
  The in-process store of detection state (\<^verbatim>\<open>internal/detectionstate/keeper.go\<close> and
  \<^verbatim>\<open>tenancy.go\<close>): every key's window, what each tenant holds and files, and the two ways
  room is made. A heap entry points at the window it files; here it names the window's
  key, and the invariant \<open>keeper_ok\<close> says the name always resolves, because a key is filed
  exactly once and leaves the queue and the store together. \<open>fold\<close> of the source is
  \<open>keeper_fold\<close>; the lock makes each call atomic, so concurrent callers are a sequence of
  calls.
\<close>

section \<open>The state\<close>

record partition_keys =
  pk_watermark :: instant
  pk_heard :: instant
  pk_expiring :: "(instant \<times> state_key) list"

record tenant_keys =
  tk_tenant :: string
  tk_held :: int
  tk_rules :: "(rule_id, int) go_map"
  tk_partitions :: "(int, partition_keys) go_map"

record keeper =
  kp_bounds :: bounds
  kp_keys :: "(state_key, held) go_map"
  kp_tenants :: "(string, tenant_keys) go_map"
  kp_newest :: instant
  kp_swept :: instant

definition sweepEvery :: duration where "sweepEvery = second"

section \<open>What one tenant holds\<close>

definition newTenantKeys :: "string \<Rightarrow> tenant_keys" where
  "newTenantKeys t = \<lparr>tk_tenant = t, tk_held = 0, tk_rules = [], tk_partitions = []\<rparr>"

definition tenant_refuses :: "rule_id \<Rightarrow> bounds \<Rightarrow> tenant_keys \<Rightarrow> state_error option" where
  "tenant_refuses r b t =
     (if tk_held t \<ge> bd_keys_per_tenant b then Some ErrTenantAtCapacity
      else if lookup_or 0 (tk_rules t) r \<ge> bd_keys_per_rule b then Some ErrRuleAtCapacity
      else None)"

definition tenant_opened :: "rule_id \<Rightarrow> tenant_keys \<Rightarrow> tenant_keys" where
  "tenant_opened r t =
     t\<lparr>tk_held := tk_held t + 1,
       tk_rules := AList.update r (lookup_or 0 (tk_rules t) r + 1) (tk_rules t)\<rparr>"

definition tenant_closed :: "rule_id \<Rightarrow> tenant_keys \<Rightarrow> tenant_keys" where
  "tenant_closed r t =
     (let n = lookup_or 0 (tk_rules t) r - 1 in
      t\<lparr>tk_held := tk_held t - 1,
        tk_rules := (if n \<le> 0 then AList.delete r (tk_rules t)
                     else AList.update r n (tk_rules t))\<rparr>)"

definition partition_delivered :: "instant \<Rightarrow> instant \<Rightarrow> partition_keys \<Rightarrow> partition_keys" where
  "partition_delivered t newest p =
     (if t > pk_watermark p then p\<lparr>pk_watermark := t\<rparr> else p)\<lparr>pk_heard := newest\<rparr>"

definition partition_clock :: "instant \<Rightarrow> partition_keys \<Rightarrow> instant" where
  "partition_clock newest p = pk_watermark p + time_sub newest (pk_heard p)"

section \<open>Reclaiming\<close>

definition expires_in :: "(state_key, held) go_map \<Rightarrow> state_key \<Rightarrow> instant" where
  "expires_in ks key = (case lookup ks key of None \<Rightarrow> 0 | Some h \<Rightarrow> held_expires h)"

text \<open>
  The inner loop of \<^verbatim>\<open>reclaim\<close> over one partition's queue. Each turn either takes an entry
  off or files it again no earlier than the clock, so the entries before the clock
  dwindle and the loop ends.
\<close>

function drain ::
  "instant \<Rightarrow> (instant \<times> state_key) list \<Rightarrow> (state_key, held) go_map \<Rightarrow> tenant_keys \<Rightarrow>
   (instant \<times> state_key) list \<times> (state_key, held) go_map \<times> tenant_keys" where
  "drain clock q ks owner =
     (if q \<noteq> [] \<and> fst (hd q) < clock
      then let key = snd (hd q); t = expires_in ks key in
           if \<not> t < clock then drain clock (heap_refile fst (t, key) q) ks owner
           else drain clock (heap_pop fst q) (AList.delete key ks) (tenant_closed (k_rule key) owner)
      else (q, ks, owner))"
  by pat_completeness auto
termination
proof (relation "measure (\<lambda>(clock, q, ks, owner). size (filter_mset (\<lambda>x. fst x < clock) (mset q)))")
  fix clock t :: int and q :: "(int \<times> state_key) list" and key :: state_key
    and ks :: "(state_key, held) go_map" and owner :: tenant_keys
  assume "q \<noteq> [] \<and> fst (hd q) < clock"
  then show "((clock, heap_pop fst q, AList.delete key ks, tenant_closed (k_rule key) owner), clock, q, ks, owner)
      \<in> measure (\<lambda>(clock, q, ks, owner). size (filter_mset (\<lambda>x. fst x < clock) (mset q)))"
    using heap.due_pop [of q fst clock] by simp
next
  fix clock t :: int and q :: "(int \<times> state_key) list" and key :: state_key
    and ks :: "(state_key, held) go_map" and owner :: tenant_keys
  assume "q \<noteq> [] \<and> fst (hd q) < clock" and "\<not> t < clock"
  then show "((clock, heap_refile fst (t, key) q, ks, owner), clock, q, ks, owner)
      \<in> measure (\<lambda>(clock, q, ks, owner). size (filter_mset (\<lambda>x. fst x < clock) (mset q)))"
    using heap.due_refile [of q fst clock "(t, key)"] by simp
qed simp

declare drain.simps [simp del]

definition reclaim_partition ::
  "instant \<Rightarrow> int \<times> partition_keys \<Rightarrow> (state_key, held) go_map \<times> tenant_keys \<Rightarrow>
   (state_key, held) go_map \<times> tenant_keys" where
  "reclaim_partition newest = (\<lambda>(p, pk) (ks, owner).
     let (q, ks', owner') = drain (partition_clock newest pk) (pk_expiring pk) ks owner
     in (ks', owner'\<lparr>tk_partitions :=
                if q = [] then AList.delete p (tk_partitions owner')
                else AList.update p (pk\<lparr>pk_expiring := q\<rparr>) (tk_partitions owner')\<rparr>))"

definition reclaim :: "tenant_keys \<Rightarrow> keeper \<Rightarrow> keeper \<times> tenant_keys" where
  "reclaim owner k =
     (let (ks, owner') = fold (reclaim_partition (kp_newest k)) (tk_partitions owner) (kp_keys k, owner)
      in (k\<lparr>kp_keys := ks,
            kp_tenants := (if tk_held owner' = 0 then AList.delete (tk_tenant owner') (kp_tenants k)
                           else AList.update (tk_tenant owner') owner' (kp_tenants k))\<rparr>,
          owner'))"

definition sweep :: "keeper \<Rightarrow> keeper" where
  "sweep k =
     (if time_sub (kp_newest k) (kp_swept k) < sweepEvery then k
      else fold (\<lambda>(t, owner) k. fst (reclaim owner k)) (kp_tenants k) (k\<lparr>kp_swept := kp_newest k\<rparr>))"

section \<open>Folding one observation\<close>

definition NewKeeper :: "bounds \<Rightarrow> state_error + keeper" where
  "NewKeeper b =
     (case bounds_validate b of
        Some e \<Rightarrow> Inl e
      | None \<Rightarrow> Inr \<lparr>kp_bounds = b, kp_keys = [], kp_tenants = [], kp_newest = 0, kp_swept = 0\<rparr>)"

definition keeper_advance :: "string \<Rightarrow> observation \<Rightarrow> keeper \<Rightarrow> keeper" where
  "keeper_advance t seen k =
     (let newest = (if o_at seen > kp_newest k then o_at seen else kp_newest k);
          k' = k\<lparr>kp_newest := newest\<rparr>
      in case lookup (kp_tenants k) t of
           None \<Rightarrow> k'
         | Some owner \<Rightarrow>
             (case lookup (tk_partitions owner) (o_partition seen) of
                None \<Rightarrow> k'
              | Some pk \<Rightarrow>
                  k'\<lparr>kp_tenants := AList.update t
                       (owner\<lparr>tk_partitions := AList.update (o_partition seen)
                          (partition_delivered (o_at seen) newest pk) (tk_partitions owner)\<rparr>)
                       (kp_tenants k)\<rparr>))"

definition at_ceiling :: "keeper \<Rightarrow> bool" where
  "at_ceiling k = (int (length (kp_keys k)) \<ge> bd_keys (kp_bounds k))"

definition admit_store :: "keeper \<Rightarrow> keeper \<times> state_error option" where
  "admit_store k =
     (let k' = (if at_ceiling k then sweep k else k)
      in (k', if at_ceiling k' then Some ErrAtCapacity else None))"

definition keeper_admit :: "state_key \<Rightarrow> keeper \<Rightarrow> keeper \<times> state_error option" where
  "keeper_admit key k =
     (case lookup (kp_tenants k) (k_tenant key) of
        None \<Rightarrow> admit_store k
      | Some owner \<Rightarrow>
          (let (k1, owner1) =
                 (if tenant_refuses (k_rule key) (kp_bounds k) owner \<noteq> None \<or> at_ceiling k
                  then reclaim owner k else (k, owner))
           in case tenant_refuses (k_rule key) (kp_bounds k) owner1 of
                Some e \<Rightarrow> (k1, Some e)
              | None \<Rightarrow> admit_store k1))"

definition keeper_open :: "held \<Rightarrow> observation \<Rightarrow> keeper \<Rightarrow> keeper" where
  "keeper_open entry seen k =
     (let t = k_tenant (h_key entry);
          owner = (case lookup (kp_tenants k) t of None \<Rightarrow> newTenantKeys t | Some owner \<Rightarrow> owner);
          entry' = entry\<lparr>h_key := (h_key entry)\<lparr>k_tenant := tk_tenant owner\<rparr>\<rparr>;
          pk = (case lookup (tk_partitions owner) (o_partition seen) of
                  None \<Rightarrow> \<lparr>pk_watermark = o_at seen, pk_heard = kp_newest k, pk_expiring = []\<rparr>
                | Some pk \<Rightarrow> pk);
          pk' = pk\<lparr>pk_expiring := heap_push fst (held_expires entry', h_key entry') (pk_expiring pk)\<rparr>;
          owner' = tenant_opened (k_rule (h_key entry')) owner
      in k\<lparr>kp_keys := AList.update (h_key entry') entry' (kp_keys k),
           kp_tenants := AList.update t
             (owner'\<lparr>tk_partitions := AList.update (o_partition seen) pk' (tk_partitions owner')\<rparr>)
             (kp_tenants k)\<rparr>)"

definition keeper_fold ::
  "string option \<Rightarrow> state_key \<Rightarrow> observation \<Rightarrow> duration \<Rightarrow> bool \<Rightarrow> keeper \<Rightarrow> keeper \<times> state \<times> observation list \<times> state_error option" where
  "keeper_fold ctx key seen window reads k =
     (case ctx of Some e \<Rightarrow> (k, zero_state, [], Some (ContextError e)) | None \<Rightarrow>
      case observation_validate seen of Some e \<Rightarrow> (k, zero_state, [], Some e) | None \<Rightarrow>
      if window \<le> 0 then (k, zero_state, [], Some ErrNoWindow)
      else if window > bd_window (kp_bounds k) then (k, zero_state, [], Some ErrWindowTooLong)
      else let k1 = keeper_advance (k_tenant key) seen k in
      case lookup (kp_keys k1) key of
        Some entry \<Rightarrow>
          (let (entry', st, err) =
                 held_observe seen (bd_observations_per_key (kp_bounds k)) (entry\<lparr>h_window := window\<rparr>)
           in (k1\<lparr>kp_keys := AList.update key entry' (kp_keys k1)\<rparr>, st,
               (if err \<noteq> None \<or> \<not> reads then [] else h_seen entry'), err))
      | None \<Rightarrow>
          (case keeper_admit key k1 of
             (k2, Some e) \<Rightarrow> (k2, zero_state, [], Some e)
           | (k2, None) \<Rightarrow>
               (let (entry', st, err) =
                      held_observe seen (bd_observations_per_key (kp_bounds k)) (new_held key window)
                in (keeper_open entry' seen k2, st,
                    (if err \<noteq> None \<or> \<not> reads then [] else h_seen entry'), err))))"

definition keeper_observe ::
  "string option \<Rightarrow> state_key \<Rightarrow> observation \<Rightarrow> duration \<Rightarrow> keeper \<Rightarrow> keeper \<times> state \<times> state_error option" where
  "keeper_observe ctx key seen window k =
     (let (k', st, _, err) = keeper_fold ctx key seen window False k in (k', st, err))"

definition keeper_ordered ::
  "string option \<Rightarrow> state_key \<Rightarrow> observation \<Rightarrow> duration \<Rightarrow> keeper \<Rightarrow> keeper \<times> state \<times> observation list \<times> state_error option" where
  "keeper_ordered ctx key seen window k = keeper_fold ctx key seen window True k"

section \<open>What the store reports\<close>

definition keeper_keys :: "keeper \<Rightarrow> int" where
  "keeper_keys k = int (length (kp_keys k))"

definition FullestTenant :: "keeper \<Rightarrow> int" where
  "FullestTenant k = fold (\<lambda>(t, owner) fullest. max fullest (tk_held owner)) (kp_tenants k) 0"

definition FullestRule :: "keeper \<Rightarrow> int" where
  "FullestRule k =
     fold (\<lambda>(t, owner) fullest. fold (\<lambda>(r, n) fullest. max fullest n) (tk_rules owner) fullest)
       (kp_tenants k) 0"

definition Watermark :: "keeper \<Rightarrow> string \<Rightarrow> int \<Rightarrow> instant" where
  "Watermark k t p =
     (case lookup (kp_tenants k) t of
        None \<Rightarrow> 0
      | Some owner \<Rightarrow> (case lookup (tk_partitions owner) p of None \<Rightarrow> 0 | Some pk \<Rightarrow> pk_watermark pk))"

end
