(* ===== verification/State_Fairness.thy ===== *)
theory State_Fairness
  imports State_Keeper
begin

text \<open>
  What the store of detection state promises, proved of \<open>State_Keeper\<close>: the invariant
  that ties a tenant's counts and queues to the keys it holds, that every call keeps it,
  and what follows for room. No store, tenant or rule holds more keys than it was bounded
  to; a key leaves only once its partition's clock is past its window; and a tenant's
  calls move nothing of another's while the store has room.
\<close>

section \<open>What a tenant's counts and queues say about the keys\<close>

definition keys_for :: "string \<Rightarrow> (state_key, held) go_map \<Rightarrow> state_key set" where
  "keys_for t ks = {key \<in> set (keys_of ks). k_tenant key = t}"

definition counts_ok :: "string \<Rightarrow> (state_key, held) go_map \<Rightarrow> tenant_keys \<Rightarrow> bool" where
  "counts_ok t ks owner \<longleftrightarrow>
     tk_tenant owner = t \<and> tk_held owner = int (count_keys (\<lambda>k. k_tenant k = t) ks) \<and>
     valid_map (tk_rules owner) \<and>
     (\<forall>r. lookup (tk_rules owner) r =
        (let n = count_keys (\<lambda>k. k_tenant k = t \<and> k_rule k = r) ks in if n = 0 then None else Some (int n)))"

definition filed :: "(int, partition_keys) go_map \<Rightarrow> state_key multiset" where
  "filed ps = sum_list (map (\<lambda>(p, pk). image_mset snd (mset (pk_expiring pk))) ps)"

lemma keys_for_finite [simp]: "finite (keys_for t ks)"
  by (simp add: keys_for_def)

lemma keys_for_lookup: "key \<in> keys_for t ks \<longleftrightarrow> (\<exists>h. lookup ks key = Some h) \<and> k_tenant key = t"
  using key_in_iff [of key ks] by (simp add: keys_for_def)

lemma keys_for_delete [simp]: "keys_for t (AList.delete key ks) = keys_for t ks - {key}"
  by (auto simp: keys_for_lookup split: if_splits)

lemma keys_for_update:
  "keys_for t (AList.update key h ks) = (if k_tenant key = t then insert key (keys_for t ks) else keys_for t ks)"
  by (auto simp: keys_for_lookup split: if_splits)

lemma counts_ok_rule:
  "counts_ok t ks owner \<Longrightarrow>
   lookup_or 0 (tk_rules owner) r = int (count_keys (\<lambda>k. k_tenant k = t \<and> k_rule k = r) ks)"
  by (auto simp: counts_ok_def lookup_or_def Let_def)

lemma counts_ok_closed:
  assumes "counts_ok t ks owner" "valid_map ks" "lookup ks key = Some h" "k_tenant key = t"
  shows "counts_ok t (AList.delete key ks) (tenant_closed (k_rule key) owner)"
proof -
  note del = count_keys_delete [OF assms(2,3)]
  have "count_keys (\<lambda>k. k_tenant k = t) ks = count_keys (\<lambda>k. k_tenant k = t) (AList.delete key ks) + 1"
    using del [of "\<lambda>k. k_tenant k = t"] assms(4) by simp
  moreover have "count_keys (\<lambda>k. k_tenant k = t \<and> k_rule k = r) ks =
        count_keys (\<lambda>k. k_tenant k = t \<and> k_rule k = r) (AList.delete key ks) + (if k_rule key = r then 1 else 0)" for r
    using del [of "\<lambda>k. k_tenant k = t \<and> k_rule k = r"] assms(4) by simp
  ultimately show ?thesis
    using assms(1) counts_ok_rule [OF assms(1), of "k_rule key"]
    by (auto simp: counts_ok_def tenant_closed_def Let_def)
qed

lemma counts_ok_opened:
  assumes "counts_ok t ks owner" "lookup ks key = None" "k_tenant key = t"
  shows "counts_ok t (AList.update key h ks) (tenant_opened (k_rule key) owner)"
  using assms(1) counts_ok_rule [OF assms(1), of "k_rule key"] assms(3)
  by (auto simp: counts_ok_def tenant_opened_def Let_def count_keys_insert [OF assms(2)])

text \<open>The counts of a tenant depend only on the keys of that tenant.\<close>

lemma counts_ok_cong:
  assumes "counts_ok t ks owner" "valid_map ks" "valid_map ks'" "keys_for t ks = keys_for t ks'"
  shows "counts_ok t ks' owner"
proof -
  have card: "count_keys P m = card {k \<in> set (keys_of m). P k}" if "valid_map m" for P and m :: "(state_key, held) go_map"
    using that unfolding count_keys_def valid_map_def by (metis distinct_card distinct_filter set_filter)
  have "{k \<in> set (keys_of ks). k_tenant k = t \<and> P k} = {k \<in> set (keys_of ks'). k_tenant k = t \<and> P k}" for P
    using assms(4) by (auto simp: keys_for_def set_eq_iff)
  then have eq: "count_keys (\<lambda>k. k_tenant k = t \<and> P k) ks = count_keys (\<lambda>k. k_tenant k = t \<and> P k) ks'" for P
    by (simp add: card assms(2,3))
  have "count_keys (\<lambda>k. k_tenant k = t) ks = count_keys (\<lambda>k. k_tenant k = t) ks'"
    using eq [of "\<lambda>_. True"] by simp
  moreover have "count_keys (\<lambda>k. k_tenant k = t \<and> k_rule k = r) ks = count_keys (\<lambda>k. k_tenant k = t \<and> k_rule k = r) ks'" for r
    by (rule eq)
  ultimately show ?thesis using assms(1) by (simp add: counts_ok_def)
qed

lemma filed_Nil [simp]: "filed [] = {#}"
  by (simp add: filed_def)

lemma filed_Cons: "filed ((p, pk) # ps) = image_mset snd (mset (pk_expiring pk)) + filed ps"
  by (simp add: filed_def)

lemma filed_split:
  "valid_map ps \<Longrightarrow> lookup ps p = Some pk \<Longrightarrow>
   filed ps = image_mset snd (mset (pk_expiring pk)) + filed (AList.delete p ps)"
proof (induction ps)
  case (Cons e ps)
  obtain q pk' where e: "e = (q, pk')" by force
  show ?case
  proof (cases "q = p")
    case True
    with Cons.prems e have "pk' = pk" "lookup ps p = None"
      by (auto simp: valid_map_def map_of_eq_None_iff)
    with True e show ?thesis by (simp add: filed_Cons delete_Cons delete_absent)
  next
    case False
    with Cons e show ?thesis by (simp add: filed_Cons valid_map_def delete_Cons ac_simps)
  qed
qed simp

lemma filed_update:
  "valid_map ps \<Longrightarrow>
   filed (AList.update p pk ps) = image_mset snd (mset (pk_expiring pk)) + filed (AList.delete p ps)"
  using filed_split [of "AList.update p pk ps" p pk] by (simp add: delete_update_same)

section \<open>Draining one queue\<close>

lemma filed_front:
  assumes "q \<noteq> []" and "image_mset snd (mset q) + R = mset_set (keys_for t ks)"
  shows "snd (hd q) \<in> keys_for t ks"
proof -
  have "snd (hd q) \<in># image_mset snd (mset q) + R" using assms(1) by simp
  then show ?thesis unfolding assms(2) by simp
qed

lemma filed_pop:
  assumes "q \<noteq> []" and "image_mset snd (mset q) + R = mset_set (keys_for t ks)"
  shows "image_mset snd (mset (heap_pop fst q)) + R = mset_set (keys_for t (AList.delete (snd (hd q)) ks))"
    and "snd (hd q) \<notin> snd ` set (heap_pop fst q)" and "set (heap_pop fst q) \<subseteq> set q"
proof -
  have key: "snd (hd q) \<in> keys_for t ks" by (rule filed_front [OF assms])
  note pop = heap.mset_pop [OF assms(1), of fst]
  have all: "add_mset (snd (hd q)) (image_mset snd (mset (heap_pop fst q)) + R) = mset_set (keys_for t ks)"
    using assms(2) unfolding pop [symmetric] by simp
  then show rest: "image_mset snd (mset (heap_pop fst q)) + R = mset_set (keys_for t (AList.delete (snd (hd q)) ks))"
    using key by (simp add: mset_set_Diff) (metis add_mset_remove_trivial)
  have "snd (hd q) \<notin># image_mset snd (mset (heap_pop fst q)) + R" unfolding rest by simp
  then show "snd (hd q) \<notin> snd ` set (heap_pop fst q)" by auto
  show "set (heap_pop fst q) \<subseteq> set q"
    using pop by (metis set_mset_add_mset_insert set_mset_mset subset_insertI)
qed

lemma filed_refile:
  assumes "q \<noteq> []"
  shows "image_mset snd (mset (heap_refile fst (u, snd (hd q)) q)) = image_mset snd (mset q)"
    and "set (heap_refile fst (u, snd (hd q)) q) \<subseteq> insert (u, snd (hd q)) (set q)"
proof -
  note re = heap.mset_refile [OF assms, of fst "(u, snd (hd q))"]
  have "image_mset snd (add_mset (hd q) (mset (heap_refile fst (u, snd (hd q)) q))) =
        image_mset snd (add_mset (u, snd (hd q)) (mset q))"
    unfolding re ..
  then show "image_mset snd (mset (heap_refile fst (u, snd (hd q)) q)) = image_mset snd (mset q)" by simp
  show "set (heap_refile fst (u, snd (hd q)) q) \<subseteq> insert (u, snd (hd q)) (set q)"
    using re by (metis insert_iff set_mset_add_mset_insert set_mset_mset subsetI)
qed

definition filed_no_later :: "(instant \<times> state_key) list \<Rightarrow> (state_key, held) go_map \<Rightarrow> bool" where
  "filed_no_later q ks \<longleftrightarrow> (\<forall>x \<in> set q. fst x \<le> expires_in ks (snd x))"

text \<open>\<open>removed_if Q ks ks'\<close>: the second map is the first without some keys that satisfy \<open>Q\<close>.\<close>

definition removed_if :: "(state_key \<Rightarrow> held \<Rightarrow> bool) \<Rightarrow> (state_key, held) go_map \<Rightarrow> (state_key, held) go_map \<Rightarrow> bool" where
  "removed_if Q ks ks' \<longleftrightarrow>
     (\<forall>key. lookup ks' key = lookup ks key \<or>
        (lookup ks' key = None \<and> (\<exists>h. lookup ks key = Some h \<and> Q key h)))"

lemma removed_if_refl [simp]: "removed_if Q ks ks"
  by (simp add: removed_if_def)

lemma removed_if_mono:
  "removed_if Q ks ks' \<Longrightarrow> (\<And>key h. lookup ks key = Some h \<Longrightarrow> Q key h \<Longrightarrow> Q' key h) \<Longrightarrow> removed_if Q' ks ks'"
  unfolding removed_if_def by blast

lemma removed_if_trans:
  assumes "removed_if Q ks ks'" and "removed_if Q ks' ks''" shows "removed_if Q ks ks''"
  unfolding removed_if_def
proof
  fix key
  show "lookup ks'' key = lookup ks key \<or> (lookup ks'' key = None \<and> (\<exists>h. lookup ks key = Some h \<and> Q key h))"
    using assms [unfolded removed_if_def, THEN spec, of key] by metis
qed

lemma removed_if_kept: "removed_if Q ks ks' \<Longrightarrow> lookup ks' key = Some h \<Longrightarrow> lookup ks key = Some h"
  unfolding removed_if_def by (metis option.distinct(1))

lemma removed_if_delete:
  assumes "removed_if Q (AList.delete key ks) ks'" and "lookup ks key = Some h" and "Q key h"
  shows "removed_if Q ks ks'"
  unfolding removed_if_def
proof
  fix k
  show "lookup ks' k = lookup ks k \<or> (lookup ks' k = None \<and> (\<exists>h. lookup ks k = Some h \<and> Q k h))"
    using assms(1) [unfolded removed_if_def, THEN spec, of k] assms(2,3) by (cases "k = key") auto
qed

lemma removed_if_keys_for: "removed_if Q ks ks' \<Longrightarrow> keys_for t ks' \<subseteq> keys_for t ks"
  using removed_if_kept [of Q ks ks'] by (metis keys_for_lookup subsetI)

definition past_in :: "instant \<Rightarrow> (instant \<times> state_key) list \<Rightarrow> state_key \<Rightarrow> held \<Rightarrow> bool" where
  "past_in clock q key h \<longleftrightarrow> key \<in> snd ` set q \<and> held_expires h < clock"

lemma expires_in_delete: "key' \<noteq> key \<Longrightarrow> expires_in (AList.delete key ks) key' = expires_in ks key'"
  by (simp add: expires_in_def)

lemma drain_stop: "q = [] \<or> \<not> fst (hd q) < clock \<Longrightarrow> drain clock q ks owner = (q, ks, owner)"
  by (subst drain.simps) auto

lemma drain_refile:
  "q \<noteq> [] \<Longrightarrow> fst (hd q) < clock \<Longrightarrow> \<not> expires_in ks (snd (hd q)) < clock \<Longrightarrow>
   drain clock q ks owner = drain clock (heap_refile fst (expires_in ks (snd (hd q)), snd (hd q)) q) ks owner"
  by (subst drain.simps) (simp add: Let_def)

lemma drain_pop:
  "q \<noteq> [] \<Longrightarrow> fst (hd q) < clock \<Longrightarrow> expires_in ks (snd (hd q)) < clock \<Longrightarrow>
   drain clock q ks owner =
   drain clock (heap_pop fst q) (AList.delete (snd (hd q)) ks) (tenant_closed (k_rule (snd (hd q))) owner)"
  by (subst drain.simps) (simp add: Let_def)

lemmas drain_steps = drain_stop drain_refile drain_pop

text \<open>
  What the loop ends with, from counts and a queue that agree with the keys: they agree
  still, nothing left in the queue is before the clock, and the keys that went were
  filed in this queue and past their window.
\<close>

lemma drain_ok:
  assumes "drain clock q ks owner = (q', ks', owner')"
    and "valid_map ks" "counts_ok t ks owner" "heap_ok fst q"
    and "image_mset snd (mset q) + R = mset_set (keys_for t ks)"
  shows "valid_map ks' \<and> counts_ok t ks' owner' \<and> heap_ok fst q' \<and>
         image_mset snd (mset q') + R = mset_set (keys_for t ks') \<and>
         tk_partitions owner' = tk_partitions owner \<and> (\<forall>x \<in> set q'. clock \<le> fst x) \<and>
         removed_if (past_in clock q) ks ks' \<and> snd ` set q' \<subseteq> snd ` set q \<and>
         (filed_no_later q ks \<longrightarrow> filed_no_later q' ks')"
  using assms
proof (induction clock q ks owner rule: drain.induct)
  case (1 clock q ks owner)
  show ?case
  proof (cases "q \<noteq> [] \<and> fst (hd q) < clock")
    case False
    then have "drain clock q ks owner = (q, ks, owner)" by (intro drain_stop) auto
    moreover have "\<forall>x \<in> set q. clock \<le> fst x"
      using heap.none_due [OF "1.prems"(4), of clock] False by (auto simp: not_less)
    ultimately show ?thesis using "1.prems" by auto
  next
    case True
    define key where "key = snd (hd q)"
    have q: "q \<noteq> []" and due: "fst (hd q) < clock" using True by auto
    obtain h where h: "lookup ks key = Some h" "k_tenant key = t"
      using filed_front [OF q "1.prems"(5)] by (auto simp: keys_for_lookup key_def)
    show ?thesis
    proof (cases "expires_in ks key < clock")
      case False
      let ?q = "heap_refile fst (expires_in ks key, key) q"
      note re = filed_refile [OF q, of "expires_in ks key", folded key_def]
      have later: "filed_no_later q ks \<Longrightarrow> filed_no_later ?q ks"
        using re(2) by (auto simp: filed_no_later_def)
      have keys: "snd ` set ?q = snd ` set q" using re(1) by (metis set_image_mset set_mset_mset)
      then have past: "past_in clock ?q = past_in clock q" by (simp add: past_in_def fun_eq_iff)
      have run: "drain clock ?q ks owner = (q', ks', owner')"
        using "1.prems"(1) drain_refile [OF q due] False by (simp add: key_def)
      show ?thesis
        using "1.IH"(1) [OF True key_def refl False run] past later keys "1.prems"(2-) re(1)
          heap_laws(4) [OF "1.prems"(4) q] by simp
    next
      case past: True
      let ?q = "heap_pop fst q" and ?ks = "AList.delete key ks"
      note pop = filed_pop [OF q "1.prems"(5), folded key_def]
      have run: "drain clock ?q ?ks (tenant_closed (k_rule key) owner) = (q', ks', owner')"
        using "1.prems"(1) drain_pop [OF q due] past by (simp add: key_def)
      have later: "filed_no_later ?q ?ks" if "filed_no_later q ks"
        unfolding filed_no_later_def
      proof
        fix x assume x: "x \<in> set ?q"
        with pop(2) have "snd x \<noteq> key" by auto
        with that x pop(3) show "fst x \<le> expires_in ?ks (snd x)"
          by (auto simp: filed_no_later_def expires_in_delete)
      qed
      have gone: "removed_if (past_in clock q) ks ks'" if "removed_if (past_in clock ?q) ?ks ks'"
      proof (rule removed_if_delete [OF removed_if_mono [OF that] h(1)])
        show "past_in clock q key h" using h(1) past q by (auto simp: past_in_def expires_in_def key_def)
      qed (use pop(3) in \<open>auto simp: past_in_def\<close>)
      have sub: "snd ` set ?q \<subseteq> snd ` set q" using pop(3) by blast
      have parts: "tk_partitions (tenant_closed (k_rule key) owner) = tk_partitions owner"
        by (simp add: tenant_closed_def Let_def)
      show ?thesis
        using "1.IH"(2) [OF True key_def refl _ run] past later gone parts order_trans [OF _ sub] "1.prems"(2,4) q pop(1)
          counts_ok_closed [OF "1.prems"(3,2) h] heap_laws(3) [OF "1.prems"(4) q] by simp
    qed
  qed
qed

section \<open>Reclaiming one tenant\<close>

definition owner_ok :: "string \<Rightarrow> (state_key, held) go_map \<Rightarrow> tenant_keys \<Rightarrow> bool" where
  "owner_ok t ks owner \<longleftrightarrow>
     counts_ok t ks owner \<and> valid_map (tk_partitions owner) \<and>
     (\<forall>p pk. lookup (tk_partitions owner) p = Some pk \<longrightarrow> heap_ok fst (pk_expiring pk)) \<and>
     filed (tk_partitions owner) = mset_set (keys_for t ks)"

definition filed_timely :: "tenant_keys \<Rightarrow> (state_key, held) go_map \<Rightarrow> bool" where
  "filed_timely owner ks \<longleftrightarrow>
     (\<forall>p pk. lookup (tk_partitions owner) p = Some pk \<longrightarrow> filed_no_later (pk_expiring pk) ks)"

lemma filed_once:
  assumes "owner_ok t ks owner" and "lookup (tk_partitions owner) p = Some pk"
    and "lookup (tk_partitions owner) p' = Some pk'" and "p \<noteq> p'"
    and "key \<in> snd ` set (pk_expiring pk)"
  shows "key \<notin> snd ` set (pk_expiring pk')"
proof
  assume in': "key \<in> snd ` set (pk_expiring pk')"
  have vm: "valid_map (tk_partitions owner)" using assms(1) by (simp add: owner_ok_def)
  note one = filed_split [OF vm assms(2)]
  have "filed (AList.delete p (tk_partitions owner)) =
        image_mset snd (mset (pk_expiring pk')) + filed (AList.delete p' (AList.delete p (tk_partitions owner)))"
    using assms(3,4) by (intro filed_split) (simp_all add: vm)
  then have "count (filed (tk_partitions owner)) key \<ge>
        count (image_mset snd (mset (pk_expiring pk))) key + count (image_mset snd (mset (pk_expiring pk'))) key"
    unfolding one by simp
  moreover have "key \<in># image_mset snd (mset (pk_expiring pk))" "key \<in># image_mset snd (mset (pk_expiring pk'))"
    using assms(5) in' by simp_all
  then have "0 < count (image_mset snd (mset (pk_expiring pk))) key"
    "0 < count (image_mset snd (mset (pk_expiring pk'))) key"
    by (simp_all only: count_greater_zero_iff)
  ultimately have "2 \<le> count (filed (tk_partitions owner)) key" by linarith
  then have "2 \<le> count (mset_set (keys_for t ks)) key"
    using assms(1) by (simp add: owner_ok_def)
  then show False by (simp add: count_mset_set' split: if_splits)
qed

lemma filed_no_later_kept:
  assumes "filed_no_later q ks" and "removed_if Q ks ks'"
    and "\<And>x h. x \<in> set q \<Longrightarrow> lookup ks (snd x) = Some h \<Longrightarrow> \<not> Q (snd x) h"
  shows "filed_no_later q ks'"
  unfolding filed_no_later_def
proof
  fix x assume x: "x \<in> set q"
  then have "lookup ks' (snd x) = lookup ks (snd x)"
    using assms(2) [unfolded removed_if_def, THEN spec, of "snd x"] assms(3) [OF x] by auto
  with assms(1) x show "fst x \<le> expires_in ks' (snd x)"
    by (simp add: filed_no_later_def expires_in_def)
qed

lemma reclaim_partition_ok:
  assumes "owner_ok t ks owner" "valid_map ks" "lookup (tk_partitions owner) p = Some pk"
    and "reclaim_partition newest (p, pk) (ks, owner) = (ks', owner')"
  defines "clock \<equiv> partition_clock newest pk"
  shows "owner_ok t ks' owner'" "valid_map ks'" "removed_if (past_in clock (pk_expiring pk)) ks ks'"
    and "p' \<noteq> p \<Longrightarrow> lookup (tk_partitions owner') p' = lookup (tk_partitions owner) p'"
    and "lookup (tk_partitions owner') p = Some pk' \<Longrightarrow>
           \<exists>q. pk' = pk\<lparr>pk_expiring := q\<rparr> \<and> (\<forall>x \<in> set q. clock \<le> fst x) \<and> snd ` set q \<subseteq> snd ` set (pk_expiring pk)"
    and "filed_timely owner ks \<Longrightarrow> filed_timely owner' ks'"
proof -
  obtain q' owner1 where d: "drain clock (pk_expiring pk) ks owner = (q', ks', owner1)"
    and o': "owner' = owner1\<lparr>tk_partitions := if q' = [] then AList.delete p (tk_partitions owner1)
                else AList.update p (pk\<lparr>pk_expiring := q'\<rparr>) (tk_partitions owner1)\<rparr>"
    using assms(4) by (auto simp: reclaim_partition_def clock_def Let_def split: prod.splits)
  have vm: "valid_map (tk_partitions owner)" and cnt: "counts_ok t ks owner"
    and hp: "heap_ok fst (pk_expiring pk)" using assms(1,3) by (auto simp: owner_ok_def)
  let ?R = "filed (AList.delete p (tk_partitions owner))"
  have "image_mset snd (mset (pk_expiring pk)) + ?R = mset_set (keys_for t ks)"
    using assms(1) filed_split [OF vm assms(3)] by (simp add: owner_ok_def)
  note dr = drain_ok [OF d assms(2) cnt hp this]
  then have parts: "tk_partitions owner1 = tk_partitions owner" by simp
  have look: "lookup (tk_partitions owner') p' =
      (if p' = p then if q' = [] then None else Some (pk\<lparr>pk_expiring := q'\<rparr>) else lookup (tk_partitions owner) p')" for p'
    by (simp add: o' parts)
  show "valid_map ks'" and rem: "removed_if (past_in clock (pk_expiring pk)) ks ks'" using dr by auto
  show "p' \<noteq> p \<Longrightarrow> lookup (tk_partitions owner') p' = lookup (tk_partitions owner) p'" by (simp add: look)
  show "lookup (tk_partitions owner') p = Some pk' \<Longrightarrow>
          \<exists>q. pk' = pk\<lparr>pk_expiring := q\<rparr> \<and> (\<forall>x \<in> set q. clock \<le> fst x) \<and> snd ` set q \<subseteq> snd ` set (pk_expiring pk)"
    using dr by (auto simp: look split: if_splits)
  have "filed (tk_partitions owner') = image_mset snd (mset q') + ?R"
    using vm by (simp add: o' parts filed_update)
  moreover have "counts_ok t ks' owner'" using dr by (simp add: o' counts_ok_def)
  moreover have "valid_map (tk_partitions owner')" using vm by (simp add: o' parts)
  ultimately show "owner_ok t ks' owner'"
    using dr assms(1) by (auto simp: owner_ok_def look split: if_splits)
  show "filed_timely owner' ks'" if ft: "filed_timely owner ks"
    unfolding filed_timely_def
  proof (intro allI impI)
    fix p2 pk2 assume l2: "lookup (tk_partitions owner') p2 = Some pk2"
    show "filed_no_later (pk_expiring pk2) ks'"
    proof (cases "p2 = p")
      case True
      with l2 dr ft assms(3) show ?thesis by (auto simp: look filed_timely_def split: if_splits)
    next
      case False
      with l2 have l: "lookup (tk_partitions owner) p2 = Some pk2" by (simp add: look)
      with ft have "filed_no_later (pk_expiring pk2) ks" by (simp add: filed_timely_def)
      then show ?thesis
        by (rule filed_no_later_kept [OF _ rem])
           (use filed_once [OF assms(1) l assms(3) False] in \<open>auto simp: past_in_def\<close>)
    qed
  qed
qed

definition past_of :: "instant \<Rightarrow> (int, partition_keys) go_map \<Rightarrow> state_key \<Rightarrow> held \<Rightarrow> bool" where
  "past_of newest ps key h \<longleftrightarrow>
     (\<exists>p pk. lookup ps p = Some pk \<and> past_in (partition_clock newest pk) (pk_expiring pk) key h)"

lemma reclaim_partitions_ok:
  assumes "fold (reclaim_partition newest) ps (ks, owner) = (ks', owner')"
    and "owner_ok t ks owner" "valid_map ks" "distinct (map fst ps)"
    and "\<And>p pk. (p, pk) \<in> set ps \<Longrightarrow> lookup (tk_partitions owner) p = Some pk"
  shows "owner_ok t ks' owner' \<and> valid_map ks' \<and> removed_if (past_of newest ps) ks ks' \<and>
         (\<forall>p. p \<notin> fst ` set ps \<longrightarrow> lookup (tk_partitions owner') p = lookup (tk_partitions owner) p) \<and>
         (\<forall>p pk pk'. (p, pk) \<in> set ps \<longrightarrow> lookup (tk_partitions owner') p = Some pk' \<longrightarrow>
            (\<exists>q. pk' = pk\<lparr>pk_expiring := q\<rparr> \<and> (\<forall>x \<in> set q. partition_clock newest pk \<le> fst x) \<and>
               snd ` set q \<subseteq> snd ` set (pk_expiring pk))) \<and>
         (filed_timely owner ks \<longrightarrow> filed_timely owner' ks')"
  using assms
proof (induction ps arbitrary: ks owner)
  case (Cons e ps)
  obtain p pk where e: "e = (p, pk)" by force
  obtain ks1 owner1 where r: "reclaim_partition newest (p, pk) (ks, owner) = (ks1, owner1)" by force
  have l: "lookup (tk_partitions owner) p = Some pk" using Cons.prems(5) e by simp
  note one = reclaim_partition_ok [OF Cons.prems(2,3) l r]
  have rest: "lookup (tk_partitions owner1) p' = Some pk'" if "(p', pk') \<in> set ps" for p' pk'
    using that Cons.prems(4,5) e one(4) [of p'] by force
  have "fold (reclaim_partition newest) ps (ks1, owner1) = (ks', owner')"
    using Cons.prems(1) e r by simp
  note IH = Cons.IH [OF this one(1,2) _ rest]
  have dist: "distinct (map fst ps)" and p: "p \<notin> fst ` set ps" using Cons.prems(4) e by auto
  have vm: "valid_map (e # ps)" using Cons.prems(4) by (simp add: valid_map_def)
  have "removed_if (past_of newest (e # ps)) ks ks1"
    by (rule removed_if_mono [OF one(3)]) (auto simp: past_of_def e)
  moreover have "removed_if (past_of newest (e # ps)) ks1 ks'"
  proof (rule removed_if_mono)
    show "removed_if (past_of newest ps) ks1 ks'" using IH dist by simp
    show "past_of newest ps key h \<Longrightarrow> past_of newest (e # ps) key h" for key h
      using vm p e by (auto simp: past_of_def) (metis image_eqI fst_conv lookup_in_set)
  qed
  ultimately have "removed_if (past_of newest (e # ps)) ks ks'" by (rule removed_if_trans)
  moreover have "\<exists>q. pk' = pk2\<lparr>pk_expiring := q\<rparr> \<and> (\<forall>x \<in> set q. partition_clock newest pk2 \<le> fst x) \<and>
      snd ` set q \<subseteq> snd ` set (pk_expiring pk2)"
    if "(p2, pk2) \<in> set (e # ps)" "lookup (tk_partitions owner') p2 = Some pk'" for p2 pk2 pk'
  proof (cases "(p2, pk2) = (p, pk)")
    case True
    with that(2) IH dist p one(5) show ?thesis by simp
  next
    case False
    with that e have "(p2, pk2) \<in> set ps" by auto
    with IH dist that(2) show ?thesis by blast
  qed
  ultimately show ?case using IH dist one(4,6) e by auto
qed simp

text \<open>
  A tenant reclaimed: its counts and queues still agree with the keys; what went was
  filed by this tenant and past its window at its partition's clock; and, where no entry
  was filed later than its key expires, nothing past its window is left.
\<close>

lemma reclaim_owner_ok:
  assumes "fold (reclaim_partition newest) (tk_partitions owner) (ks, owner) = (ks', owner')"
    and "owner_ok t ks owner" "valid_map ks"
  shows "owner_ok t ks' owner'" "valid_map ks'" "removed_if (past_of newest (tk_partitions owner)) ks ks'"
    and "filed_timely owner ks \<Longrightarrow> filed_timely owner' ks'"
    and "filed_timely owner ks \<Longrightarrow> lookup ks' key = Some h \<Longrightarrow> \<not> past_of newest (tk_partitions owner') key h"
    and "past_of newest (tk_partitions owner') key h \<Longrightarrow> past_of newest (tk_partitions owner) key h"
proof -
  have vm: "valid_map (tk_partitions owner)" using assms(2) by (simp add: owner_ok_def)
  then have "distinct (map fst (tk_partitions owner))"
    and "\<And>p pk. (p, pk) \<in> set (tk_partitions owner) \<Longrightarrow> lookup (tk_partitions owner) p = Some pk"
    by (simp_all add: valid_map_def)
  note all = reclaim_partitions_ok [OF assms this]
  then show "owner_ok t ks' owner'" "valid_map ks'" "removed_if (past_of newest (tk_partitions owner)) ks ks'"
    by blast+
  have origin: "\<exists>pk0 q. lookup (tk_partitions owner) p = Some pk0 \<and> pk = pk0\<lparr>pk_expiring := q\<rparr> \<and>
      (\<forall>x \<in> set q. partition_clock newest pk0 \<le> fst x) \<and> snd ` set q \<subseteq> snd ` set (pk_expiring pk0)"
    if "lookup (tk_partitions owner') p = Some pk" for p pk
  proof -
    have "p \<in> fst ` set (tk_partitions owner)" using all that by (metis key_in_iff set_map)
    then obtain pk0 where l0: "lookup (tk_partitions owner) p = Some pk0" by (metis key_in_iff set_map)
    then have "(p, pk0) \<in> set (tk_partitions owner)" by (rule lookup_in_set)
    with all that l0 show ?thesis by blast
  qed
  show "past_of newest (tk_partitions owner) key h" if "past_of newest (tk_partitions owner') key h"
  proof -
    from that obtain p pk where l: "lookup (tk_partitions owner') p = Some pk"
      and k: "key \<in> snd ` set (pk_expiring pk)" "held_expires h < partition_clock newest pk"
      by (auto simp: past_of_def past_in_def)
    from origin [OF l] obtain pk0 q where l0: "lookup (tk_partitions owner) p = Some pk0"
      and pk: "pk = pk0\<lparr>pk_expiring := q\<rparr>" "snd ` set q \<subseteq> snd ` set (pk_expiring pk0)" by blast
    from k pk have "key \<in> snd ` set (pk_expiring pk0)" "held_expires h < partition_clock newest pk0"
      by (auto simp: partition_clock_def)
    with l0 show ?thesis unfolding past_of_def past_in_def by blast
  qed
  show ft: "filed_timely owner' ks'" if "filed_timely owner ks" using all that by blast
  show "\<not> past_of newest (tk_partitions owner') key h" if "filed_timely owner ks" "lookup ks' key = Some h"
  proof
    assume "past_of newest (tk_partitions owner') key h"
    then obtain p pk u where l: "lookup (tk_partitions owner') p = Some pk"
      and k: "(u, key) \<in> set (pk_expiring pk)" "held_expires h < partition_clock newest pk"
      by (auto simp: past_of_def past_in_def)
    from origin [OF l] obtain pk0 q where "pk = pk0\<lparr>pk_expiring := q\<rparr>"
      "\<forall>x \<in> set q. partition_clock newest pk0 \<le> fst x" by blast
    with k have "partition_clock newest pk \<le> u" by (auto simp: partition_clock_def)
    moreover have "filed_no_later (pk_expiring pk) ks'" using ft [OF that(1)] l by (simp add: filed_timely_def)
    then have "fst (u, key) \<le> expires_in ks' (snd (u, key))"
      using k(1) unfolding filed_no_later_def by blast
    then have "u \<le> held_expires h" using that(2) by (simp add: expires_in_def)
    ultimately show False using k(2) by simp
  qed
qed

section \<open>The invariant of the store\<close>

definition keeper_wf :: "keeper \<Rightarrow> bool" where
  "keeper_wf k \<longleftrightarrow>
     valid_map (kp_keys k) \<and> valid_map (kp_tenants k) \<and>
     (\<forall>key h. lookup (kp_keys k) key = Some h \<longrightarrow>
        h_key h = key \<and> held_ok h \<and> int (length (h_seen h)) \<le> bd_observations_per_key (kp_bounds k)) \<and>
     (\<forall>t owner. lookup (kp_tenants k) t = Some owner \<longrightarrow> owner_ok t (kp_keys k) owner \<and> 0 < tk_held owner) \<and>
     (\<forall>key h. lookup (kp_keys k) key = Some h \<longrightarrow> lookup (kp_tenants k) (k_tenant key) \<noteq> None)"

lemma keeper_wfI:
  assumes "valid_map (kp_keys k)" "valid_map (kp_tenants k)"
    and "\<And>key h. lookup (kp_keys k) key = Some h \<Longrightarrow>
      h_key h = key \<and> held_ok h \<and> int (length (h_seen h)) \<le> bd_observations_per_key (kp_bounds k)"
    and "\<And>t owner. lookup (kp_tenants k) t = Some owner \<Longrightarrow> owner_ok t (kp_keys k) owner \<and> 0 < tk_held owner"
    and "\<And>key h. lookup (kp_keys k) key = Some h \<Longrightarrow> \<exists>owner. lookup (kp_tenants k) (k_tenant key) = Some owner"
  shows "keeper_wf k"
  unfolding keeper_wf_def using assms by blast

lemma wf_owner:
  "keeper_wf k \<Longrightarrow> lookup (kp_tenants k) t = Some owner \<Longrightarrow> owner_ok t (kp_keys k) owner"
  "keeper_wf k \<Longrightarrow> lookup (kp_tenants k) t = Some owner \<Longrightarrow> 0 < tk_held owner"
  unfolding keeper_wf_def by blast+

lemma wf_tenant:
  "keeper_wf k \<Longrightarrow> lookup (kp_keys k) key = Some h \<Longrightarrow> \<exists>owner. lookup (kp_tenants k) (k_tenant key) = Some owner"
  unfolding keeper_wf_def by blast

lemma wf_held:
  "keeper_wf k \<Longrightarrow> lookup (kp_keys k) key = Some h \<Longrightarrow>
   h_key h = key \<and> held_ok h \<and> int (length (h_seen h)) \<le> bd_observations_per_key (kp_bounds k)"
  unfolding keeper_wf_def by blast

lemma wf_valid: "keeper_wf k \<Longrightarrow> valid_map (kp_keys k)" "keeper_wf k \<Longrightarrow> valid_map (kp_tenants k)"
  unfolding keeper_wf_def by blast+

definition keeper_timely :: "keeper \<Rightarrow> bool" where
  "keeper_timely k \<longleftrightarrow> (\<forall>t owner. lookup (kp_tenants k) t = Some owner \<longrightarrow> filed_timely owner (kp_keys k))"

text \<open>A key is past its window when the partition that files it has moved past it.\<close>

definition past_window :: "keeper \<Rightarrow> state_key \<Rightarrow> held \<Rightarrow> bool" where
  "past_window k key h \<longleftrightarrow>
     (\<exists>owner. lookup (kp_tenants k) (k_tenant key) = Some owner \<and>
        past_of (kp_newest k) (tk_partitions owner) key h)"

lemma owner_ok_cong:
  "owner_ok t ks owner \<Longrightarrow> valid_map ks \<Longrightarrow> valid_map ks' \<Longrightarrow> keys_for t ks = keys_for t ks' \<Longrightarrow> owner_ok t ks' owner"
  unfolding owner_ok_def using counts_ok_cong by metis

lemma filed_tenant:
  assumes "owner_ok t ks owner" "lookup (tk_partitions owner) p = Some pk" "key \<in> snd ` set (pk_expiring pk)"
  shows "key \<in> keys_for t ks"
proof -
  have vm: "valid_map (tk_partitions owner)" using assms(1) by (simp add: owner_ok_def)
  have "key \<in># filed (tk_partitions owner)"
    unfolding filed_split [OF vm assms(2)] using assms(3) by simp
  then show ?thesis using assms(1) by (simp add: owner_ok_def)
qed

lemma filed_timely_cong:
  assumes "owner_ok t ks owner" "filed_timely owner ks"
    and "\<And>key. k_tenant key = t \<Longrightarrow> lookup ks' key = lookup ks key"
  shows "filed_timely owner ks'"
  unfolding filed_timely_def filed_no_later_def
proof (intro allI impI ballI)
  fix p pk x assume l: "lookup (tk_partitions owner) p = Some pk" and x: "x \<in> set (pk_expiring pk)"
  then have "snd x \<in> keys_for t ks" by (intro filed_tenant [OF assms(1) l]) simp
  then have same: "lookup ks' (snd x) = lookup ks (snd x)" using assms(3) by (simp add: keys_for_lookup)
  have "fst x \<le> expires_in ks (snd x)"
    using assms(2) l x unfolding filed_timely_def filed_no_later_def by blast
  with same show "fst x \<le> expires_in ks' (snd x)" by (simp add: expires_in_def)
qed

text \<open>
  What reclaiming a tenant of a well-formed store leaves: only the keys that changed,
  the tenant's own record, and nothing else.
\<close>

definition reclaims_to :: "string \<Rightarrow> keeper \<Rightarrow> keeper \<Rightarrow> tenant_keys \<Rightarrow> bool" where
  "reclaims_to t k k' owner' \<longleftrightarrow>
     kp_bounds k' = kp_bounds k \<and> kp_newest k' = kp_newest k \<and> kp_swept k' = kp_swept k \<and>
     valid_map (kp_keys k') \<and> valid_map (kp_tenants k') \<and> owner_ok t (kp_keys k') owner' \<and>
     removed_if (\<lambda>key h. k_tenant key = t \<and> past_window k key h) (kp_keys k) (kp_keys k') \<and>
     (\<forall>key h. past_window k' key h \<longrightarrow> past_window k key h) \<and>
     (\<forall>t'. lookup (kp_tenants k') t' =
        (if t' = t then if tk_held owner' = 0 then None else Some owner' else lookup (kp_tenants k) t'))"

lemma reclaim_reclaims:
  assumes "keeper_wf k" and own: "lookup (kp_tenants k) t = Some owner" and "reclaim owner k = (k', owner')"
  shows "reclaims_to t k k' owner'"
    and "keeper_timely k \<Longrightarrow> filed_timely owner' (kp_keys k')"
    and "keeper_timely k \<Longrightarrow> lookup (kp_keys k') key = Some h \<Longrightarrow> \<not> past_of (kp_newest k) (tk_partitions owner') key h"
proof -
  obtain ks where f: "fold (reclaim_partition (kp_newest k)) (tk_partitions owner) (kp_keys k, owner) = (ks, owner')"
    and k': "k' = k\<lparr>kp_keys := ks,
            kp_tenants := (if tk_held owner' = 0 then AList.delete (tk_tenant owner') (kp_tenants k)
                           else AList.update (tk_tenant owner') owner' (kp_tenants k))\<rparr>"
    using assms(3) by (auto simp: reclaim_def Let_def split: prod.splits)
  have ook: "owner_ok t (kp_keys k) owner" and vk: "valid_map (kp_keys k)" and vt: "valid_map (kp_tenants k)"
    using assms(1) own by (auto simp: keeper_wf_def)
  note re = reclaim_owner_ok [OF f ook vk]
  have tt: "tk_tenant owner' = t" using re(1) by (simp add: owner_ok_def counts_ok_def)
  have "removed_if (\<lambda>key h. k_tenant key = t \<and> past_window k key h) (kp_keys k) ks"
  proof (rule removed_if_mono [OF re(3)])
    fix key h assume p: "past_of (kp_newest k) (tk_partitions owner) key h"
    then have "k_tenant key = t"
      using filed_tenant [OF ook] by (auto simp: past_of_def past_in_def keys_for_lookup)
    with p own show "k_tenant key = t \<and> past_window k key h" by (simp add: past_window_def)
  qed
  moreover have "past_window k key h" if "past_window k' key h" for key h
    using that own re(6) [of key h] by (auto simp: past_window_def k' tt split: if_splits)
  ultimately show "reclaims_to t k k' owner'"
    using re(1,2) vt by (simp add: reclaims_to_def k' tt)
  show "keeper_timely k \<Longrightarrow> filed_timely owner' (kp_keys k')"
    using re(4) own by (simp add: keeper_timely_def k')
  show "keeper_timely k \<Longrightarrow> lookup (kp_keys k') key = Some h \<Longrightarrow> \<not> past_of (kp_newest k) (tk_partitions owner') key h"
    using re(5) own by (simp add: keeper_timely_def k')
qed

lemma reclaims_other:
  "reclaims_to t k k' owner' \<Longrightarrow> k_tenant key \<noteq> t \<Longrightarrow> lookup (kp_keys k') key = lookup (kp_keys k) key"
  unfolding reclaims_to_def removed_if_def by blast

lemma reclaims_kept:
  "reclaims_to t k k' owner' \<Longrightarrow> lookup (kp_keys k') key = Some h \<Longrightarrow> lookup (kp_keys k) key = Some h"
  unfolding reclaims_to_def using removed_if_kept by blast

lemma reclaims_owner:
  assumes "keeper_wf k" "reclaims_to t k k' owner'" "lookup (kp_tenants k') t2 = Some owner2"
  shows "owner_ok t2 (kp_keys k') owner2 \<and> 0 < tk_held owner2"
proof (cases "t2 = t")
  case True
  with assms(2,3) have "owner2 = owner'" "owner_ok t (kp_keys k') owner'" "tk_held owner' \<noteq> 0"
    by (auto simp: reclaims_to_def split: if_splits)
  moreover from this(2) have "0 \<le> tk_held owner'" by (simp add: owner_ok_def counts_ok_def)
  ultimately show ?thesis using True by simp
next
  case False
  with assms(2,3) have l: "lookup (kp_tenants k) t2 = Some owner2" by (simp add: reclaims_to_def)
  have "keys_for t2 (kp_keys k) = keys_for t2 (kp_keys k')"
    using reclaims_other [OF assms(2)] False by (auto simp: keys_for_lookup)
  with l assms(1,2) show ?thesis
    using owner_ok_cong [of t2 "kp_keys k" owner2 "kp_keys k'"] by (simp add: keeper_wf_def reclaims_to_def)
qed

lemma reclaims_wf:
  assumes wf: "keeper_wf k" and re: "reclaims_to t k k' owner'"
  shows "keeper_wf k'"
  unfolding keeper_wf_def
proof (intro conjI allI impI)
  show "valid_map (kp_keys k')" "valid_map (kp_tenants k')" using re by (simp_all add: reclaims_to_def)
next
  fix key h assume l: "lookup (kp_keys k') key = Some h"
  then have l': "lookup (kp_keys k) key = Some h" by (rule reclaims_kept [OF re])
  with wf re show "h_key h = key" "held_ok h" "int (length (h_seen h)) \<le> bd_observations_per_key (kp_bounds k')"
    by (simp_all add: keeper_wf_def reclaims_to_def)
  have some: "lookup (kp_tenants k) (k_tenant key) \<noteq> None" using wf l' by (simp add: keeper_wf_def)
  have "0 < count_keys (\<lambda>k. k_tenant k = k_tenant key) (kp_keys k')"
    by (rule count_keys_pos [OF l]) simp
  then have "tk_held owner' \<noteq> 0" if "k_tenant key = t"
    using re that by (simp add: reclaims_to_def owner_ok_def counts_ok_def)
  with some re show "lookup (kp_tenants k') (k_tenant key) \<noteq> None" by (simp add: reclaims_to_def)
next
  fix t2 owner2 assume "lookup (kp_tenants k') t2 = Some owner2"
  then show "owner_ok t2 (kp_keys k') owner2" "0 < tk_held owner2"
    using reclaims_owner [OF wf re] by blast+
qed

lemma reclaims_timely:
  assumes "keeper_wf k" "reclaims_to t k k' owner'" "keeper_timely k" "filed_timely owner' (kp_keys k')"
  shows "keeper_timely k'"
  unfolding keeper_timely_def
proof (intro allI impI)
  fix t2 owner2 assume l: "lookup (kp_tenants k') t2 = Some owner2"
  show "filed_timely owner2 (kp_keys k')"
  proof (cases "t2 = t")
    case True
    with l assms(2,4) show ?thesis by (auto simp: reclaims_to_def split: if_splits)
  next
    case False
    with l assms(2) have l': "lookup (kp_tenants k) t2 = Some owner2" by (simp add: reclaims_to_def)
    show ?thesis
    proof (rule filed_timely_cong)
      show "owner_ok t2 (kp_keys k) owner2" "filed_timely owner2 (kp_keys k)"
        using l' assms(1,3) by (simp_all add: keeper_wf_def keeper_timely_def)
      show "k_tenant key = t2 \<Longrightarrow> lookup (kp_keys k') key = lookup (kp_keys k) key" for key
        using reclaims_other [OF assms(2)] False by simp
    qed
  qed
qed

section \<open>Every step keeps the invariant\<close>

text \<open>
  \<open>frees Q k k'\<close>: from \<open>k\<close> to \<open>k'\<close> the store lost keys that satisfy \<open>Q\<close> and nothing else
  happened to the windows, and it is still well formed.
\<close>

definition frees :: "(state_key \<Rightarrow> held \<Rightarrow> bool) \<Rightarrow> keeper \<Rightarrow> keeper \<Rightarrow> bool" where
  "frees Q k k' \<longleftrightarrow>
     keeper_wf k' \<and> kp_bounds k' = kp_bounds k \<and> kp_newest k' = kp_newest k \<and>
     removed_if Q (kp_keys k) (kp_keys k') \<and> (keeper_timely k \<longrightarrow> keeper_timely k')"

lemma frees_refl [simp]: "keeper_wf k \<Longrightarrow> frees Q k k"
  by (simp add: frees_def)

lemma frees_trans: "frees Q k k' \<Longrightarrow> frees Q k' k'' \<Longrightarrow> frees Q k k''"
  unfolding frees_def using removed_if_trans by metis

lemma frees_mono:
  "frees Q k k' \<Longrightarrow> (\<And>key h. lookup (kp_keys k) key = Some h \<Longrightarrow> Q key h \<Longrightarrow> Q' key h) \<Longrightarrow> frees Q' k k'"
  unfolding frees_def using removed_if_mono by blast

lemma reclaim_frees:
  assumes "keeper_wf k" "lookup (kp_tenants k) t = Some owner" "reclaim owner k = (k', owner')"
  shows "frees (\<lambda>key h. k_tenant key = t \<and> past_window k key h) k k'"
  using reclaim_reclaims [OF assms] reclaims_wf [OF assms(1)] reclaims_timely [OF assms(1)]
  unfolding frees_def reclaims_to_def by blast

lemma sweep_fold:
  assumes "keeper_wf k" "distinct (map fst ts)"
    and "\<And>t owner. (t, owner) \<in> set ts \<Longrightarrow> lookup (kp_tenants k) t = Some owner"
  shows "frees (\<lambda>key h. k_tenant key \<in> fst ` set ts \<and> past_window k key h) k
           (fold (\<lambda>(t, owner) k. fst (reclaim owner k)) ts k)"
  using assms
proof (induction ts arbitrary: k)
  case (Cons e ts)
  let ?sweep = "fold (\<lambda>(t, owner) k. fst (reclaim owner k)) ts"
  let ?Q = "\<lambda>key h. k_tenant key \<in> fst ` set (e # ts) \<and> past_window k key h"
  obtain t owner where e: "e = (t, owner)" by force
  obtain k1 owner1 where r: "reclaim owner k = (k1, owner1)" by force
  have l: "lookup (kp_tenants k) t = Some owner" using Cons.prems(3) e by simp
  have t: "t \<notin> fst ` set ts" using Cons.prems(2) e by simp
  note re = reclaim_reclaims(1) [OF Cons.prems(1) l r]
  have one: "frees ?Q k k1"
    using reclaim_frees [OF Cons.prems(1) l r] by (rule frees_mono) (simp add: e)
  have rest: "lookup (kp_tenants k1) t' = Some owner'" if "(t', owner') \<in> set ts" for t' owner'
  proof -
    have "t' \<noteq> t" using that t by force
    with re Cons.prems(3) that show ?thesis by (simp add: reclaims_to_def)
  qed
  have "frees (\<lambda>key h. k_tenant key \<in> fst ` set ts \<and> past_window k1 key h) k1 (?sweep k1)"
    using Cons.prems(2) rest one by (intro Cons.IH) (simp_all add: frees_def)
  then have "frees ?Q k1 (?sweep k1)"
  proof (rule frees_mono)
    fix key h assume "k_tenant key \<in> fst ` set ts \<and> past_window k1 key h"
    moreover from this have "k_tenant key \<noteq> t" using t by metis
    ultimately show "?Q key h" using re by (simp add: past_window_def reclaims_to_def)
  qed
  with one e r show ?case using frees_trans by simp
qed simp

lemma sweep_frees:
  assumes "keeper_wf k" shows "frees (past_window k) k (sweep k)"
proof (cases "time_sub (kp_newest k) (kp_swept k) < sweepEvery")
  case False
  let ?k = "k\<lparr>kp_swept := kp_newest k\<rparr>"
  have wf: "keeper_wf ?k" using assms by (simp add: keeper_wf_def)
  have "valid_map (kp_tenants k)" using assms by (simp add: keeper_wf_def)
  then have "frees (\<lambda>key h. k_tenant key \<in> fst ` set (kp_tenants k) \<and> past_window ?k key h) ?k
               (fold (\<lambda>(t, owner) k. fst (reclaim owner k)) (kp_tenants k) ?k)"
    by (intro sweep_fold [OF wf]) (simp_all add: valid_map_def)
  with False show ?thesis
    by (simp add: sweep_def frees_def keeper_timely_def past_window_def removed_if_def) blast
qed (simp add: sweep_def assms)

lemma advance_fields [simp]:
  "kp_keys (keeper_advance t seen k) = kp_keys k"
  "kp_bounds (keeper_advance t seen k) = kp_bounds k"
  "kp_swept (keeper_advance t seen k) = kp_swept k"
  "kp_newest (keeper_advance t seen k) = max (o_at seen) (kp_newest k)"
  by (simp_all add: keeper_advance_def Let_def max_def split: option.splits)

text \<open>Advancing moves a partition's watermark and nothing a tenant holds or files.\<close>

lemma advance_lookup:
  assumes "lookup (kp_tenants (keeper_advance t seen k)) t' = Some owner'"
  obtains owner where "lookup (kp_tenants k) t' = Some owner" "t' \<noteq> t \<Longrightarrow> owner' = owner"
    "tk_tenant owner' = tk_tenant owner" "tk_held owner' = tk_held owner" "tk_rules owner' = tk_rules owner"
    "map (\<lambda>(p, pk). (p, pk_expiring pk)) (tk_partitions owner') =
     map (\<lambda>(p, pk). (p, pk_expiring pk)) (tk_partitions owner)"
proof -
  have upd: "map (\<lambda>(p, pk). (p, pk_expiring pk)) (AList.update p pk' ps) = map (\<lambda>(p, pk). (p, pk_expiring pk)) ps"
    if "lookup ps p = Some pk" "pk_expiring pk' = pk_expiring pk" for p pk pk' and ps :: "(int, partition_keys) go_map"
    using that by (induction ps) (auto split: if_splits)
  have del: "pk_expiring (partition_delivered a b pk) = pk_expiring pk" for a b pk
    by (simp add: partition_delivered_def)
  show ?thesis
    using assms that upd del by (auto simp: keeper_advance_def Let_def split: option.splits if_splits)
qed

lemma same_queues:
  assumes "map (\<lambda>(p, pk). (p, pk_expiring pk)) ps' = map (\<lambda>(p, pk). (p, pk_expiring pk)) ps"
  shows "valid_map ps' = valid_map ps" "filed ps' = filed ps"
    and "map_option pk_expiring (lookup ps' p) = map_option pk_expiring (lookup ps p)"
proof -
  have "map fst (map (\<lambda>(p, pk). (p, pk_expiring pk)) qs) = keys_of qs" for qs :: "(int, partition_keys) go_map"
    by (induction qs) auto
  then show "valid_map ps' = valid_map ps" using assms unfolding valid_map_def by metis
  have "filed qs = sum_list (map (\<lambda>(p, q). image_mset snd (mset q)) (map (\<lambda>(p, pk). (p, pk_expiring pk)) qs))" for qs
    by (induction qs) (auto simp: filed_def)
  then show "filed ps' = filed ps" using assms by metis
  have "lookup (map (\<lambda>(p, pk). (p, pk_expiring pk)) qs) p = map_option pk_expiring (lookup qs p)"
    for qs :: "(int, partition_keys) go_map" by (induction qs) auto
  then show "map_option pk_expiring (lookup ps' p) = map_option pk_expiring (lookup ps p)"
    using assms by metis
qed

lemma advance_owner:
  assumes "lookup (kp_tenants (keeper_advance t seen k)) t' = Some owner'"
  obtains owner where "lookup (kp_tenants k) t' = Some owner" "tk_held owner' = tk_held owner"
    "owner_ok t' ks owner \<Longrightarrow> owner_ok t' ks owner'" "filed_timely owner ks \<Longrightarrow> filed_timely owner' ks"
proof -
  from assms obtain owner where l: "lookup (kp_tenants k) t' = Some owner"
    and eq: "tk_tenant owner' = tk_tenant owner" "tk_held owner' = tk_held owner" "tk_rules owner' = tk_rules owner"
    and parts: "map (\<lambda>(p, pk). (p, pk_expiring pk)) (tk_partitions owner') =
     map (\<lambda>(p, pk). (p, pk_expiring pk)) (tk_partitions owner)"
    by (rule advance_lookup)
  note q = same_queues [OF parts]
  have sub: "\<exists>pk. lookup (tk_partitions owner) p = Some pk \<and> pk_expiring pk = pk_expiring pk'"
    if "lookup (tk_partitions owner') p = Some pk'" for p pk'
    using q(3) [of p] that by (cases "lookup (tk_partitions owner) p") auto
  have "owner_ok t' ks owner \<Longrightarrow> owner_ok t' ks owner'"
    unfolding owner_ok_def counts_ok_def eq q(1,2) using sub by metis
  moreover have "filed_timely owner ks \<Longrightarrow> filed_timely owner' ks"
    unfolding filed_timely_def using sub by metis
  ultimately show ?thesis using that l eq(2) by blast
qed

lemma advance_domain:
  "lookup (kp_tenants (keeper_advance t seen k)) t' = None \<longleftrightarrow> lookup (kp_tenants k) t' = None"
  by (auto simp: keeper_advance_def Let_def split: option.splits)

lemma advance_valid: "valid_map (kp_tenants k) \<Longrightarrow> valid_map (kp_tenants (keeper_advance t seen k))"
  by (auto simp: keeper_advance_def Let_def split: option.splits)

lemma advance_wf:
  assumes "keeper_wf k" shows "keeper_wf (keeper_advance t seen k)"
  unfolding keeper_wf_def
proof (intro conjI allI impI)
  fix t' owner' assume l: "lookup (kp_tenants (keeper_advance t seen k)) t' = Some owner'"
  show "owner_ok t' (kp_keys (keeper_advance t seen k)) owner'" "0 < tk_held owner'"
    by (rule advance_owner [OF l, of "kp_keys k"], use assms in \<open>simp add: keeper_wf_def\<close>)+
next
  show "valid_map (kp_tenants (keeper_advance t seen k))"
    using assms by (intro advance_valid) (simp add: keeper_wf_def)
next
  fix key h assume "lookup (kp_keys (keeper_advance t seen k)) key = Some h"
  then show "lookup (kp_tenants (keeper_advance t seen k)) (k_tenant key) \<noteq> None"
    using assms by (simp add: advance_domain keeper_wf_def)
qed (use assms in \<open>auto simp: keeper_wf_def\<close>)

lemma advance_timely:
  assumes "keeper_timely k" shows "keeper_timely (keeper_advance t seen k)"
  unfolding keeper_timely_def
proof (intro allI impI)
  fix t' owner' assume l: "lookup (kp_tenants (keeper_advance t seen k)) t' = Some owner'"
  show "filed_timely owner' (kp_keys (keeper_advance t seen k))"
    by (rule advance_owner [OF l, of "kp_keys k"]) (use assms in \<open>simp add: keeper_timely_def\<close>)
qed

text \<open>Opening a key files it once, under its own tenant.\<close>

lemma keys_for_fresh: "keeper_wf k \<Longrightarrow> lookup (kp_tenants k) t = None \<Longrightarrow> keys_for t (kp_keys k) = {}"
  using wf_tenant [of k] by (fastforce simp: keys_for_lookup)

lemma owner_ok_new: "keys_for t ks = {} \<Longrightarrow> owner_ok t ks (newTenantKeys t)"
proof -
  assume none: "keys_for t ks = {}"
  then have "count_keys (\<lambda>k. k_tenant k = t \<and> P k) ks = 0" for P
    by (auto simp: count_keys_def filter_empty_conv keys_for_def)
  from this [of "\<lambda>_. True"] this have "count_keys (\<lambda>k. k_tenant k = t) ks = 0"
    "\<And>r. count_keys (\<lambda>k. k_tenant k = t \<and> k_rule k = r) ks = 0" by auto
  with none show ?thesis by (simp add: owner_ok_def counts_ok_def newTenantKeys_def)
qed

definition opening_owner :: "keeper \<Rightarrow> string \<Rightarrow> tenant_keys" where
  "opening_owner k t = (case lookup (kp_tenants k) t of None \<Rightarrow> newTenantKeys t | Some owner \<Rightarrow> owner)"

lemma opening_owner_ok:
  "keeper_wf k \<Longrightarrow> owner_ok t (kp_keys k) (opening_owner k t) \<and> 0 \<le> tk_held (opening_owner k t)"
  using owner_ok_new [OF keys_for_fresh, of k t] wf_owner [of k t]
  by (auto simp: opening_owner_def newTenantKeys_def less_imp_le split: option.splits)

definition filing :: "held \<Rightarrow> observation \<Rightarrow> keeper \<Rightarrow> tenant_keys" where
  "filing entry seen k =
     (let owner = opening_owner k (k_tenant (h_key entry));
          pk = (case lookup (tk_partitions owner) (o_partition seen) of
                  None \<Rightarrow> \<lparr>pk_watermark = o_at seen, pk_heard = kp_newest k, pk_expiring = []\<rparr>
                | Some pk \<Rightarrow> pk)
      in (tenant_opened (k_rule (h_key entry)) owner)\<lparr>tk_partitions :=
           AList.update (o_partition seen)
             (pk\<lparr>pk_expiring := heap_push fst (held_expires entry, h_key entry) (pk_expiring pk)\<rparr>)
             (tk_partitions owner)\<rparr>)"

lemma open_eq:
  assumes "keeper_wf k"
  shows "keeper_open entry seen k =
    k\<lparr>kp_keys := AList.update (h_key entry) entry (kp_keys k),
      kp_tenants := AList.update (k_tenant (h_key entry)) (filing entry seen k) (kp_tenants k)\<rparr>"
proof -
  have "tk_tenant (opening_owner k (k_tenant (h_key entry))) = k_tenant (h_key entry)"
    using opening_owner_ok [OF assms] by (simp add: owner_ok_def counts_ok_def)
  then have same: "entry\<lparr>h_key := (h_key entry)\<lparr>k_tenant := tk_tenant (opening_owner k (k_tenant (h_key entry)))\<rparr>\<rparr> = entry"
    by simp
  show ?thesis
    unfolding keeper_open_def filing_def Let_def opening_owner_def [symmetric] same
    by (simp add: tenant_opened_def)
qed

lemma filing_ok:
  assumes wf: "keeper_wf k" and new: "lookup (kp_keys k) (h_key entry) = None"
  defines "ks \<equiv> AList.update (h_key entry) entry (kp_keys k)" and "t \<equiv> k_tenant (h_key entry)"
  shows "owner_ok t ks (filing entry seen k) \<and> 0 < tk_held (filing entry seen k) \<and>
         (filed_timely (opening_owner k t) (kp_keys k) \<longrightarrow> filed_timely (filing entry seen k) ks)"
proof -
  let ?o = "opening_owner k t" and ?o' = "filing entry seen k"
  define pk where "pk = (case lookup (tk_partitions ?o) (o_partition seen) of
      None \<Rightarrow> \<lparr>pk_watermark = o_at seen, pk_heard = kp_newest k, pk_expiring = []\<rparr> | Some pk \<Rightarrow> pk)"
  let ?q = "heap_push fst (held_expires entry, h_key entry) (pk_expiring pk)"
  have o': "?o' = (tenant_opened (k_rule (h_key entry)) ?o)\<lparr>tk_partitions :=
      AList.update (o_partition seen) (pk\<lparr>pk_expiring := ?q\<rparr>) (tk_partitions ?o)\<rparr>"
    by (simp add: filing_def Let_def pk_def t_def)
  have ook: "owner_ok t (kp_keys k) ?o" and nonneg: "0 \<le> tk_held ?o" using opening_owner_ok [OF wf] by auto
  have vm: "valid_map (tk_partitions ?o)" using ook by (simp add: owner_ok_def)
  have old: "filed (tk_partitions ?o) =
      image_mset snd (mset (pk_expiring pk)) + filed (AList.delete (o_partition seen) (tk_partitions ?o))"
    using filed_split [OF vm] by (auto simp: pk_def delete_absent split: option.splits)
  have hp: "heap_ok fst (pk_expiring pk)"
    using ook heap_laws(1) by (auto simp: pk_def owner_ok_def split: option.splits)
  have fresh: "h_key entry \<notin> keys_for t (kp_keys k)" using new by (simp add: keys_for_lookup)
  have "filed (tk_partitions ?o') = add_mset (h_key entry) (filed (tk_partitions ?o))"
    unfolding old by (simp add: o' filed_update [OF vm] heap.mset_push)
  also have "\<dots> = mset_set (keys_for t ks)"
    using ook fresh by (simp add: owner_ok_def ks_def keys_for_update t_def)
  finally have fl: "filed (tk_partitions ?o') = mset_set (keys_for t ks)" .
  have "counts_ok t ks (tenant_opened (k_rule (h_key entry)) ?o)"
    unfolding ks_def using ook new by (intro counts_ok_opened) (simp_all add: owner_ok_def t_def)
  then have "counts_ok t ks ?o'" by (simp add: o' counts_ok_def)
  moreover have "heap_ok fst (pk_expiring pk')" if "lookup (tk_partitions ?o') p = Some pk'" for p pk'
    using that ook heap_laws(2) [OF hp] by (auto simp: o' owner_ok_def split: if_splits)
  moreover have "filed_timely ?o' ks" if ft: "filed_timely ?o (kp_keys k)"
    unfolding filed_timely_def
  proof (intro allI impI)
    fix p pk' assume l: "lookup (tk_partitions ?o') p = Some pk'"
    have keep: "filed_no_later (pk_expiring pk2) ks" if "lookup (tk_partitions ?o) p2 = Some pk2" for p2 pk2
      unfolding filed_no_later_def
    proof
      fix x assume x: "x \<in> set (pk_expiring pk2)"
      then have "snd x \<noteq> h_key entry" using filed_tenant [OF ook that, of "snd x"] fresh by auto
      moreover have "fst x \<le> expires_in (kp_keys k) (snd x)"
        using ft that x unfolding filed_timely_def filed_no_later_def by blast
      ultimately show "fst x \<le> expires_in ks (snd x)" by (simp add: ks_def expires_in_def)
    qed
    have "filed_no_later (pk_expiring pk) ks"
      using keep by (auto simp: pk_def filed_no_later_def split: option.splits)
    then have "filed_no_later ?q ks" by (simp add: filed_no_later_def ks_def expires_in_def)
    with l keep show "filed_no_later (pk_expiring pk') ks" by (auto simp: o' split: if_splits)
  qed
  moreover have "valid_map (tk_partitions ?o')" "0 < tk_held ?o'"
    using vm nonneg by (simp_all add: o' tenant_opened_def)
  ultimately show ?thesis using fl by (auto simp: owner_ok_def)
qed

lemma open_wf:
  assumes wf: "keeper_wf k" and new: "lookup (kp_keys k) (h_key entry) = None"
    and ok: "held_ok entry" "int (length (h_seen entry)) \<le> bd_observations_per_key (kp_bounds k)"
  shows "keeper_wf (keeper_open entry seen k)" and "keeper_timely k \<Longrightarrow> keeper_timely (keeper_open entry seen k)"
proof -
  let ?ks = "AList.update (h_key entry) entry (kp_keys k)" and ?t = "k_tenant (h_key entry)"
  note fo = filing_ok [OF wf new, of seen]
  have vks: "valid_map ?ks" using wf_valid(1) [OF wf] by simp
  have other: "owner_ok t' ?ks owner" if "t' \<noteq> ?t" "lookup (kp_tenants k) t' = Some owner" for t' owner
    using that(1)
    by (intro owner_ok_cong [OF wf_owner(1) [OF wf that(2)] wf_valid(1) [OF wf] vks]) (simp add: keys_for_update)
  have "keeper_wf (k\<lparr>kp_keys := ?ks, kp_tenants := AList.update ?t (filing entry seen k) (kp_tenants k)\<rparr>)"
  proof (rule keeper_wfI, goal_cases)
    case (3 key h)
    then show ?case using wf_held [OF wf, of key h] ok by (simp split: if_splits)
  next
    case (4 t owner)
    then show ?case using fo other [of t owner] wf_owner(2) [OF wf, of t owner] by (simp split: if_splits)
  next
    case (5 key h)
    then show ?case using wf_tenant [OF wf, of key h] by (simp split: if_splits)
  qed (simp_all add: vks wf_valid [OF wf])
  then show "keeper_wf (keeper_open entry seen k)" by (simp add: open_eq [OF wf])
  show "keeper_timely (keeper_open entry seen k)" if tm: "keeper_timely k"
    unfolding keeper_timely_def
  proof (intro allI impI)
    fix t' owner' assume l: "lookup (kp_tenants (keeper_open entry seen k)) t' = Some owner'"
    have "filed_timely (newTenantKeys ?t) (kp_keys k)" by (simp add: filed_timely_def newTenantKeys_def)
    then have "filed_timely (opening_owner k ?t) (kp_keys k)"
      using tm unfolding opening_owner_def keeper_timely_def by (simp split: option.split)
    then have mine: "filed_timely (filing entry seen k) ?ks" using fo by blast
    have "filed_timely owner' ?ks" if t': "t' \<noteq> ?t" "lookup (kp_tenants k) t' = Some owner'"
    proof (rule filed_timely_cong [OF wf_owner(1) [OF wf t'(2)]])
      show "filed_timely owner' (kp_keys k)" using tm t'(2) by (simp add: keeper_timely_def)
    qed (use t'(1) in auto)
    with mine l show "filed_timely owner' (kp_keys (keeper_open entry seen k))"
      by (simp add: open_eq [OF wf] split: if_splits)
  qed
qed

text \<open>An observation folded into a key already held moves no count and no queue.\<close>

definition keep_key :: "state_key \<Rightarrow> held \<Rightarrow> keeper \<Rightarrow> keeper" where
  "keep_key key entry k = k\<lparr>kp_keys := AList.update key entry (kp_keys k)\<rparr>"

lemma keep_key_wf:
  assumes wf: "keeper_wf k" and old: "lookup (kp_keys k) key = Some h" and same: "h_key entry = key"
    and ok: "held_ok entry" "int (length (h_seen entry)) \<le> bd_observations_per_key (kp_bounds k)"
  shows "keeper_wf (keep_key key entry k)"
    and "keeper_timely k \<Longrightarrow> held_expires h \<le> held_expires entry \<Longrightarrow> keeper_timely (keep_key key entry k)"
proof -
  let ?ks = "AList.update key entry (kp_keys k)"
  have vks: "valid_map ?ks" using wf_valid(1) [OF wf] by simp
  have "keys_for t ?ks = keys_for t (kp_keys k)" for t
    using old by (auto simp: keys_for_lookup split: if_splits)
  then have own: "owner_ok t ?ks owner" if "lookup (kp_tenants k) t = Some owner" for t owner
    using owner_ok_cong [OF wf_owner(1) [OF wf that] wf_valid(1) [OF wf] vks] by simp
  then show "keeper_wf (keep_key key entry k)"
    unfolding keep_key_def
  proof (intro keeper_wfI, goal_cases)
    case (3 key' h')
    then show ?case using wf_held [OF wf, of key' h'] ok same by (simp split: if_splits)
  next
    case (4 t owner)
    then show ?case using own [of t owner] wf_owner(2) [OF wf, of t owner] by simp
  next
    case (5 key' h')
    then show ?case using wf_tenant [OF wf, of key'] old by (simp split: if_splits)
  qed (simp_all add: vks wf_valid [OF wf])
  show "keeper_timely (keep_key key entry k)" if "keeper_timely k" "held_expires h \<le> held_expires entry"
  proof -
    have "expires_in (kp_keys k) key' \<le> expires_in ?ks key'" for key'
      using old that(2) by (simp add: expires_in_def)
    then show ?thesis
      using that(1) unfolding keeper_timely_def filed_timely_def filed_no_later_def keep_key_def
      by (simp, meson order_trans)
  qed
qed

end
