(* ===== verification/State_Quota.thy ===== *)
theory State_Quota
  imports State_Fairness
begin

text \<open>
  The quotas of the store of detection state and the properties a caller of it relies
  on: \<open>keeper_ok\<close> adds to the invariant that no store, tenant or rule holds more keys than
  its bound, \<open>keeper_fold\<close> keeps it whatever it is called with, and a call frees a key only
  when the stream has moved past its window.
\<close>

section \<open>Quotas\<close>

definition within_quota :: "keeper \<Rightarrow> bool" where
  "within_quota k \<longleftrightarrow>
     int (length (kp_keys k)) \<le> bd_keys (kp_bounds k) \<and>
     (\<forall>t. int (count_keys (\<lambda>key. k_tenant key = t) (kp_keys k)) \<le> bd_keys_per_tenant (kp_bounds k)) \<and>
     (\<forall>t r. int (count_keys (\<lambda>key. k_tenant key = t \<and> k_rule key = r) (kp_keys k)) \<le> bd_keys_per_rule (kp_bounds k))"

definition keeper_ok :: "keeper \<Rightarrow> bool" where
  "keeper_ok k \<longleftrightarrow> keeper_wf k \<and> within_quota k \<and> bounds_validate (kp_bounds k) = None"

lemma count_keys_card: "valid_map m \<Longrightarrow> count_keys P m = card {k \<in> set (keys_of m). P k}"
  unfolding count_keys_def valid_map_def by (metis distinct_card distinct_filter set_filter)

lemma count_keys_removed:
  assumes "valid_map ks" "valid_map ks'" "removed_if Q ks ks'"
  shows "count_keys P ks' \<le> count_keys P ks"
proof -
  have "{k \<in> set (keys_of ks'). P k} \<subseteq> {k \<in> set (keys_of ks). P k}"
    using removed_if_kept [OF assms(3)] unfolding key_in_iff by blast
  then show ?thesis unfolding count_keys_card [OF assms(1)] count_keys_card [OF assms(2)]
    by (rule card_mono [rotated]) simp
qed

lemma frees_counts:
  assumes "keeper_wf k" "frees Q k k'"
  shows "count_keys P (kp_keys k') \<le> count_keys P (kp_keys k)"
  using assms unfolding frees_def by (intro count_keys_removed [where Q = Q]) (simp_all add: wf_valid)

lemma frees_quota:
  assumes "keeper_wf k" "frees Q k k'" "within_quota k" shows "within_quota k'"
proof -
  have fewer: "int (count_keys P (kp_keys k')) \<le> int (count_keys P (kp_keys k))" for P
    using frees_counts [OF assms(1,2)] by simp
  have b: "kp_bounds k' = kp_bounds k" using assms(2) by (simp add: frees_def)
  have "int (length (kp_keys k')) \<le> int (length (kp_keys k))" using fewer [of "\<lambda>_. True"] by simp
  then show ?thesis
    using assms(3) order_trans [OF fewer] unfolding within_quota_def b by auto
qed

section \<open>Admission\<close>

lemma tenant_room:
  assumes "tenant_refuses r b owner = None" "owner_ok t ks owner"
  shows "int (count_keys (\<lambda>key. k_tenant key = t) ks) < bd_keys_per_tenant b"
    and "int (count_keys (\<lambda>key. k_tenant key = t \<and> k_rule key = r) ks) < bd_keys_per_rule b"
  using assms counts_ok_rule [of t ks owner r]
  by (auto simp: tenant_refuses_def owner_ok_def counts_ok_def split: if_splits)

lemma admit_store_frees:
  assumes "keeper_wf k" "admit_store k = (k', e)"
  shows "frees (past_window k) k k'" and "e = None \<Longrightarrow> int (length (kp_keys k')) < bd_keys (kp_bounds k)"
  using assms sweep_frees [OF assms(1)]
  by (auto simp: admit_store_def Let_def at_ceiling_def frees_def split: if_splits)

definition room_for :: "state_key \<Rightarrow> keeper \<Rightarrow> bool" where
  "room_for key k \<longleftrightarrow>
     int (length (kp_keys k)) < bd_keys (kp_bounds k) \<and>
     int (count_keys (\<lambda>key'. k_tenant key' = k_tenant key) (kp_keys k)) < bd_keys_per_tenant (kp_bounds k) \<and>
     int (count_keys (\<lambda>key'. k_tenant key' = k_tenant key \<and> k_rule key' = k_rule key) (kp_keys k))
       < bd_keys_per_rule (kp_bounds k)"

text \<open>The two halves of admission, the tenant's own pressure first.\<close>

definition own_pressure :: "state_key \<Rightarrow> keeper \<Rightarrow> tenant_keys \<Rightarrow> keeper \<times> tenant_keys" where
  "own_pressure key k owner =
     (if tenant_refuses (k_rule key) (kp_bounds k) owner \<noteq> None \<or> at_ceiling k
      then reclaim owner k else (k, owner))"

lemma own_pressure_ok:
  assumes wf: "keeper_wf k" and own: "lookup (kp_tenants k) (k_tenant key) = Some owner"
    and r: "own_pressure key k owner = (k1, owner1)"
  shows "frees (\<lambda>key' h. k_tenant key' = k_tenant key \<and> past_window k key' h) k k1"
    and "owner_ok (k_tenant key) (kp_keys k1) owner1"
    and "past_window k1 key' h \<Longrightarrow> past_window k key' h"
    and "t' \<noteq> k_tenant key \<Longrightarrow> lookup (kp_tenants k1) t' = lookup (kp_tenants k) t'"
proof -
  have cases: "k1 = k \<and> owner1 = owner \<or> reclaim owner k = (k1, owner1)"
    using r unfolding own_pressure_def by (metis prod.inject)
  have no: "frees (\<lambda>key' h. k_tenant key' = k_tenant key \<and> past_window k key' h) k k"
    "owner_ok (k_tenant key) (kp_keys k) owner"
    using wf by (rule frees_refl) (rule wf_owner(1) [OF wf own])
  have yes: "reclaims_to (k_tenant key) k k1 owner1" if "reclaim owner k = (k1, owner1)"
    by (rule reclaim_reclaims(1) [OF wf own that])
  show "frees (\<lambda>key' h. k_tenant key' = k_tenant key \<and> past_window k key' h) k k1"
    using cases no(1) reclaim_frees [OF wf own] by blast
  show "owner_ok (k_tenant key) (kp_keys k1) owner1"
    using cases no(2) yes unfolding reclaims_to_def by blast
  show "past_window k1 key' h \<Longrightarrow> past_window k key' h"
    using cases yes unfolding reclaims_to_def by blast
  show "t' \<noteq> k_tenant key \<Longrightarrow> lookup (kp_tenants k1) t' = lookup (kp_tenants k) t'"
    using cases yes unfolding reclaims_to_def by presburger
qed

lemma admit_eq:
  "keeper_admit key k =
     (case lookup (kp_tenants k) (k_tenant key) of
        None \<Rightarrow> admit_store k
      | Some owner \<Rightarrow>
          (case own_pressure key k owner of (k1, owner1) \<Rightarrow>
             case tenant_refuses (k_rule key) (kp_bounds k) owner1 of
               Some e \<Rightarrow> (k1, Some e) | None \<Rightarrow> admit_store k1))"
  unfolding keeper_admit_def own_pressure_def Let_def ..

lemma admit_frees:
  assumes wf: "keeper_wf k" and "keeper_admit key k = (k', e)"
  shows "frees (past_window k) k k'"
proof (cases "lookup (kp_tenants k) (k_tenant key)")
  case None
  then show ?thesis using assms admit_store_frees(1) by (simp add: admit_eq)
next
  case (Some owner)
  obtain k1 owner1 where r: "own_pressure key k owner = (k1, owner1)" by force
  note own = own_pressure_ok [OF wf Some r]
  have one: "frees (past_window k) k k1" using own(1) by (rule frees_mono) simp
  have wf1: "keeper_wf k1" using one by (simp add: frees_def)
  show ?thesis
  proof (cases "tenant_refuses (k_rule key) (kp_bounds k) owner1")
    case None
    then have "admit_store k1 = (k', e)" using assms(2) Some r by (simp add: admit_eq)
    then have "frees (past_window k1) k1 k'" by (rule admit_store_frees(1) [OF wf1])
    then have "frees (past_window k) k1 k'" by (rule frees_mono) (rule own(3))
    with one show ?thesis by (rule frees_trans)
  next
    case (Some e')
    then show ?thesis using assms(2) \<open>lookup _ _ = Some owner\<close> r one by (simp add: admit_eq)
  qed
qed

lemma admit_room:
  assumes wf: "keeper_wf k" and b: "bounds_validate (kp_bounds k) = None"
    and "keeper_admit key k = (k', None)"
  shows "room_for key k'"
proof (cases "lookup (kp_tenants k) (k_tenant key)")
  case None
  then have st: "admit_store k = (k', None)" using assms(3) by (simp add: admit_eq)
  note fr = admit_store_frees [OF wf st]
  have "keys_for (k_tenant key) (kp_keys k) = {}" by (rule keys_for_fresh [OF wf None])
  then have "count_keys (\<lambda>key'. k_tenant key' = k_tenant key \<and> P key') (kp_keys k) = 0" for P
    by (auto simp: count_keys_def filter_empty_conv keys_for_def)
  then have none: "count_keys (\<lambda>key'. k_tenant key' = k_tenant key \<and> P key') (kp_keys k') = 0" for P
    using frees_counts [OF wf fr(1), of "\<lambda>key'. k_tenant key' = k_tenant key \<and> P key'"] by simp
  have "count_keys (\<lambda>key'. k_tenant key' = k_tenant key) (kp_keys k') = 0" using none [of "\<lambda>_. True"] by simp
  then show ?thesis
    using b fr none [of "\<lambda>key'. k_rule key' = k_rule key"] by (simp add: room_for_def bounds_valid_iff frees_def)
next
  case (Some owner)
  obtain k1 owner1 where r: "own_pressure key k owner = (k1, owner1)" by force
  note own = own_pressure_ok [OF wf Some r]
  have wf1: "keeper_wf k1" and b1: "kp_bounds k1 = kp_bounds k" using own(1) by (auto simp: frees_def)
  have room: "tenant_refuses (k_rule key) (kp_bounds k) owner1 = None" and st: "admit_store k1 = (k', None)"
    using assms(3) Some r by (auto simp: admit_eq split: option.splits)
  note fr = admit_store_frees [OF wf1 st]
  note less = tenant_room [OF room own(2)]
  have "int (count_keys P (kp_keys k')) \<le> int (count_keys P (kp_keys k1))" for P
    using frees_counts [OF wf1 fr(1), of P] by simp
  note fewer = order.strict_trans1 [OF this less(1)] order.strict_trans1 [OF this less(2)]
  show ?thesis using fr b1 fewer by (simp add: room_for_def frees_def)
qed

section \<open>One call\<close>

lemma keeper_fold_cases:
  assumes "keeper_fold ctx key seen window reads k = (k', st, xs, err)"
  obtains (refused) "k' = k" "err \<noteq> None" "xs = []"
      "err \<notin> Some ` {ErrTenantAtCapacity, ErrRuleAtCapacity, ErrAtCapacity, ErrTooLate}"
  | (held) entry entry' where
      "lookup (kp_keys k) key = Some entry" "observation_validate seen = None"
      "held_observe seen (bd_observations_per_key (kp_bounds k)) (entry\<lparr>h_window := window\<rparr>) = (entry', st, err)"
      "k' = keep_key key entry' (keeper_advance (k_tenant key) seen k)" "0 < window" "window \<le> bd_window (kp_bounds k)"
  | (turned_away) e where
      "lookup (kp_keys k) key = None" "keeper_admit key (keeper_advance (k_tenant key) seen k) = (k', Some e)"
      "err = Some e" "xs = []"
  | (opened) k2 entry' where
      "lookup (kp_keys k) key = None" "keeper_admit key (keeper_advance (k_tenant key) seen k) = (k2, None)"
      "observation_validate seen = None"
      "held_observe seen (bd_observations_per_key (kp_bounds k)) (new_held key window) = (entry', st, err)"
      "k' = keeper_open entry' seen k2" "0 < window" "window \<le> bd_window (kp_bounds k)"
proof (cases "ctx \<noteq> None \<or> observation_validate seen \<noteq> None \<or> window \<le> 0 \<or> window > bd_window (kp_bounds k)")
  case True
  have v: "observation_validate seen \<notin> Some ` {ErrTenantAtCapacity, ErrRuleAtCapacity, ErrAtCapacity, ErrTooLate}"
    by (simp add: observation_validate_def)
  have "k' = k \<and> err \<noteq> None \<and> xs = []"
    using assms True by (cases ctx; cases "observation_validate seen") (simp_all add: keeper_fold_def split: if_splits, (metis option.exhaust)+)
  moreover have "err \<notin> Some ` {ErrTenantAtCapacity, ErrRuleAtCapacity, ErrAtCapacity, ErrTooLate}"
    using assms True v by (cases ctx; cases "observation_validate seen") (auto simp: keeper_fold_def split: if_splits)
  ultimately show ?thesis by (intro refused) simp_all
next
  case False
  let ?k1 = "keeper_advance (k_tenant key) seen k" and ?c = "bd_observations_per_key (kp_bounds k)"
  show ?thesis
  proof (cases "lookup (kp_keys k) key")
    case (Some entry)
    obtain entry' st' err' where o': "held_observe seen ?c (entry\<lparr>h_window := window\<rparr>) = (entry', st', err')"
      by (metis prod_cases3)
    with Some False assms have "k' = keep_key key entry' ?k1" "st = st'" "err = err'"
      by (auto simp: keeper_fold_def Let_def keep_key_def)
    with Some False o' show ?thesis by (intro held) auto
  next
    case None
    obtain k2 e where ad: "keeper_admit key ?k1 = (k2, e)" by force
    show ?thesis
    proof (cases e)
      case None
      obtain entry' st' err' where o': "held_observe seen ?c (new_held key window) = (entry', st', err')"
        by (metis prod_cases3)
      with \<open>lookup _ key = None\<close> None ad False assms have "k' = keeper_open entry' seen k2" "st = st'" "err = err'"
        by (auto simp: keeper_fold_def Let_def)
      with \<open>lookup _ key = None\<close> None ad False o' show ?thesis by (intro opened) auto
    next
      case (Some e')
      with None ad False assms show ?thesis by (intro turned_away) (auto simp: keeper_fold_def Let_def)
    qed
  qed
qed

lemma observe_error: "held_observe seen c h = (h', st, err) \<Longrightarrow> err = None \<or> err = Some ErrTooLate"
  by (cases rule: held_observe_cases [of seen h c]) auto

lemma keep_key_quota: "lookup (kp_keys k) key = Some h \<Longrightarrow> within_quota k \<Longrightarrow> within_quota (keep_key key entry k)"
  by (simp add: within_quota_def keep_key_def count_keys_replace length_update_present)

lemma open_quota:
  assumes wf: "keeper_wf k" and "within_quota k" "room_for (h_key entry) k" "lookup (kp_keys k) (h_key entry) = None"
  shows "within_quota (keeper_open entry seen k)"
proof -
  have "length (AList.update (h_key entry) entry (kp_keys k)) = length (kp_keys k) + 1"
    using count_keys_insert [OF assms(4), of "\<lambda>_. True" entry] by simp
  with assms show ?thesis
    by (auto simp: open_eq [OF wf] within_quota_def room_for_def count_keys_insert [OF assms(4)])
qed

lemma advance_quota: "within_quota k \<Longrightarrow> within_quota (keeper_advance t seen k)"
  by (simp add: within_quota_def)

lemma advance_ok: "keeper_ok k \<Longrightarrow> keeper_ok (keeper_advance t seen k)"
  by (simp add: keeper_ok_def advance_wf advance_quota)

lemma keeper_fold_ok:
  assumes ok: "keeper_ok k" and "keeper_fold ctx key seen window reads k = (k', st, xs, err)"
  shows "keeper_ok k' \<and> kp_bounds k' = kp_bounds k"
  using assms(2)
proof (cases rule: keeper_fold_cases)
  case refused
  then show ?thesis using ok by simp
next
  case (held entry entry')
  let ?k1 = "keeper_advance (k_tenant key) seen k" and ?c = "bd_observations_per_key (kp_bounds k)"
  have k1: "keeper_ok ?k1" by (rule advance_ok [OF ok])
  have c: "0 \<le> ?c" using ok by (simp add: keeper_ok_def bounds_valid_iff)
  have en: "held_ok (entry\<lparr>h_window := window\<rparr>)" "h_key entry = key" "int (length (h_seen entry)) \<le> ?c"
    using ok wf_held [of k key entry] held(1) by (auto simp: keeper_ok_def)
  have "held_ok entry'" "h_key entry' = key" "int (length (h_seen entry')) \<le> ?c"
    using held_observe_ok [OF en(1) c, of seen] held(3) en(2,3) by auto
  then have "keeper_wf (keep_key key entry' ?k1)"
    using k1 held(1) by (intro keep_key_wf(1) [where h = entry]) (auto simp: keeper_ok_def)
  moreover have "within_quota (keep_key key entry' ?k1)"
    using k1 held(1) by (intro keep_key_quota [where h = entry]) (auto simp: keeper_ok_def)
  ultimately show ?thesis using ok held(4) by (simp add: keeper_ok_def keep_key_def)
next
  case (turned_away e)
  have k1: "keeper_ok (keeper_advance (k_tenant key) seen k)" by (rule advance_ok [OF ok])
  then have fr: "frees (past_window (keeper_advance (k_tenant key) seen k)) (keeper_advance (k_tenant key) seen k) k'"
    by (intro admit_frees [OF _ turned_away(2)]) (simp add: keeper_ok_def)
  with k1 show ?thesis
    using frees_quota [OF _ fr] by (simp add: keeper_ok_def frees_def)
next
  case (opened k2 entry')
  let ?k1 = "keeper_advance (k_tenant key) seen k" and ?c = "bd_observations_per_key (kp_bounds k)"
  have k1: "keeper_ok ?k1" by (rule advance_ok [OF ok])
  then have fr: "frees (past_window ?k1) ?k1 k2" and room: "room_for key k2"
    using admit_frees [OF _ opened(2)] admit_room [OF _ _ opened(2)] by (simp_all add: keeper_ok_def)
  have c: "0 < ?c" using ok by (simp add: keeper_ok_def bounds_valid_iff)
  have "held_ok entry'" "h_key entry' = key" "int (length (h_seen entry')) \<le> ?c"
    using held_observe_ok [OF held_ok_new [of key window] less_imp_le [OF c], of seen] opened(4) c
    by (auto simp: new_held_def)
  moreover have wf2: "keeper_wf k2" "within_quota k2" "kp_bounds k2 = kp_bounds k"
    using fr k1 frees_quota [OF _ fr] by (simp_all add: frees_def keeper_ok_def)
  moreover have "lookup (kp_keys k2) key = None"
    using fr opened(1) removed_if_kept [of _ "kp_keys ?k1" "kp_keys k2" key]
    by (cases "lookup (kp_keys k2) key") (auto simp: frees_def)
  ultimately have "keeper_wf k'" "within_quota k'"
    using open_wf(1) [of k2 entry' seen] open_quota [of k2 entry' seen] room opened(5) by simp_all
  then show ?thesis using ok wf2(3) opened(5) open_eq [OF wf2(1)] by (simp add: keeper_ok_def)
qed

section \<open>Any sequence of calls\<close>

record state_call =
  sc_ctx :: "string option"
  sc_key :: state_key
  sc_seen :: observation
  sc_window :: duration
  sc_read :: bool

definition keeper_call :: "state_call \<Rightarrow> keeper \<Rightarrow> keeper" where
  "keeper_call c k = fst (keeper_fold (sc_ctx c) (sc_key c) (sc_seen c) (sc_window c) (sc_read c) k)"

definition keeper_run :: "state_call list \<Rightarrow> keeper \<Rightarrow> keeper" where
  "keeper_run cs k = fold keeper_call cs k"

definition observations_held :: "keeper \<Rightarrow> int" where
  "observations_held k = sum_list (map (\<lambda>(key, h). int (length (h_seen h))) (kp_keys k))"

lemma keeper_call_ok: "keeper_ok k \<Longrightarrow> keeper_ok (keeper_call c k) \<and> kp_bounds (keeper_call c k) = kp_bounds k"
  using keeper_fold_ok [of k "sc_ctx c" "sc_key c" "sc_seen c" "sc_window c" "sc_read c"]
  unfolding keeper_call_def by (metis fst_conv surj_pair)

lemma keeper_run_ok: "keeper_ok k \<Longrightarrow> keeper_ok (keeper_run cs k) \<and> kp_bounds (keeper_run cs k) = kp_bounds k"
  unfolding keeper_run_def
proof (induction cs arbitrary: k)
  case (Cons c cs)
  then show ?case using keeper_call_ok [OF Cons.prems, of c] by simp
qed simp

lemma NewKeeper_ok: "NewKeeper b = Inr k \<Longrightarrow> keeper_ok k \<and> kp_bounds k = b"
  by (auto simp: NewKeeper_def keeper_ok_def keeper_wf_def within_quota_def bounds_valid_iff split: option.splits)

lemma fold_max_le:
  fixes f :: "'a \<Rightarrow> 'b \<Rightarrow> int"
  shows "z \<le> m \<Longrightarrow> (\<And>a b. (a, b) \<in> set xs \<Longrightarrow> f a b \<le> m) \<Longrightarrow> fold (\<lambda>(a, b) z. max z (f a b)) xs z \<le> m"
  by (induction xs arbitrary: z) auto

lemma FullestTenant_le:
  assumes "keeper_ok k" shows "FullestTenant k \<le> bd_keys_per_tenant (kp_bounds k)"
proof -
  have wf: "keeper_wf k" and b: "0 \<le> bd_keys_per_tenant (kp_bounds k)"
    using assms by (auto simp: keeper_ok_def bounds_valid_iff)
  have "tk_held owner \<le> bd_keys_per_tenant (kp_bounds k)" if "(t, owner) \<in> set (kp_tenants k)" for t owner
    using wf_owner(1) [OF wf, of t owner] that in_set_lookup [OF wf_valid(2) [OF wf]] assms
    by (simp add: owner_ok_def counts_ok_def keeper_ok_def within_quota_def)
  then show ?thesis
    unfolding FullestTenant_def by (intro fold_max_le [OF b])
qed

lemma FullestRule_le:
  assumes "keeper_ok k" shows "FullestRule k \<le> bd_keys_per_rule (kp_bounds k)"
proof -
  have wf: "keeper_wf k" and b: "0 \<le> bd_keys_per_rule (kp_bounds k)"
    using assms by (auto simp: keeper_ok_def bounds_valid_iff)
  have each: "n \<le> bd_keys_per_rule (kp_bounds k)"
    if "(t, owner) \<in> set (kp_tenants k)" "(r, n) \<in> set (tk_rules owner)" for t owner r n
  proof -
    have "counts_ok t (kp_keys k) owner"
      using wf_owner(1) [OF wf, of t owner] that(1) in_set_lookup [OF wf_valid(2) [OF wf]] by (simp add: owner_ok_def)
    moreover from this have "lookup (tk_rules owner) r = Some n"
      using that(2) in_set_lookup by (metis counts_ok_def)
    ultimately have "n = int (count_keys (\<lambda>key. k_tenant key = t \<and> k_rule key = r) (kp_keys k))"
      using counts_ok_rule [of t "kp_keys k" owner r] by (simp add: lookup_or_def)
    then show ?thesis using assms by (simp add: keeper_ok_def within_quota_def)
  qed
  have "fold (\<lambda>(t, owner) fullest. fold (\<lambda>(r, n) fullest. max fullest n) (tk_rules owner) fullest) ts z
          \<le> bd_keys_per_rule (kp_bounds k)"
    if "set ts \<subseteq> set (kp_tenants k)" "z \<le> bd_keys_per_rule (kp_bounds k)" for ts z
    using that
  proof (induction ts arbitrary: z)
    case (Cons e ts)
    obtain t owner where e: "e = (t, owner)" by force
    have "fold (\<lambda>(r, n) fullest. max fullest n) (tk_rules owner) z \<le> bd_keys_per_rule (kp_bounds k)"
      using each [of t owner] Cons.prems(1) e by (intro fold_max_le [OF Cons.prems(2)]) simp
    with Cons e show ?case by simp
  qed simp
  then show ?thesis using b unfolding FullestRule_def by simp
qed

lemma observations_held_le:
  assumes "keeper_ok k" shows "observations_held k \<le> bounds_observations (kp_bounds k)"
proof -
  let ?c = "bd_observations_per_key (kp_bounds k)"
  have wf: "keeper_wf k" using assms by (simp add: keeper_ok_def)
  have "int (length (h_seen h)) \<le> ?c" if "(key, h) \<in> set (kp_keys k)" for key h
    using wf_held [OF wf, of key h] that in_set_lookup [OF wf_valid(1) [OF wf]] by simp
  then have "sum_list (map (\<lambda>(key, h). int (length (h_seen h))) (kp_keys k)) \<le> sum_list (map (\<lambda>_. ?c) (kp_keys k))"
    by (intro sum_list_mono) auto
  also have "\<dots> = int (length (kp_keys k)) * ?c" by (simp add: sum_list_triv)
  also have "\<dots> \<le> bd_keys (kp_bounds k) * ?c"
    using assms by (intro mult_right_mono) (auto simp: keeper_ok_def within_quota_def bounds_valid_iff)
  finally show ?thesis by (simp add: observations_held_def bounds_observations_def)
qed

text \<open>
  C2. Whatever a new store is asked, in whatever order, it holds no more keys than it was
  bounded to, no tenant more than one may, no rule of a tenant more than one may, and no
  more observations than its bounds say it can; and what it counts for each tenant and
  rule agrees with the keys it holds.
\<close>

theorem quotas_hold:
  assumes "NewKeeper b = Inr k"
  shows "keeper_keys (keeper_run cs k) \<le> bd_keys b \<and>
         FullestTenant (keeper_run cs k) \<le> bd_keys_per_tenant b \<and>
         FullestRule (keeper_run cs k) \<le> bd_keys_per_rule b \<and>
         observations_held (keeper_run cs k) \<le> bounds_observations b \<and>
         keeper_ok (keeper_run cs k)"
proof -
  have "keeper_ok (keeper_run cs k)" and b: "kp_bounds (keeper_run cs k) = b"
    using keeper_run_ok NewKeeper_ok [OF assms] by auto
  then show ?thesis
    using FullestTenant_le FullestRule_le observations_held_le
    by (metis keeper_keys_def keeper_ok_def within_quota_def)
qed

definition sample_bounds :: bounds where
  "sample_bounds = \<lparr>bd_window = 100, bd_observations_per_key = 2, bd_keys = 2, bd_keys_per_tenant = 1, bd_keys_per_rule = 1\<rparr>"

definition sample_keeper :: keeper where
  "sample_keeper = \<lparr>kp_bounds = sample_bounds, kp_keys = [], kp_tenants = [], kp_newest = 0, kp_swept = 0\<rparr>"

lemma sample_keeper_new: "NewKeeper sample_bounds = Inr sample_keeper"
  by (simp add: NewKeeper_def bounds_validate_def sample_bounds_def sample_keeper_def MaxWindow_def
      MaxObservationsPerKey_def MaxKeys_def rule_ceilings duration_units)

definition sample_call :: "string \<Rightarrow> string \<Rightarrow> instant \<Rightarrow> state_call" where
  "sample_call t i u = \<lparr>sc_ctx = None, sc_key = sample_key\<lparr>k_tenant := t\<rparr>, sc_seen = sample_obs i u, sc_window = 10, sc_read = False\<rparr>"

theorem quotas_hold_witness:
  "keeper_keys (keeper_run [sample_call ''acme'' ''x'' 5, sample_call ''acme'' ''y'' 6, sample_call ''beta'' ''z'' 7] sample_keeper) \<le> 2"
  using quotas_hold [OF sample_keeper_new, of "[sample_call ''acme'' ''x'' 5, sample_call ''acme'' ''y'' 6, sample_call ''beta'' ''z'' 7]"]
  by (simp add: sample_bounds_def)

section \<open>What a call may take away\<close>

text \<open>
  C7. The store refuses rather than evicts. A key held before a call and gone after it was
  filed in a partition of its tenant whose clock, once the call's event has been read, is
  past the end of the key's window; every other key but the one the call names is left
  exactly as it was.
\<close>

theorem fold_evicts_only_past:
  assumes "keeper_ok k" and "keeper_fold ctx key seen window reads k = (k', st, xs, err)"
    and "lookup (kp_keys k) key' = Some h" and "key' \<noteq> key"
  shows "lookup (kp_keys k') key' = Some h \<or>
         (lookup (kp_keys k') key' = None \<and>
          past_window (keeper_advance (k_tenant key) seen k) key' h)"
  using assms(2)
proof (cases rule: keeper_fold_cases)
  case (turned_away e)
  let ?k1 = "keeper_advance (k_tenant key) seen k"
  have "frees (past_window ?k1) ?k1 k'"
    using assms(1) by (intro admit_frees [OF advance_wf turned_away(2)]) (simp add: keeper_ok_def)
  then show ?thesis
    using assms(3) unfolding frees_def removed_if_def by (metis advance_fields(1) option.inject)
next
  case (opened k2 entry')
  let ?k1 = "keeper_advance (k_tenant key) seen k"
  have fr: "frees (past_window ?k1) ?k1 k2"
    using assms(1) by (intro admit_frees [OF advance_wf opened(2)]) (simp add: keeper_ok_def)
  have "h_key entry' = key"
    using held_observe_ok(2) [OF held_ok_new [of key window], of "bd_observations_per_key (kp_bounds k)" seen]
      opened(4) assms(1) by (simp add: new_held_def keeper_ok_def bounds_valid_iff)
  then have "lookup (kp_keys k') key' = lookup (kp_keys k2) key'"
    using fr opened(5) assms(4) open_eq [of k2] by (simp add: frees_def)
  with fr show ?thesis
    using assms(3) unfolding frees_def removed_if_def by (metis advance_fields(1) option.inject)
qed (use assms in \<open>auto simp: keep_key_def\<close>)

theorem fold_evicts_only_past_witness:
  "\<exists>h. lookup (kp_keys (keeper_run [sample_call ''acme'' ''x'' 5, sample_call ''beta'' ''y'' 5000000000] sample_keeper)) sample_key = Some h \<and>
       past_window (keeper_advance ''gamma'' (sample_obs ''z'' 6000000000)
         (keeper_run [sample_call ''acme'' ''x'' 5, sample_call ''beta'' ''y'' 5000000000] sample_keeper)) sample_key h"
proof -
  let ?k = "keeper_run [sample_call ''acme'' ''x'' 5, sample_call ''beta'' ''y'' 5000000000] sample_keeper"
  let ?f = "keeper_fold None (sample_key\<lparr>k_tenant := ''gamma''\<rparr>) (sample_obs ''z'' 6000000000) 10 False ?k"
  have ok: "keeper_ok ?k" using keeper_run_ok NewKeeper_ok [OF sample_keeper_new] by blast
  obtain k' st xs err where f: "?f = (k', st, xs, err)" by (metis prod_cases4)
  have held: "lookup (kp_keys ?k) sample_key \<noteq> None" and gone: "lookup (kp_keys (fst ?f)) sample_key = None"
    by code_simp+
  then obtain h where h: "lookup (kp_keys ?k) sample_key = Some h" by blast
  have "sample_key \<noteq> sample_key\<lparr>k_tenant := ''gamma''\<rparr>" by (simp add: sample_key_def)
  from fold_evicts_only_past [OF ok f h this] gone f h show ?thesis by auto
qed

lemma advance_other: "t' \<noteq> t \<Longrightarrow> lookup (kp_tenants (keeper_advance t seen k)) t' = lookup (kp_tenants k) t'"
  by (simp add: keeper_advance_def Let_def split: option.splits)

lemma admit_other:
  assumes "keeper_wf k" "\<not> at_ceiling k" "keeper_admit key k = (k', e)"
  shows "k_tenant key' \<noteq> k_tenant key \<Longrightarrow> lookup (kp_keys k') key' = lookup (kp_keys k) key'"
    and "t' \<noteq> k_tenant key \<Longrightarrow> lookup (kp_tenants k') t' = lookup (kp_tenants k) t'"
proof -
  have "(k_tenant key' \<noteq> k_tenant key \<longrightarrow> lookup (kp_keys k') key' = lookup (kp_keys k) key') \<and>
        (t' \<noteq> k_tenant key \<longrightarrow> lookup (kp_tenants k') t' = lookup (kp_tenants k) t')"
  proof (cases "lookup (kp_tenants k) (k_tenant key)")
    case None
    then show ?thesis using assms(2,3) by (simp add: admit_eq admit_store_def Let_def)
  next
    case (Some owner)
    obtain k1 owner1 where r: "own_pressure key k owner = (k1, owner1)" by force
    note own = own_pressure_ok [OF assms(1) Some r]
    have "int (length (kp_keys k1)) \<le> int (length (kp_keys k))"
      using frees_counts [OF assms(1) own(1), of "\<lambda>_. True"] by simp
    then have "\<not> at_ceiling k1"
      using assms(2) own(1) by (simp add: at_ceiling_def frees_def)
    then have "k' = k1"
      using assms(3) Some r by (auto simp: admit_eq admit_store_def Let_def split: option.splits)
    moreover have "lookup (kp_keys k1) key' = lookup (kp_keys k) key'" if "k_tenant key' \<noteq> k_tenant key"
      using own(1) that unfolding frees_def removed_if_def by blast
    ultimately show ?thesis using own(4) [of t'] by blast
  qed
  then show "k_tenant key' \<noteq> k_tenant key \<Longrightarrow> lookup (kp_keys k') key' = lookup (kp_keys k) key'"
    "t' \<noteq> k_tenant key \<Longrightarrow> lookup (kp_tenants k') t' = lookup (kp_tenants k) t'" by blast+
qed

text \<open>
  C5. While the store has room, what one tenant sends moves nothing of another's: no key,
  no count, no watermark and no queue.
\<close>

theorem tenants_isolated:
  assumes "keeper_ok k" and "\<not> at_ceiling k"
    and "keeper_fold ctx key seen window reads k = (k', st, xs, err)"
  shows "(\<forall>key'. k_tenant key' \<noteq> k_tenant key \<longrightarrow> lookup (kp_keys k') key' = lookup (kp_keys k) key') \<and>
         (\<forall>t'. t' \<noteq> k_tenant key \<longrightarrow> lookup (kp_tenants k') t' = lookup (kp_tenants k) t')"
  using assms(3)
proof (cases rule: keeper_fold_cases)
  case (held entry entry')
  then show ?thesis by (auto simp: keep_key_def advance_other)
next
  case (turned_away e)
  have "keeper_wf (keeper_advance (k_tenant key) seen k)" "\<not> at_ceiling (keeper_advance (k_tenant key) seen k)"
    using assms(1,2) by (simp_all add: keeper_ok_def advance_wf at_ceiling_def)
  then show ?thesis
    using admit_other [OF _ _ turned_away(2)] by (simp add: advance_other)
next
  case (opened k2 entry')
  have wf: "keeper_wf (keeper_advance (k_tenant key) seen k)" "\<not> at_ceiling (keeper_advance (k_tenant key) seen k)"
    using assms(1,2) by (simp_all add: keeper_ok_def advance_wf at_ceiling_def)
  have "h_key entry' = key"
    using held_observe_ok(2) [OF held_ok_new [of key window], of "bd_observations_per_key (kp_bounds k)" seen]
      opened(4) assms(1) by (simp add: new_held_def keeper_ok_def bounds_valid_iff)
  moreover have "keeper_wf k2" using admit_frees [OF wf(1) opened(2)] by (simp add: frees_def)
  ultimately show ?thesis
    using admit_other [OF wf opened(2)] opened(5) open_eq [of k2 entry' seen] by (auto simp: advance_other)
qed simp

theorem tenants_isolated_witness:
  "\<not> at_ceiling (keeper_run [sample_call ''acme'' ''x'' 5] sample_keeper) \<and>
   lookup (kp_keys (keeper_run [sample_call ''acme'' ''x'' 5, sample_call ''beta'' ''y'' 5000000000] sample_keeper)) sample_key =
   lookup (kp_keys (keeper_run [sample_call ''acme'' ''x'' 5] sample_keeper)) sample_key"
proof -
  let ?k = "keeper_run [sample_call ''acme'' ''x'' 5] sample_keeper"
  let ?c = "sample_call ''beta'' ''y'' 5000000000"
  have ok: "keeper_ok ?k" using keeper_run_ok NewKeeper_ok [OF sample_keeper_new] by blast
  have room: "\<not> at_ceiling ?k" by code_simp
  obtain k' st xs err where f:
    "keeper_fold (sc_ctx ?c) (sc_key ?c) (sc_seen ?c) (sc_window ?c) (sc_read ?c) ?k = (k', st, xs, err)"
    by (metis prod_cases4)
  have "k_tenant sample_key \<noteq> k_tenant (sc_key ?c)" by (simp add: sample_key_def sample_call_def)
  moreover have "keeper_run [sample_call ''acme'' ''x'' 5, ?c] sample_keeper = k'"
    using f by (simp add: keeper_run_def keeper_call_def)
  ultimately show ?thesis using tenants_isolated [OF ok room f] room by simp
qed

section \<open>What a refusal means\<close>

text \<open>
  A key's window is its rule's, and the revision is part of the key, so every call for
  one key passes one window. Under that, and event times after the zero instant, a key
  only ever moves later, and a queue entry is never later than the key it files.
\<close>

definition held_steady :: "duration \<Rightarrow> held \<Rightarrow> bool" where
  "held_steady w h \<longleftrightarrow> h_window h = w \<and> (\<forall>x \<in> set (h_seen h). 0 < o_at x)"

definition keeper_steady :: "(state_key \<Rightarrow> duration) \<Rightarrow> keeper \<Rightarrow> bool" where
  "keeper_steady W k \<longleftrightarrow>
     keeper_timely k \<and> (\<forall>key h. lookup (kp_keys k) key = Some h \<longrightarrow> held_steady (W key) h)"

definition call_steady :: "(state_key \<Rightarrow> duration) \<Rightarrow> state_call \<Rightarrow> bool" where
  "call_steady W c \<longleftrightarrow> sc_window c = W (sc_key c) \<and> 0 < o_at (sc_seen c)"

lemma observe_seen_subset:
  assumes "held_ok h" "0 \<le> c"
  shows "set (h_seen (fst (held_observe seen c h))) \<subseteq> insert seen (set (h_seen h))"
proof (cases rule: held_observe_cases [of seen h c])
  case folded
  let ?e = "held_expire (held_newest seen h - h_window h) h"
  note ex = held_expire_ok [OF assms(1), of "held_newest seen h - h_window h"]
  have "held_ok (held_insert seen ?e)"
    using folded(1) ex held_expire_ids [OF assms(1)] by (intro held_ok_insert) auto
  then show ?thesis
    using held_trim_ok [of "held_insert seen ?e" c] assms(2) folded(3) held_insert_fields(1) [of ?e seen] ex
    by (auto dest!: in_set_dropD set_dropWhileD)
next
  case late
  then show ?thesis
    using held_expire_ok [OF assms(1), of "held_newest seen h - h_window h"] by (auto dest: set_dropWhileD)
qed auto

lemma observe_steady:
  "held_ok h \<Longrightarrow> 0 \<le> c \<Longrightarrow> held_steady w h \<Longrightarrow> 0 < o_at seen \<Longrightarrow> held_steady w (fst (held_observe seen c h))"
  using observe_seen_subset [of h c seen] held_observe_ok(3) [of h c seen] by (auto simp: held_steady_def)

lemma last_expire:
  assumes "held_ok h" "h_seen h \<noteq> []" "c \<le> held_last h"
  shows "held_last (held_expire c h) = held_last h" "last (h_seen h) \<in> set (h_seen (held_expire c h))"
proof -
  have "h_seen (held_expire c h) = filter (\<lambda>x. c \<le> o_at x) (h_seen h)"
    using held_expire_ok [OF assms(1), of c] assms(1) by (simp add: held_ok_def dropWhile_sorted)
  moreover have "h_seen h = butlast (h_seen h) @ [last (h_seen h)]" using assms(2) by simp
  ultimately have "h_seen (held_expire c h) = filter (\<lambda>x. c \<le> o_at x) (butlast (h_seen h)) @ [last (h_seen h)]"
    using assms(2,3) by (metis (no_types, lifting) filter.simps filter_append held_last_def)
  then show "held_last (held_expire c h) = held_last h" "last (h_seen h) \<in> set (h_seen (held_expire c h))"
    using assms(2) by (simp_all add: held_last_def)
qed

lemma held_last_ge: "held_ok h \<Longrightarrow> x \<in> set (h_seen h) \<Longrightarrow> o_at x \<le> held_last h"
  using held_last_Max [of h] by (cases "h_seen h") auto

lemma last_trim:
  assumes "held_ok h" "0 < c" "h_seen h \<noteq> []" shows "held_last (held_trim c h) = held_last h"
proof -
  define n where "n = length (h_seen h) - nat c"
  have "n < length (h_seen h)" using assms(2,3) by (simp add: n_def)
  moreover have "h_seen (held_trim c h) = drop n (h_seen h)"
    using held_trim_ok [OF assms(1), of c] assms(2) by (simp add: n_def)
  ultimately show ?thesis using assms(3) by (simp add: held_last_def)
qed

lemma observe_last_mono:
  assumes ok: "held_ok h" and c: "0 < c" and st: "held_steady w h" "0 \<le> w" "0 < o_at seen"
  shows "held_last h \<le> held_last (fst (held_observe seen c h))"
proof (cases rule: held_observe_cases [of seen h c])
  case late
  then have "held_last h = held_newest seen h" and "h_seen h \<noteq> []"
    using st by (auto simp: held_newest_def held_steady_def held_last_def max_def split: if_splits)
  then show ?thesis using late(3) last_expire(1) [OF ok, of "held_newest seen h - h_window h"] st by (simp add: held_steady_def)
next
  case folded
  let ?e = "held_expire (held_newest seen h - h_window h) h"
  let ?i = "held_insert seen ?e"
  note ex = held_expire_ok [OF ok, of "held_newest seen h - h_window h"]
  have new: "held_ok ?i" using folded(1) ex held_expire_ids [OF ok] by (intro held_ok_insert) auto
  note set = held_insert_fields(1) [OF conjunct1 [OF ex], of seen]
  have "held_last h \<le> held_last ?i"
  proof (cases "h_seen h = [] \<or> held_last h \<le> o_at seen")
    case True
    then have "held_last h \<le> o_at seen" using st(3) by (auto simp: held_last_def)
    also have "\<dots> \<le> held_last ?i" using held_last_ge [OF new] set by simp
    finally show ?thesis .
  next
    case False
    then have "held_newest seen h - h_window h \<le> held_last h" using st by (simp add: held_newest_def held_steady_def)
    then have "last (h_seen h) \<in> set (h_seen ?i)" using last_expire(2) [OF ok] False set by simp
    from held_last_ge [OF new this] False show ?thesis by (simp add: held_last_def)
  qed
  moreover have "held_last (held_trim c ?i) = held_last ?i" using set by (intro last_trim [OF new c]) auto
  ultimately show ?thesis using folded(3) by simp
qed simp

lemma frees_steady:
  assumes "frees Q k k'" "keeper_steady W k" shows "keeper_steady W k'"
proof -
  have "removed_if Q (kp_keys k) (kp_keys k')" and "keeper_timely k'"
    using assms by (simp_all add: frees_def keeper_steady_def)
  then show ?thesis
    using assms(2) removed_if_kept [of Q "kp_keys k" "kp_keys k'"] by (simp add: keeper_steady_def)
qed

lemma advance_steady: "keeper_steady W k \<Longrightarrow> keeper_steady W (keeper_advance t seen k)"
  by (simp add: keeper_steady_def advance_timely)

lemma opened_entry:
  assumes "keeper_ok k" "held_observe seen (bd_observations_per_key (kp_bounds k)) (new_held key window) = (entry', st, err)"
  shows "h_key entry' = key" "held_ok entry'" "int (length (h_seen entry')) \<le> bd_observations_per_key (kp_bounds k)"
    and "0 < o_at seen \<Longrightarrow> held_steady window entry'"
proof -
  have c: "0 < bd_observations_per_key (kp_bounds k)" using assms(1) by (simp add: keeper_ok_def bounds_valid_iff)
  note ok = held_observe_ok [OF held_ok_new [of key window] less_imp_le [OF c], of seen]
  show "h_key entry' = key" "held_ok entry'" "int (length (h_seen entry')) \<le> bd_observations_per_key (kp_bounds k)"
    using ok assms(2) c by (auto simp: new_held_def)
  show "0 < o_at seen \<Longrightarrow> held_steady window entry'"
    using observe_steady [OF held_ok_new [of key window] less_imp_le [OF c], of window seen] assms(2)
    by (simp add: held_steady_def new_held_def)
qed

lemma fold_steady:
  assumes ok: "keeper_ok k" and st: "keeper_steady W k" and w: "window = W key" "0 < o_at seen"
    and f: "keeper_fold ctx key seen window reads k = (k', s, xs, err)"
  shows "keeper_steady W k'"
  using f
proof (cases rule: keeper_fold_cases)
  case refused
  then show ?thesis using st by simp
next
  case (held entry entry')
  let ?k1 = "keeper_advance (k_tenant key) seen k" and ?c = "bd_observations_per_key (kp_bounds k)"
  have wf: "keeper_wf k" and c: "0 < ?c" using ok by (auto simp: keeper_ok_def bounds_valid_iff)
  have en: "held_ok entry" "h_key entry = key" "int (length (h_seen entry)) \<le> ?c" "held_steady window entry"
    using wf_held [OF wf held(1)] st w(1) held(1) by (auto simp: keeper_steady_def)
  then have "entry\<lparr>h_window := window\<rparr> = entry" by (auto simp: held_steady_def)
  then have ob: "fst (held_observe seen ?c entry) = entry'" using held(3) by simp
  have e': "held_ok entry'" "h_key entry' = key" "int (length (h_seen entry')) \<le> ?c" "held_steady window entry'"
    using held_observe_ok [OF en(1) less_imp_le [OF c], of seen] observe_steady [OF en(1) less_imp_le [OF c] en(4) w(2)]
      ob en(2,3) by auto
  have "held_last entry \<le> held_last entry'"
    using observe_last_mono [OF en(1) c en(4) _ w(2)] held(5) ob by simp
  then have "held_expires entry \<le> held_expires entry'" using en(4) e'(4) by (simp add: held_expires_def held_steady_def)
  then have "keeper_timely (keep_key key entry' ?k1)"
    using advance_wf [OF wf] advance_steady [OF st] held(1) e'
    by (intro keep_key_wf(2) [where h = entry]) (simp_all add: keeper_steady_def)
  then show ?thesis using st held(4) e'(4) w(1) by (simp add: keeper_steady_def keep_key_def)
next
  case (turned_away e)
  have "frees (past_window (keeper_advance (k_tenant key) seen k)) (keeper_advance (k_tenant key) seen k) k'"
    using ok by (intro admit_frees [OF advance_wf turned_away(2)]) (simp add: keeper_ok_def)
  then show ?thesis using advance_steady [OF st] by (rule frees_steady)
next
  case (opened k2 entry')
  have fr: "frees (past_window (keeper_advance (k_tenant key) seen k)) (keeper_advance (k_tenant key) seen k) k2"
    using ok by (intro admit_frees [OF advance_wf opened(2)]) (simp add: keeper_ok_def)
  have s2: "keeper_steady W k2" using fr advance_steady [OF st] by (rule frees_steady)
  have wf2: "keeper_wf k2" and b2: "kp_bounds k2 = kp_bounds k" using fr by (simp_all add: frees_def)
  note en = opened_entry [OF ok opened(4)]
  have "lookup (kp_keys k2) key = None"
    using fr opened(1) removed_if_kept [of _ "kp_keys k" "kp_keys k2" key]
    by (cases "lookup (kp_keys k2) key") (auto simp: frees_def)
  then have "keeper_timely k'"
    using open_wf(2) [OF wf2, of entry' seen] en(1-3) b2 s2 opened(5) by (simp add: keeper_steady_def)
  then show ?thesis
    using s2 en(1) en(4) [OF w(2)] w(1) opened(5) open_eq [OF wf2] by (simp add: keeper_steady_def)
qed

lemma run_steady:
  "keeper_ok k \<Longrightarrow> keeper_steady W k \<Longrightarrow> \<forall>c \<in> set cs. call_steady W c \<Longrightarrow> keeper_steady W (keeper_run cs k)"
  unfolding keeper_run_def
proof (induction cs arbitrary: k)
  case (Cons c cs)
  obtain k' s xs err where f:
    "keeper_fold (sc_ctx c) (sc_key c) (sc_seen c) (sc_window c) (sc_read c) k = (k', s, xs, err)"
    by (metis prod_cases4)
  have "keeper_steady W k'"
    using Cons.prems(3) by (intro fold_steady [OF Cons.prems(1,2) _ _ f]) (simp_all add: call_steady_def)
  then have "keeper_steady W (keeper_call c k)" by (simp add: keeper_call_def f)
  with Cons keeper_call_ok [OF Cons.prems(1), of c] show ?case by simp
qed simp

lemma refused_tenant:
  assumes wf: "keeper_wf k" and tm: "keeper_timely k" and adm: "keeper_admit key k = (k', Some e)"
    and e: "e \<noteq> ErrAtCapacity"
  obtains owner1 where "owner_ok (k_tenant key) (kp_keys k') owner1"
    and "tenant_refuses (k_rule key) (kp_bounds k) owner1 = Some e"
    and "\<And>key' h. lookup (kp_keys k') key' = Some h \<Longrightarrow> k_tenant key' = k_tenant key \<Longrightarrow> \<not> past_window k' key' h"
proof (cases "lookup (kp_tenants k) (k_tenant key)")
  case None
  with adm e have False by (auto simp: admit_eq admit_store_def Let_def split: if_splits)
  then show ?thesis ..
next
  case (Some owner)
  obtain k1 owner1 where r: "own_pressure key k owner = (k1, owner1)" by force
  have ref: "tenant_refuses (k_rule key) (kp_bounds k) owner1 = Some e" and k1: "k1 = k'"
    using adm e Some r by (auto simp: admit_eq admit_store_def Let_def split: option.splits if_splits)
  have "reclaim owner k = (k1, owner1)"
    using r ref by (auto simp: own_pressure_def split: if_splits)
  note re = reclaim_reclaims [OF wf Some this]
  have "\<not> past_window k' key' h" if "lookup (kp_keys k') key' = Some h" "k_tenant key' = k_tenant key" for key' h
    using re(1) re(3) [OF tm, of key' h] that k1
    by (auto simp: past_window_def reclaims_to_def split: if_splits)
  with re(1) ref k1 show ?thesis by (intro that) (auto simp: reclaims_to_def)
qed

text \<open>
  C9. A refusal for a tenant's or a rule's capacity is never made while there is something
  to reclaim. After any calls that keep each key's window, a call refused as
  \<open>ErrTenantAtCapacity\<close> leaves the tenant holding as many keys as one may, one refused as
  \<open>ErrRuleAtCapacity\<close> leaves the rule holding as many, and none of the tenant's keys is
  past its window.
\<close>

theorem refusal_is_honest:
  assumes "NewKeeper b = Inr k0" and "\<forall>c \<in> set cs. call_steady W c"
    and "keeper_fold ctx key seen window reads (keeper_run cs k0) = (k', st, xs, Some e)"
    and "e = ErrTenantAtCapacity \<or> e = ErrRuleAtCapacity"
  shows "(e = ErrTenantAtCapacity \<longrightarrow>
            int (count_keys (\<lambda>key'. k_tenant key' = k_tenant key) (kp_keys k')) = bd_keys_per_tenant b) \<and>
         (e = ErrRuleAtCapacity \<longrightarrow>
            int (count_keys (\<lambda>key'. k_tenant key' = k_tenant key \<and> k_rule key' = k_rule key) (kp_keys k')) =
              bd_keys_per_rule b) \<and>
         (\<forall>key' h. lookup (kp_keys k') key' = Some h \<and> k_tenant key' = k_tenant key \<longrightarrow> \<not> past_window k' key' h)"
proof -
  let ?k = "keeper_run cs k0"
  have k: "keeper_ok ?k" "kp_bounds ?k = b" using keeper_run_ok NewKeeper_ok [OF assms(1)] by auto
  have "keeper_steady W k0"
    using assms(1) by (auto simp: NewKeeper_def keeper_steady_def keeper_timely_def split: option.splits)
  then have st: "keeper_steady W ?k" using NewKeeper_ok [OF assms(1)] assms(2) by (intro run_steady) auto
  have adm: "keeper_admit key (keeper_advance (k_tenant key) seen ?k) = (k', Some e)"
    using assms(3) by (cases rule: keeper_fold_cases) (use assms(4) in \<open>auto dest: observe_error\<close>)
  let ?k1 = "keeper_advance (k_tenant key) seen ?k"
  have k1: "keeper_ok ?k1" "keeper_timely ?k1" "kp_bounds ?k1 = b"
    using k advance_ok advance_steady [OF st] by (simp_all add: keeper_steady_def)
  have fr: "frees (past_window ?k1) ?k1 k'" using k1 by (intro admit_frees [OF _ adm]) (simp add: keeper_ok_def)
  then have "within_quota k'" "kp_bounds k' = b"
    using frees_quota [OF _ fr] k1 by (simp_all add: keeper_ok_def frees_def)
  moreover obtain owner1 where o1: "owner_ok (k_tenant key) (kp_keys k') owner1"
      "tenant_refuses (k_rule key) b owner1 = Some e"
    and live: "\<And>key' h. lookup (kp_keys k') key' = Some h \<Longrightarrow> k_tenant key' = k_tenant key \<Longrightarrow> \<not> past_window k' key' h"
    using refused_tenant [OF _ k1(2) adm] k1(1,3) assms(4) by (auto simp: keeper_ok_def)
  ultimately show ?thesis
    using counts_ok_rule [of "k_tenant key" "kp_keys k'" owner1 "k_rule key"] live
    by (auto simp: tenant_refuses_def owner_ok_def counts_ok_def within_quota_def order_antisym split: if_splits)
qed

theorem refusal_is_honest_witness:
  "snd (snd (snd (keeper_fold None (sample_key\<lparr>k_group := ''other''\<rparr>) (sample_obs ''y'' 6) 10 False
     (keeper_run [sample_call ''acme'' ''x'' 5] sample_keeper)))) = Some ErrTenantAtCapacity \<and>
   count_keys (\<lambda>key'. k_tenant key' = ''acme'') (kp_keys (fst (keeper_fold None (sample_key\<lparr>k_group := ''other''\<rparr>)
     (sample_obs ''y'' 6) 10 False (keeper_run [sample_call ''acme'' ''x'' 5] sample_keeper)))) = 1"
proof -
  let ?f = "keeper_fold None (sample_key\<lparr>k_group := ''other''\<rparr>) (sample_obs ''y'' 6) 10 False
     (keeper_run [sample_call ''acme'' ''x'' 5] sample_keeper)"
  have e: "snd (snd (snd ?f)) = Some ErrTenantAtCapacity" by code_simp
  then obtain k' st xs where f: "?f = (k', st, xs, Some ErrTenantAtCapacity)" by (metis prod_cases4 snd_conv)
  have steady: "\<forall>c \<in> set [sample_call ''acme'' ''x'' 5]. call_steady (\<lambda>_. 10) c"
    by (simp add: call_steady_def sample_call_def sample_obs_def)
  have "int (count_keys (\<lambda>key'. k_tenant key' = ''acme'') (kp_keys k')) = 1"
    using refusal_is_honest [OF sample_keeper_new steady f] by (simp add: sample_key_def sample_bounds_def)
  with e f show ?thesis by simp
qed

end
