(* ===== verification/Go_Strings.thy ===== *)
theory Go_Strings
  imports Go_Prelude "HOL-Library.Char_ord" "HOL-Library.List_Lexorder" "HOL-Library.Sublist"
begin

text \<open>
  Go strings as the components use them. A string is its bytes; \<open><\<close> on strings is the
  lexicographic order of the bytes, which is what \<^verbatim>\<open>strings.Compare\<close>, \<^verbatim>\<open>slices.Sort\<close> and
  \<^verbatim>\<open>sort.Strings\<close> use. The second half is the length-prefixed writing (\<open>"%d:%s"\<close>) that every
  digest of the program is taken of, and the proof that it loses nothing.
\<close>

section \<open>Decimal numbers\<close>

definition digit :: "nat \<Rightarrow> char" where
  "digit d = char_of (48 + d)"

fun dec_of_nat :: "nat \<Rightarrow> string" where
  "dec_of_nat n = (if n < 10 then [digit n] else dec_of_nat (n div 10) @ [digit (n mod 10)])"

declare dec_of_nat.simps [simp del]

definition itoa :: "int \<Rightarrow> string" where
  "itoa i = (if i < 0 then CHR ''-'' # dec_of_nat (nat (- i)) else dec_of_nat (nat i))"

definition is_digit :: "char \<Rightarrow> bool" where
  "is_digit c = (48 \<le> (of_char c :: nat) \<and> (of_char c :: nat) \<le> 57)"

definition digit_value :: "char \<Rightarrow> nat" where
  "digit_value c = of_char c - 48"

definition nat_of_dec :: "string \<Rightarrow> nat" where
  "nat_of_dec s = foldl (\<lambda>n c. n * 10 + digit_value c) 0 s"

lemma digit_value_digit [simp]: "d < 10 \<Longrightarrow> digit_value (digit d) = d"
  by (simp add: digit_value_def digit_def)

lemma is_digit_digit [simp]: "d < 10 \<Longrightarrow> is_digit (digit d)"
  by (simp add: is_digit_def digit_def)

lemma is_digit_minus [simp]: "\<not> is_digit CHR ''-''"
  by (simp add: is_digit_def)

lemma is_digit_colon [simp]: "\<not> is_digit CHR '':''"
  by (simp add: is_digit_def)

lemma dec_of_nat_digits: "list_all is_digit (dec_of_nat n)"
proof (induction n rule: dec_of_nat.induct)
  case (1 n)
  then show ?case by (subst dec_of_nat.simps) simp
qed

lemma dec_of_nat_nonempty [simp]: "dec_of_nat n \<noteq> []"
  by (subst dec_of_nat.simps) simp

lemma nat_of_dec_snoc: "nat_of_dec (s @ [c]) = nat_of_dec s * 10 + digit_value c"
  by (simp add: nat_of_dec_def)

lemma nat_of_dec_of_nat [simp]: "nat_of_dec (dec_of_nat n) = n"
proof (induction n rule: dec_of_nat.induct)
  case (1 n)
  then show ?case
    by (subst dec_of_nat.simps) (auto simp: nat_of_dec_snoc nat_of_dec_def)
qed

lemma dec_of_nat_inject [simp]: "dec_of_nat m = dec_of_nat n \<longleftrightarrow> m = n"
  by (metis nat_of_dec_of_nat)

lemma dec_of_nat_hd: "is_digit (hd (dec_of_nat n))"
  using dec_of_nat_digits [of n] by (cases "dec_of_nat n") auto

lemma itoa_inject [simp]: "itoa i = itoa j \<longleftrightarrow> i = j"
proof
  assume eq: "itoa i = itoa j"
  have hd: "is_digit (hd (itoa k)) \<longleftrightarrow> 0 \<le> k" for k
    using dec_of_nat_hd by (simp add: itoa_def)
  have "0 \<le> i \<longleftrightarrow> 0 \<le> j" using hd eq by metis
  with eq show "i = j" by (auto simp: itoa_def split: if_splits)
qed simp

section \<open>Trimming and folding case\<close>

text \<open>The encodings of Unicode's white space, which \<^verbatim>\<open>strings.TrimSpace\<close> takes off both ends.\<close>

definition space_tokens :: "string list" where
  "space_tokens =
     [
      [CHR 0x09], [CHR 0x0A], [CHR 0x0B], [CHR 0x0C],
      [CHR 0x0D], [CHR 0x20], [CHR 0xC2, CHR 0x85], [CHR 0xC2, CHR 0xA0],
      [CHR 0xE1, CHR 0x9A, CHR 0x80], [CHR 0xE2, CHR 0x80, CHR 0x80], [CHR 0xE2, CHR 0x80, CHR 0x81], [CHR 0xE2, CHR 0x80, CHR 0x82],
      [CHR 0xE2, CHR 0x80, CHR 0x83], [CHR 0xE2, CHR 0x80, CHR 0x84], [CHR 0xE2, CHR 0x80, CHR 0x85], [CHR 0xE2, CHR 0x80, CHR 0x86],
      [CHR 0xE2, CHR 0x80, CHR 0x87], [CHR 0xE2, CHR 0x80, CHR 0x88], [CHR 0xE2, CHR 0x80, CHR 0x89], [CHR 0xE2, CHR 0x80, CHR 0x8A],
      [CHR 0xE2, CHR 0x80, CHR 0xA8], [CHR 0xE2, CHR 0x80, CHR 0xA9], [CHR 0xE2, CHR 0x80, CHR 0xAF], [CHR 0xE2, CHR 0x81, CHR 0x9F],
      [CHR 0xE3, CHR 0x80, CHR 0x80]]"

definition strip_token :: "(string \<Rightarrow> string \<Rightarrow> bool) \<Rightarrow> string \<Rightarrow> string option" where
  "strip_token starts s = List.find (\<lambda>t. starts t s) space_tokens"

lemma space_tokens_nonempty: "t \<in> set space_tokens \<Longrightarrow> t \<noteq> []"
  by (auto simp: space_tokens_def)

lemma find_space_nonempty: "strip_token f s = Some t \<Longrightarrow> t \<noteq> [] \<and> f t s"
  using space_tokens_nonempty by (auto simp: strip_token_def find_Some_iff)

function trim_left :: "string \<Rightarrow> string" where
  "trim_left s =
     (case strip_token prefix s of None \<Rightarrow> s | Some t \<Rightarrow> trim_left (drop (length t) s))"
  by pat_completeness auto
termination
proof (relation "measure length")
  fix s t assume "strip_token prefix s = Some t"
  from find_space_nonempty [OF this] show "(drop (length t) s, s) \<in> measure length"
    by (auto simp: prefix_def)
qed simp

function trim_right :: "string \<Rightarrow> string" where
  "trim_right s =
     (case strip_token suffix s of None \<Rightarrow> s | Some t \<Rightarrow> trim_right (take (length s - length t) s))"
  by pat_completeness auto
termination
proof (relation "measure length")
  fix s t assume "strip_token suffix s = Some t"
  from find_space_nonempty [OF this] show "(take (length s - length t) s, s) \<in> measure length"
    by (auto simp: suffix_def)
qed simp

declare trim_left.simps [simp del] trim_right.simps [simp del]

definition TrimSpace :: "string \<Rightarrow> string" where
  "TrimSpace s = trim_right (trim_left s)"

definition lower_char :: "char \<Rightarrow> char" where
  "lower_char c = (if 65 \<le> (of_char c :: nat) \<and> (of_char c :: nat) \<le> 90 then char_of ((of_char c :: nat) + 32) else c)"

definition upper_char :: "char \<Rightarrow> char" where
  "upper_char c = (if 97 \<le> (of_char c :: nat) \<and> (of_char c :: nat) \<le> 122 then char_of ((of_char c :: nat) - 32) else c)"

text \<open>\<^verbatim>\<open>ToLower\<close> and \<^verbatim>\<open>ToUpper\<close> on the ASCII names the program folds.\<close>

definition ToLower :: "string \<Rightarrow> string" where "ToLower = map lower_char"
definition ToUpper :: "string \<Rightarrow> string" where "ToUpper = map upper_char"

definition HasPrefix :: "string \<Rightarrow> string \<Rightarrow> bool" where "HasPrefix s p = prefix p s"
definition HasSuffix :: "string \<Rightarrow> string \<Rightarrow> bool" where "HasSuffix s p = suffix p s"
definition Contains_in :: "string \<Rightarrow> string \<Rightarrow> bool" where "Contains_in s p = sublist p s"

definition CutPrefix :: "string \<Rightarrow> string \<Rightarrow> string \<times> bool" where
  "CutPrefix s p = (if prefix p s then (drop (length p) s, True) else (s, False))"

definition TrimPrefix :: "string \<Rightarrow> string \<Rightarrow> string" where
  "TrimPrefix s p = (if prefix p s then drop (length p) s else s)"

fun join_with :: "string \<Rightarrow> string list \<Rightarrow> string" where
  "join_with sep [] = []"
| "join_with sep [s] = s"
| "join_with sep (s # t # ss) = s @ sep @ join_with sep (t # ss)"

text \<open>\<^verbatim>\<open>strings.Cut\<close> at a one-byte separator.\<close>

definition cut_at :: "char \<Rightarrow> string \<Rightarrow> string \<times> string \<times> bool" where
  "cut_at c s = (takeWhile (\<lambda>x. x \<noteq> c) s, drop 1 (dropWhile (\<lambda>x. x \<noteq> c) s), c \<in> set s)"

lemma cut_at_append: "c \<notin> set a \<Longrightarrow> cut_at c (a @ c # b) = (a, b, True)"
  by (induction a) (auto simp: cut_at_def)

text \<open>\<^verbatim>\<open>strings.Split\<close> at a one-byte separator.\<close>

fun split_on :: "char \<Rightarrow> string \<Rightarrow> string list" where
  "split_on c [] = [[]]"
| "split_on c (d # s) =
     (if d = c then [] # split_on c s
      else case split_on c s of [] \<Rightarrow> [[d]] | w # ws \<Rightarrow> (d # w) # ws)"

section \<open>Length-prefixed writing\<close>

definition framed :: "string \<Rightarrow> string" where
  "framed v = dec_of_nat (length v) @ CHR '':'' # v"

definition frame_all :: "string list \<Rightarrow> string" where
  "frame_all vs = concat (map framed vs)"

lemma frame_all_Nil [simp]: "frame_all [] = []"
  by (simp add: frame_all_def)

lemma frame_all_Cons [simp]: "frame_all (v # vs) = framed v @ frame_all vs"
  by (simp add: frame_all_def)

lemma frame_all_append: "frame_all (us @ vs) = frame_all us @ frame_all vs"
  by (simp add: frame_all_def)

lemma framed_nonempty [simp]: "framed v \<noteq> []"
  by (simp add: framed_def)

lemma digits_colon_inject:
  assumes "list_all is_digit a" "list_all is_digit b" "a @ CHR '':'' # x = b @ CHR '':'' # y"
  shows "a = b \<and> x = y"
proof -
  have "takeWhile is_digit (a @ CHR '':'' # x) = a" "takeWhile is_digit (b @ CHR '':'' # y) = b"
    using assms(1,2) by (simp_all add: takeWhile_tail list_all_iff)
  with assms(3) show ?thesis by (metis append_same_eq list.inject same_append_eq)
qed

lemma framed_inject: "framed v @ x = framed w @ y \<longleftrightarrow> v = w \<and> x = y"
proof
  assume "framed v @ x = framed w @ y"
  then have "dec_of_nat (length v) = dec_of_nat (length w) \<and> v @ x = w @ y"
    unfolding framed_def by (intro digits_colon_inject) (simp_all add: dec_of_nat_digits)
  then show "v = w \<and> x = y" by (elim conjE) simp
qed simp

text \<open>The list of values can be read back from what was written.\<close>

lemma frame_all_inject [simp]: "frame_all us = frame_all vs \<longleftrightarrow> us = vs"
proof
  show "frame_all us = frame_all vs \<Longrightarrow> us = vs"
  proof (induction us arbitrary: vs)
    case Nil
    then show ?case by (cases vs) auto
  next
    case (Cons u us)
    then obtain v vs' where vs: "vs = v # vs'" by (cases vs) auto
    with Cons.prems have "u = v \<and> frame_all us = frame_all vs'" by (simp add: framed_inject)
    with Cons.IH vs show ?case by simp
  qed
qed simp

section \<open>Sorted sets of strings\<close>

text \<open>\<^verbatim>\<open>slices.Compact\<close> keeps the first of each run of equal elements.\<close>

abbreviation compact :: "'a list \<Rightarrow> 'a list" where
  "compact \<equiv> remdups_adj"

lemma set_compact_sort: "set (compact (sort xs)) = set (xs :: 'a :: linorder list)"
  by simp

lemma distinct_compact: "sorted xs \<Longrightarrow> distinct (compact (xs :: 'a :: linorder list))"
  by (induction xs rule: remdups_adj.induct) (auto simp: less_le)

lemma compact_sort: "compact (sort xs) = sorted_list_of_set (set (xs :: 'a :: linorder list))"
  by (rule sorted_distinct_set_unique) (simp_all add: sorted_remdups_adj distinct_compact)

end
