(* ===== verification/Go_Digest.thy ===== *)
theory Go_Digest
  imports Go_Strings "HOL-Library.Word"
begin

text \<open>
  \<^verbatim>\<open>crypto/sha256\<close> and \<^verbatim>\<open>encoding/hex\<close>: the digest every derived identity of the program is cut
  from. The compression function works on 32-bit words with wrapping addition, as FIPS 180-4 gives
  it; a digest is 32 bytes, and the identities take a prefix of its hexadecimal writing.
\<close>

unbundle bit_operations_syntax

type_synonym w32 = "32 word"

section \<open>SHA-256\<close>

definition round_constants :: "w32 list" where
  "round_constants = [
    0x428A2F98, 0x71374491, 0xB5C0FBCF, 0xE9B5DBA5, 0x3956C25B, 0x59F111F1, 0x923F82A4, 0xAB1C5ED5,
    0xD807AA98, 0x12835B01, 0x243185BE, 0x550C7DC3, 0x72BE5D74, 0x80DEB1FE, 0x9BDC06A7, 0xC19BF174,
    0xE49B69C1, 0xEFBE4786, 0x0FC19DC6, 0x240CA1CC, 0x2DE92C6F, 0x4A7484AA, 0x5CB0A9DC, 0x76F988DA,
    0x983E5152, 0xA831C66D, 0xB00327C8, 0xBF597FC7, 0xC6E00BF3, 0xD5A79147, 0x06CA6351, 0x14292967,
    0x27B70A85, 0x2E1B2138, 0x4D2C6DFC, 0x53380D13, 0x650A7354, 0x766A0ABB, 0x81C2C92E, 0x92722C85,
    0xA2BFE8A1, 0xA81A664B, 0xC24B8B70, 0xC76C51A3, 0xD192E819, 0xD6990624, 0xF40E3585, 0x106AA070,
    0x19A4C116, 0x1E376C08, 0x2748774C, 0x34B0BCB5, 0x391C0CB3, 0x4ED8AA4A, 0x5B9CCA4F, 0x682E6FF3,
    0x748F82EE, 0x78A5636F, 0x84C87814, 0x8CC70208, 0x90BEFFFA, 0xA4506CEB, 0xBEF9A3F7, 0xC67178F2]"

definition initial_hash :: "w32 list" where
  "initial_hash = [
    0x6A09E667, 0xBB67AE85, 0x3C6EF372, 0xA54FF53A, 0x510E527F, 0x9B05688C, 0x1F83D9AB, 0x5BE0CD19]"

definition small_sigma0 :: "w32 \<Rightarrow> w32" where
  "small_sigma0 x = word_rotr 7 x XOR word_rotr 18 x XOR drop_bit 3 x"

definition small_sigma1 :: "w32 \<Rightarrow> w32" where
  "small_sigma1 x = word_rotr 17 x XOR word_rotr 19 x XOR drop_bit 10 x"

definition big_sigma0 :: "w32 \<Rightarrow> w32" where
  "big_sigma0 x = word_rotr 2 x XOR word_rotr 13 x XOR word_rotr 22 x"

definition big_sigma1 :: "w32 \<Rightarrow> w32" where
  "big_sigma1 x = word_rotr 6 x XOR word_rotr 11 x XOR word_rotr 25 x"

text \<open>The message schedule, held newest first.\<close>

definition next_schedule :: "w32 list \<Rightarrow> w32" where
  "next_schedule ws = small_sigma1 (ws ! 1) + ws ! 6 + small_sigma0 (ws ! 14) + ws ! 15"

definition schedule :: "w32 list \<Rightarrow> w32 list" where
  "schedule block = rev (((\<lambda>ws. next_schedule ws # ws) ^^ 48) (rev block))"

definition round_step :: "w32 list \<Rightarrow> w32 \<times> w32 \<Rightarrow> w32 list" where
  "round_step v kw =
     (case v of
        [a, b, c, d, e, f, g, h] \<Rightarrow>
          (let t1 = h + big_sigma1 e + ((e AND f) XOR (NOT e AND g)) + fst kw + snd kw;
               t2 = big_sigma0 a + ((a AND b) XOR (a AND c) XOR (b AND c))
           in [t1 + t2, a, b, c, d + t1, e, f, g])
      | _ \<Rightarrow> v)"

definition compress :: "w32 list \<Rightarrow> w32 list \<Rightarrow> w32 list" where
  "compress hs block = map2 (+) hs (foldl round_step hs (zip round_constants (schedule block)))"

definition big_endian :: "nat \<Rightarrow> nat \<Rightarrow> nat list" where
  "big_endian width n = map (\<lambda>i. n div 256 ^ (width - 1 - i) mod 256) [0..<width]"

definition padded :: "nat list \<Rightarrow> nat list" where
  "padded bytes =
     bytes @ 128 # replicate ((119 - length bytes mod 64) mod 64) 0 @ big_endian 8 (8 * length bytes)"

definition word_of_bytes :: "nat list \<Rightarrow> w32" where
  "word_of_bytes bs = of_nat (foldl (\<lambda>n b. n * 256 + b) 0 bs)"

fun chunks :: "nat \<Rightarrow> 'a list \<Rightarrow> 'a list list" where
  "chunks n xs = (if n = 0 \<or> xs = [] then [] else take n xs # chunks n (drop n xs))"

declare chunks.simps [simp del]

definition Sum256 :: "string \<Rightarrow> nat list" where
  "Sum256 s =
     concat (map (\<lambda>w. big_endian 4 (unat w))
       (foldl compress initial_hash
         (map (\<lambda>block. map word_of_bytes (chunks 4 block)) (chunks 64 (padded (map of_char s))))))"

section \<open>Hexadecimal\<close>

definition hex_digit :: "nat \<Rightarrow> char" where
  "hex_digit d = (if d < 10 then char_of (48 + d) else char_of (87 + d))"

definition EncodeToString :: "nat list \<Rightarrow> string" where
  "EncodeToString bs = concat (map (\<lambda>b. [hex_digit (b div 16 mod 16), hex_digit (b mod 16)]) bs)"

text \<open>The first \<open>n\<close> bytes of the digest, in hexadecimal.\<close>

definition digest :: "nat \<Rightarrow> string \<Rightarrow> string" where
  "digest n s = EncodeToString (take n (Sum256 s))"

section \<open>What the identities rest on\<close>

text \<open>Two byte strings that a truncated digest does not tell apart.\<close>

definition collides :: "nat \<Rightarrow> string \<Rightarrow> string \<Rightarrow> bool" where
  "collides n s t = (s \<noteq> t \<and> digest n s = digest n t)"

lemma length_big_endian [simp]: "length (big_endian k n) = k"
  by (simp add: big_endian_def)

lemma length_round_step [simp]: "length (round_step v kw) = length v"
  by (auto simp: round_step_def Let_def split: list.split)

lemma length_foldl_round_step [simp]: "length (foldl round_step v kws) = length v"
  by (induction kws arbitrary: v) simp_all

lemma length_compress [simp]: "length (compress hs block) = length hs"
  by (simp add: compress_def)

lemma length_foldl_compress [simp]: "length (foldl compress hs bs) = length hs"
  by (induction bs arbitrary: hs) simp_all

lemma length_Sum256 [simp]: "length (Sum256 s) = 32"
proof -
  have "length (concat (map (\<lambda>w. big_endian 4 (unat w)) ws)) = 4 * length ws" for ws :: "w32 list"
    by (induction ws) simp_all
  then show ?thesis by (simp add: Sum256_def initial_hash_def)
qed

lemma length_EncodeToString [simp]: "length (EncodeToString bs) = 2 * length bs"
  by (induction bs) (simp_all add: EncodeToString_def)

lemma length_digest: "n \<le> 32 \<Longrightarrow> length (digest n s) = 2 * n"
  by (simp add: digest_def min_def)

lemma digest_eq: "digest n s = digest n t \<Longrightarrow> s = t \<or> collides n s t"
  by (auto simp: collides_def)

end
