(* ===== verification/State_Key.thy ===== *)
theory State_Key
  imports State_Bounds Go_Digest
begin

text \<open>
  \<^verbatim>\<open>internal/detectionstate/key.go\<close>: the key a window of observations is kept under. Tenant and rule
  stay legible and the group is a digest of everything the key is made of. The sort is Go's insertion
  sort at this size (a rule groups by at most eight fields), hence stable.
\<close>

definition absent_mark :: string where
  "absent_mark = char_of (0 :: nat) # ''absent''"

definition binding_parts :: "binding \<Rightarrow> string list" where
  "binding_parts b = [b_field b, if b_absent b then absent_mark else b_value b]"

definition key_parts :: "string \<Rightarrow> rule_id \<Rightarrow> int \<Rightarrow> binding list \<Rightarrow> string list" where
  "key_parts tenant rule revised group' =
     [tenant, rule, itoa revised] @ concat (map binding_parts (compact (sort_key binding_string group')))"

definition KeyFor :: "string \<Rightarrow> rule_id \<Rightarrow> int \<Rightarrow> binding list \<Rightarrow> state_key" where
  "KeyFor tenant rule revised group' =
     \<lparr>k_tenant = tenant, k_rule = rule, k_group = digest 16 (frame_all (key_parts tenant rule revised group'))\<rparr>"

section \<open>What a key tells apart\<close>

lemma concat_pairs_inject:
  assumes "\<And>x. length (f x) = 2" "\<And>x. length (g x) = 2"
  shows "concat (map f xs) = concat (map g ys) \<longleftrightarrow> map f xs = map g ys"
proof
  show "concat (map f xs) = concat (map g ys) \<Longrightarrow> map f xs = map g ys"
  proof (induction xs arbitrary: ys)
    case Nil
    then show ?case using assms(2) by (cases ys) (auto dest: arg_cong [of _ _ length])
  next
    case (Cons x xs)
    then obtain y ys' where ys: "ys = y # ys'" using assms by (cases ys) (auto dest: arg_cong [of _ _ length])
    with Cons.prems have "f x = g y" "concat (map f xs) = concat (map g ys')"
      using append_eq_append_conv [of "f x" "g y"] assms by auto
    with Cons.IH ys show ?case by simp
  qed
qed simp

text \<open>A group as its key writes it: which fields, in the order of the writing, and what each holds.\<close>

definition written_group :: "binding list \<Rightarrow> (field \<times> string) list" where
  "written_group group' =
     map (\<lambda>b. (b_field b, if b_absent b then absent_mark else b_value b)) (compact (sort_key binding_string group'))"

lemma map_pairs:
  "map (\<lambda>b. [f b, h b]) xs = map (\<lambda>b. [f b, h b]) ys \<longleftrightarrow> map (\<lambda>b. (f b, h b)) xs = map (\<lambda>b. (f b, h b)) ys"
proof (induction xs arbitrary: ys)
  case (Cons x xs)
  then show ?case by (cases ys) auto
qed simp

lemma key_parts_inject:
  "key_parts t r n g = key_parts t' r' n' g' \<longleftrightarrow> t = t' \<and> r = r' \<and> n = n' \<and> written_group g = written_group g'"
proof -
  have "map binding_parts xs = map binding_parts ys \<longleftrightarrow>
      map (\<lambda>b. (b_field b, if b_absent b then absent_mark else b_value b)) xs =
      map (\<lambda>b. (b_field b, if b_absent b then absent_mark else b_value b)) ys" for xs ys
    unfolding binding_parts_def by (rule map_pairs)
  then show ?thesis
    using concat_pairs_inject [of binding_parts binding_parts] by (auto simp: key_parts_def written_group_def binding_parts_def)
qed


section \<open>The order the group was read in\<close>

definition plain_field :: "field \<Rightarrow> bool" where
  "plain_field f \<longleftrightarrow> CHR '' '' \<notin> set f"

lemma binding_string_field:
  "plain_field (b_field b) \<Longrightarrow> takeWhile (\<lambda>c. c \<noteq> CHR '' '') (binding_string b) = b_field b"
  by (auto simp: binding_string_def plain_field_def takeWhile_tail)

lemma binding_string_inj:
  assumes "distinct (map b_field group')" "list_all (\<lambda>b. plain_field (b_field b)) group'"
  shows "inj_on binding_string (set group')"
proof (rule inj_onI)
  fix b b' assume "b \<in> set group'" "b' \<in> set group'" "binding_string b = binding_string b'"
  then show "b = b'"
    using assms binding_string_field by (metis distinct_map inj_onD list_all_iff)
qed


definition sample_group :: "binding list" where
  "sample_group =
     [\<lparr>b_field = ''user.name'', b_value = ''root'', b_absent = False\<rparr>,
      \<lparr>b_field = ''source.ip'', b_value = [], b_absent = True\<rparr>]"


text \<open>
  The mark written for a field an event does not carry is a text an event can carry: a group in
  which the field is absent and a group in which it holds that text are kept under one key.
\<close>

theorem absent_shares_a_key:
  "KeyFor t r n [\<lparr>b_field = f, b_value = [], b_absent = True\<rparr>] =
   KeyFor t r n [\<lparr>b_field = f, b_value = absent_mark, b_absent = False\<rparr>]"
  by (simp add: KeyFor_def key_parts_def binding_parts_def)

end
