(* ===== verification/Lifecycle.thy ===== *)
theory Lifecycle
  imports Go_Prelude "HOL-Library.Word"
begin

text \<open>
  The contract every record with a life shares (alerts, incidents, agents): a move is applied to the
  record as it is and gives the record as it becomes together with one line of the trail, or an
  error and nothing. The locale states what each of the three \<^verbatim>\<open>Apply\<close> functions promises, and the
  lemmas are what follows for a whole history: the trail has no gap and no fork, the record is where
  its last line says, and a caller who read an older revision is told rather than overwriting.
\<close>

type_synonym revision = "64 word"

text \<open>A store's history: each move is applied to what the moves before it left, or refused.\<close>

fun run_moves :: "('r \<Rightarrow> 'm \<Rightarrow> 'e + 'r \<times> 't) \<Rightarrow> 'r \<Rightarrow> 'm list \<Rightarrow> 'r \<times> 't list" where
  "run_moves act r [] = (r, [])"
| "run_moves act r (m # ms) =
     (case act r m of
        Inl _ \<Rightarrow> run_moves act r ms
      | Inr (r', t) \<Rightarrow> (case run_moves act r' ms of (r'', ts) \<Rightarrow> (r'', t # ts)))"

text \<open>A trail that leads from one state to another, every line a legal change or none.\<close>

fun linked :: "('t \<Rightarrow> 's) \<Rightarrow> ('t \<Rightarrow> 's) \<Rightarrow> ('s \<Rightarrow> 's \<Rightarrow> bool) \<Rightarrow> 's \<Rightarrow> 't list \<Rightarrow> 's \<Rightarrow> bool" where
  "linked src dst legal s [] s' = (s = s')"
| "linked src dst legal s (t # ts) s' =
     (src t = s \<and> (dst t = s \<or> legal s (dst t)) \<and> linked src dst legal (dst t) ts s')"

fun numbered :: "('t \<Rightarrow> revision) \<Rightarrow> revision \<Rightarrow> 't list \<Rightarrow> bool" where
  "numbered number n [] = True"
| "numbered number n (t # ts) = (number t = n + 1 \<and> numbered number (n + 1) ts)"

locale lifecycle =
  fixes apply_move :: "'r \<Rightarrow> 'm \<Rightarrow> 'e + 'r \<times> 't"
    and revision :: "'r \<Rightarrow> revision"
    and state_of :: "'r \<Rightarrow> 's"
    and trail_revision :: "'t \<Rightarrow> revision"
    and trail_from :: "'t \<Rightarrow> 's"
    and trail_to :: "'t \<Rightarrow> 's"
    and expected :: "'m \<Rightarrow> revision"
    and legal :: "'s \<Rightarrow> 's \<Rightarrow> bool"
  assumes revision_step: "apply_move r m = Inr (r', t) \<Longrightarrow> revision r' = revision r + 1"
    and trail_step:
      "apply_move r m = Inr (r', t) \<Longrightarrow>
       trail_revision t = revision r' \<and> trail_from t = state_of r \<and> trail_to t = state_of r'"
    and state_step: "apply_move r m = Inr (r', t) \<Longrightarrow> state_of r' = state_of r \<or> legal (state_of r) (state_of r')"
    and expected_held: "apply_move r m = Inr (r', t) \<Longrightarrow> expected m = 0 \<or> expected m = revision r"
begin

lemma trail_leads:
  "run_moves apply_move r ms = (r', ts) \<Longrightarrow>
   linked trail_from trail_to legal (state_of r) ts (state_of r') \<and>
   numbered trail_revision (revision r) ts \<and> revision r' = revision r + of_nat (length ts)"
proof (induction ms arbitrary: r ts)
  case (Cons m ms)
  show ?case
  proof (cases "apply_move r m")
    case (Inl e)
    with Cons show ?thesis by simp
  next
    case (Inr p)
    obtain r1 t where p: "p = (r1, t)" by (cases p)
    obtain r2 ts' where rest: "run_moves apply_move r1 ms = (r2, ts')" by (cases "run_moves apply_move r1 ms")
    from Cons.prems Inr p rest have out: "ts = t # ts'" "r2 = r'" by auto
    have step: "apply_move r m = Inr (r1, t)" using Inr p by simp
    from Cons.IH [of r1 ts'] rest out(2)
    have "linked trail_from trail_to legal (state_of r1) ts' (state_of r')"
      "numbered trail_revision (revision r1) ts'" "revision r' = revision r1 + of_nat (length ts')"
      by auto
    then show ?thesis
      using revision_step [OF step] trail_step [OF step] state_step [OF step] out(1) by simp
  qed
qed simp

text \<open>Of two callers who read the same revision, the second is refused.\<close>

lemma second_is_told:
  assumes "apply_move r m = Inr (r', t)" "expected m' = revision r" "expected m' \<noteq> 0"
  shows "\<exists>e. apply_move r' m' = Inl e"
proof (cases "apply_move r' m'")
  case (Inr p)
  then have "expected m' = 0 \<or> expected m' = revision r'"
    using expected_held [of r' m' "fst p" "snd p"] by simp
  then show ?thesis using assms revision_step [OF assms(1)] by simp
qed simp

lemma run_invariant:
  assumes "\<And>r m r' t. keeps r \<Longrightarrow> apply_move r m = Inr (r', t) \<Longrightarrow> keeps r'"
  shows "keeps r \<Longrightarrow> run_moves apply_move r ms = (r', ts) \<Longrightarrow> keeps r'"
proof (induction ms arbitrary: r ts)
  case (Cons m ms)
  then show ?case using assms by (fastforce split: sum.splits prod.splits)
qed simp

end

end
