(* ===== verification/Go_Quote.thy ===== *)
theory Go_Quote
  imports Go_Strings
begin

text \<open>
  \<^verbatim>\<open>unicode/utf8\<close> and the quoting half of \<^verbatim>\<open>strconv\<close>: decoding and encoding a rune,
  \<^verbatim>\<open>ValidString\<close>, \<^verbatim>\<open>Quote\<close> and \<^verbatim>\<open>Unquote\<close>. Which code points past ASCII are printable is Unicode's
  own table and an argument of \<^verbatim>\<open>Quote\<close>; nothing proved here depends on it. The two results the
  components use are that unquoting a quoted string gives the string back, whatever bytes it
  holds, and that quoting spends at most four bytes on each byte and two on the quotes.
\<close>

abbreviation byte :: "char \<Rightarrow> nat" where
  "byte c \<equiv> of_char c"

lemma byte_less [simp]: "byte c < 256"
  by (rule nat_of_char_less_256)

section \<open>UTF-8\<close>

definition RuneError :: nat where "RuneError = 0xFFFD"
definition MaxRune :: nat where "MaxRune = 0x10FFFF"

definition ValidRune :: "nat \<Rightarrow> bool" where
  "ValidRune r = (r < 0xD800 \<or> 0xDFFF < r \<and> r \<le> MaxRune)"

definition within :: "nat \<Rightarrow> nat \<Rightarrow> char \<Rightarrow> bool" where
  "within lo hi c = (lo \<le> byte c \<and> byte c \<le> hi)"

definition low3 :: "nat \<Rightarrow> nat" where "low3 b = (if b = 0xE0 then 0xA0 else 0x80)"
definition high3 :: "nat \<Rightarrow> nat" where "high3 b = (if b = 0xED then 0x9F else 0xBF)"
definition low4 :: "nat \<Rightarrow> nat" where "low4 b = (if b = 0xF0 then 0x90 else 0x80)"
definition high4 :: "nat \<Rightarrow> nat" where "high4 b = (if b = 0xF4 then 0x8F else 0xBF)"

text \<open>The rune a string begins with and its width; an invalid encoding is \<open>(RuneError, 1)\<close>.\<close>

definition decode2 :: "char \<Rightarrow> string \<Rightarrow> nat \<times> nat" where
  "decode2 a s =
     (case s of b # _ \<Rightarrow>
        if within 0x80 0xBF b then ((byte a - 0xC0) * 64 + (byte b - 0x80), 2) else (RuneError, 1)
      | _ \<Rightarrow> (RuneError, 1))"

definition decode3 :: "char \<Rightarrow> string \<Rightarrow> nat \<times> nat" where
  "decode3 a s =
     (case s of b # c # _ \<Rightarrow>
        if within (low3 (byte a)) (high3 (byte a)) b \<and> within 0x80 0xBF c
        then ((byte a - 0xE0) * 4096 + (byte b - 0x80) * 64 + (byte c - 0x80), 3) else (RuneError, 1)
      | _ \<Rightarrow> (RuneError, 1))"

definition decode4 :: "char \<Rightarrow> string \<Rightarrow> nat \<times> nat" where
  "decode4 a s =
     (case s of b # c # d # _ \<Rightarrow>
        if within (low4 (byte a)) (high4 (byte a)) b \<and> within 0x80 0xBF c \<and> within 0x80 0xBF d
        then ((byte a - 0xF0) * 262144 + (byte b - 0x80) * 4096 + (byte c - 0x80) * 64 + (byte d - 0x80), 4)
        else (RuneError, 1)
      | _ \<Rightarrow> (RuneError, 1))"

fun DecodeRune :: "string \<Rightarrow> nat \<times> nat" where
  "DecodeRune [] = (RuneError, 0)"
| "DecodeRune (a # s) =
     (if byte a < 0x80 then (byte a, 1)
      else if within 0xC2 0xDF a then decode2 a s
      else if within 0xE0 0xEF a then decode3 a s
      else if within 0xF0 0xF4 a then decode4 a s
      else (RuneError, 1))"

definition encoded :: "nat \<Rightarrow> nat list" where
  "encoded r =
     (if r < 0x80 then [r]
      else if r < 0x800 then [0xC0 + r div 64, 0x80 + r mod 64]
      else if r < 0x10000 then [0xE0 + r div 4096, 0x80 + r div 64 mod 64, 0x80 + r mod 64]
      else [0xF0 + r div 262144, 0x80 + r div 4096 mod 64, 0x80 + r div 64 mod 64, 0x80 + r mod 64])"

definition AppendRune :: "nat \<Rightarrow> string" where
  "AppendRune r = map char_of (encoded (if ValidRune r then r else RuneError))"

lemma decode_width: "s \<noteq> [] \<Longrightarrow> DecodeRune s = (r, w) \<Longrightarrow> 0 < w \<and> w \<le> length s"
  by (cases s) (auto simp: decode2_def decode3_def decode4_def split: if_splits list.splits)

function ValidString :: "string \<Rightarrow> bool" where
  "ValidString s =
     (if s = [] then True
      else \<not> DecodeRune s = (RuneError, 1) \<and> ValidString (drop (snd (DecodeRune s)) s))"
  by pat_completeness auto
termination
proof (relation "measure length")
  fix s :: string
  assume "s \<noteq> []"
  with decode_width [of s] show "(drop (snd (DecodeRune s)) s, s) \<in> measure length"
    by (cases "DecodeRune s") auto
qed simp

declare ValidString.simps [simp del]

text \<open>Encoding what was decoded gives the bytes it was decoded from.\<close>

definition sound_decode :: "string \<Rightarrow> nat \<times> nat \<Rightarrow> bool" where
  "sound_decode s rw \<longleftrightarrow>
     rw = (RuneError, 1) \<or> ValidRune (fst rw) \<and> map char_of (encoded (fst rw)) = take (snd rw) s"

lemma split64: "(b :: nat) < 64 \<Longrightarrow> (a * 64 + b) div 64 = a \<and> (a * 64 + b) mod 64 = b"
  by simp

lemma sound_decode2:
  assumes "within 0xC2 0xDF a"
  shows "sound_decode (a # t) (decode2 a t)"
proof (cases "\<exists>b t'. t = b # t' \<and> within 0x80 0xBF b")
  case False
  then have "decode2 a t = (RuneError, 1)" by (cases t) (simp_all add: decode2_def)
  then show ?thesis by (simp add: sound_decode_def)
next
  case True
  then obtain b t' where t: "t = b # t'" "within 0x80 0xBF b" by blast
  define x y where "x = byte a - 0xC0" and "y = byte b - 0x80"
  have xy: "byte a = 0xC0 + x" "byte b = 0x80 + y" "2 \<le> x" "x < 32" "y < 64"
    using assms t by (auto simp: within_def x_def y_def)
  define r where "r = x * 64 + y"
  have d: "decode2 a t = (r, 2)" using t xy by (simp add: decode2_def r_def)
  have "r div 64 = x" "r mod 64 = y" "0x80 \<le> r" "r < 0x800" using xy by (auto simp: r_def)
  with d t(1) show ?thesis
    by (simp add: sound_decode_def ValidRune_def encoded_def flip: xy(1,2))
qed

lemma sound_decode3:
  assumes "within 0xE0 0xEF a"
  shows "sound_decode (a # t) (decode3 a t)"
proof (cases "\<exists>b c t'. t = b # c # t' \<and> within (low3 (byte a)) (high3 (byte a)) b \<and> within 0x80 0xBF c")
  case False
  then have "decode3 a t = (RuneError, 1)" by (cases t; cases "tl t"; simp add: decode3_def)
  then show ?thesis by (simp add: sound_decode_def)
next
  case True
  then obtain b c t' where t: "t = b # c # t'" "within (low3 (byte a)) (high3 (byte a)) b" "within 0x80 0xBF c"
    by blast
  define x y z where "x = byte a - 0xE0" and "y = byte b - 0x80" and "z = byte c - 0x80"
  have xyz: "byte a = 0xE0 + x" "byte b = 0x80 + y" "byte c = 0x80 + z" "x < 16" "y < 64" "z < 64"
    "x = 0 \<longrightarrow> 32 \<le> y" "x = 13 \<longrightarrow> y < 32"
    using assms t by (auto simp: within_def x_def y_def z_def low3_def high3_def split: if_splits)
  define r where "r = (x * 64 + y) * 64 + z"
  have d: "decode3 a t = (r, 3)"
    using t xyz(1-3) by (simp add: decode3_def r_def algebra_simps)
  have q: "r div 64 = x * 64 + y" "r mod 64 = z" unfolding r_def using split64 [OF xyz(6)] by blast+
  have "r div 4096 = r div 64 div 64" by (simp add: div_mult2_eq [symmetric])
  then have e: "r div 4096 = x" "r div 64 mod 64 = y" using q xyz(5) by auto
  have "0x800 \<le> r" "r < 0x10000" "r < 0xD800 \<or> 0xDFFF < r"
    using xyz(4-8) unfolding r_def by (cases "x = 0"; cases "x = 13"; cases "x < 13"; simp; linarith)+
  with d t(1) q e show ?thesis
    by (simp add: sound_decode_def ValidRune_def MaxRune_def encoded_def flip: xyz(1-3))
qed

lemma sound_decode4:
  assumes "within 0xF0 0xF4 a"
  shows "sound_decode (a # t) (decode4 a t)"
proof (cases "\<exists>b c d t'. t = b # c # d # t' \<and> within (low4 (byte a)) (high4 (byte a)) b \<and> within 0x80 0xBF c \<and> within 0x80 0xBF d")
  case False
  then have "decode4 a t = (RuneError, 1)"
    by (cases t; cases "tl t"; cases "tl (tl t)"; simp add: decode4_def)
  then show ?thesis by (simp add: sound_decode_def)
next
  case True
  then obtain b c d t' where t: "t = b # c # d # t'" "within (low4 (byte a)) (high4 (byte a)) b"
    "within 0x80 0xBF c" "within 0x80 0xBF d"
    by blast
  define x y z u where "x = byte a - 0xF0" and "y = byte b - 0x80" and "z = byte c - 0x80" and "u = byte d - 0x80"
  have xyz: "byte a = 0xF0 + x" "byte b = 0x80 + y" "byte c = 0x80 + z" "byte d = 0x80 + u"
    "x \<le> 4" "y < 64" "z < 64" "u < 64" "x = 0 \<longrightarrow> 16 \<le> y" "x = 4 \<longrightarrow> y < 16"
    using assms t by (auto simp: within_def x_def y_def z_def u_def low4_def high4_def split: if_splits)
  define r where "r = ((x * 64 + y) * 64 + z) * 64 + u"
  have dec: "decode4 a t = (r, 4)"
    using t xyz(1-4) by (simp add: decode4_def r_def algebra_simps)
  have q: "r div 64 = (x * 64 + y) * 64 + z" "r mod 64 = u" unfolding r_def using split64 [OF xyz(8)] by blast+
  have "r div 4096 = r div 64 div 64" "r div 262144 = r div 64 div 64 div 64"
    by (simp_all add: div_mult2_eq [symmetric])
  then have e: "r div 262144 = x" "r div 4096 mod 64 = y" "r div 64 mod 64 = z"
    using q split64 [OF xyz(7)] split64 [OF xyz(6)] by metis+
  have "0x10000 \<le> r" "r \<le> 0x10FFFF"
    using xyz(5-10) unfolding r_def by (cases "x = 0"; cases "x = 4"; simp; linarith)+
  with dec t(1) q e show ?thesis
    by (simp add: sound_decode_def ValidRune_def MaxRune_def encoded_def flip: xyz(1-4))
qed

lemma decode_encode:
  assumes "DecodeRune s = (r, w)" "s \<noteq> []" "\<not> (r = RuneError \<and> w = 1)"
  shows "ValidRune r \<and> map char_of (encoded r) = take w s"
proof -
  from assms(2) obtain a t where s: "s = a # t" by (cases s) auto
  have "byte a < 0x80 \<Longrightarrow> sound_decode s (byte a, 1)"
    by (simp add: sound_decode_def ValidRune_def encoded_def s)
  then have "sound_decode s (DecodeRune s)"
    using sound_decode2 [of a t] sound_decode3 [of a t] sound_decode4 [of a t]
    by (auto simp: s sound_decode_def)
  with assms(1,3) show ?thesis by (auto simp: sound_decode_def)
qed

section \<open>Quote\<close>

text \<open>\<^verbatim>\<open>strconv.IsPrint\<close>: ASCII as the library fixes it, the rest from Unicode's table.\<close>

definition IsPrint :: "(nat \<Rightarrow> bool) \<Rightarrow> nat \<Rightarrow> bool" where
  "IsPrint table r = (if r < 0x80 then 0x20 \<le> r \<and> r < 0x7F else table r)"

definition hex_char :: "nat \<Rightarrow> char" where
  "hex_char d = (if d < 10 then char_of (48 + d) else char_of (87 + d))"

fun hex_fixed :: "nat \<Rightarrow> nat \<Rightarrow> string" where
  "hex_fixed 0 n = []"
| "hex_fixed (Suc k) n = hex_fixed k (n div 16) @ [hex_char (n mod 16)]"

definition backslash :: char where "backslash = char_of (92 :: nat)"
definition dquote :: char where "dquote = char_of (34 :: nat)"

definition short_escape :: "nat \<Rightarrow> char option" where
  "short_escape r =
     map_of [(7, CHR ''a''), (8, CHR ''b''), (12, CHR ''f''), (10, CHR ''n''), (13, CHR ''r''),
       (9, CHR ''t''), (11, CHR ''v'')] r"

definition appendEscapedRune :: "(nat \<Rightarrow> bool) \<Rightarrow> nat \<Rightarrow> string" where
  "appendEscapedRune table r =
     (if r = 34 \<or> r = 92 then [backslash, char_of r]
      else if IsPrint table r then AppendRune r
      else case short_escape r of
        Some c \<Rightarrow> [backslash, c]
      | None \<Rightarrow>
          (if r < 0x20 \<or> r = 0x7F then backslash # CHR ''x'' # hex_fixed 2 r
           else if r < 0x10000 then backslash # CHR ''u'' # hex_fixed 4 r
           else backslash # CHR ''U'' # hex_fixed 8 r))"

definition quote_one :: "(nat \<Rightarrow> bool) \<Rightarrow> string \<Rightarrow> string" where
  "quote_one table s =
     (if DecodeRune s = (RuneError, 1) then backslash # CHR ''x'' # hex_fixed 2 (byte (hd s))
      else appendEscapedRune table (fst (DecodeRune s)))"

function quote_body :: "(nat \<Rightarrow> bool) \<Rightarrow> string \<Rightarrow> string" where
  "quote_body table s =
     (if s = [] then [] else quote_one table s @ quote_body table (drop (snd (DecodeRune s)) s))"
  by pat_completeness auto
termination
proof (relation "measure (length \<circ> snd)")
  fix s :: string and table :: "nat \<Rightarrow> bool"
  assume "s \<noteq> []"
  with decode_width [of s]
  show "((table, drop (snd (DecodeRune s)) s), table, s) \<in> measure (length \<circ> snd)"
    by (cases "DecodeRune s") auto
qed simp

declare quote_body.simps [simp del]

definition Quote :: "(nat \<Rightarrow> bool) \<Rightarrow> string \<Rightarrow> string" where
  "Quote table s = dquote # quote_body table s @ [dquote]"

section \<open>Unquote\<close>

definition unhex :: "char \<Rightarrow> nat option" where
  "unhex c =
     (let b = byte c in
      if 48 \<le> b \<and> b \<le> 57 then Some (b - 48)
      else if 97 \<le> b \<and> b \<le> 102 then Some (b - 87)
      else if 65 \<le> b \<and> b \<le> 70 then Some (b - 55)
      else None)"

fun read_hex :: "nat \<Rightarrow> nat \<Rightarrow> string \<Rightarrow> (nat \<times> string) option" where
  "read_hex 0 v s = Some (v, s)"
| "read_hex (Suc n) v [] = None"
| "read_hex (Suc n) v (c # s) =
     (case unhex c of None \<Rightarrow> None | Some x \<Rightarrow> read_hex n (16 * v + x) s)"

fun read_octal :: "nat \<Rightarrow> nat \<Rightarrow> string \<Rightarrow> (nat \<times> string) option" where
  "read_octal 0 v s = Some (v, s)"
| "read_octal (Suc n) v [] = None"
| "read_octal (Suc n) v (c # s) =
     (if 48 \<le> byte c \<and> byte c \<le> 55 then read_octal n (8 * v + (byte c - 48)) s else None)"

definition wide_escape :: "nat \<Rightarrow> string \<Rightarrow> (nat \<times> bool \<times> string) option" where
  "wide_escape n s =
     (case read_hex n 0 s of None \<Rightarrow> None
      | Some (v, rest) \<Rightarrow> if ValidRune v then Some (v, True, rest) else None)"

definition long_escape :: "char \<Rightarrow> char \<Rightarrow> string \<Rightarrow> (nat \<times> bool \<times> string) option" where
  "long_escape qt c s =
     (if c = CHR ''x'' then map_option (\<lambda>(v, rest). (v, False, rest)) (read_hex 2 0 s)
      else if c = CHR ''u'' then wide_escape 4 s
      else if c = CHR ''U'' then wide_escape 8 s
      else if 48 \<le> byte c \<and> byte c \<le> 55 then
        (case read_octal 2 (byte c - 48) s of None \<Rightarrow> None
         | Some (v, rest) \<Rightarrow> if 255 < v then None else Some (v, False, rest))
      else if c = backslash then Some (92, False, s)
      else if byte c = 39 \<or> c = dquote then (if c \<noteq> qt then None else Some (byte c, False, s))
      else None)"

definition unescape_letter :: "char \<Rightarrow> nat option" where
  "unescape_letter c =
     map_of [(CHR ''a'', 7), (CHR ''b'', 8), (CHR ''f'', 12), (CHR ''n'', 10), (CHR ''r'', 13),
       (CHR ''t'', 9), (CHR ''v'', 11)] c"

text \<open>One character: its value, whether it is a rune to encode rather than a byte, and the rest.\<close>

fun UnquoteChar :: "char \<Rightarrow> string \<Rightarrow> (nat \<times> bool \<times> string) option" where
  "UnquoteChar qt [] = None"
| "UnquoteChar qt (c # s) =
     (if c = qt \<and> (byte qt = 39 \<or> qt = dquote) then None
      else if 0x80 \<le> byte c then Some (fst (DecodeRune (c # s)), True, drop (snd (DecodeRune (c # s))) (c # s))
      else if c \<noteq> backslash then Some (byte c, False, s)
      else case s of
        [] \<Rightarrow> None
      | e # t \<Rightarrow> (case unescape_letter e of Some v \<Rightarrow> Some (v, False, t) | None \<Rightarrow> long_escape qt e t))"

definition unquoted_bytes :: "nat \<Rightarrow> bool \<Rightarrow> string" where
  "unquoted_bytes r multibyte = (if r < 0x80 \<or> \<not> multibyte then [char_of r] else AppendRune r)"

text \<open>
  The loop of \<^verbatim>\<open>unquote\<close>: it ends at the closing quote, after one character when the quotes are
  single, and fails on an unescaped newline. What it has left is everything from the closing quote.
  The fuel is the length of the input, of which every character takes at least one byte.
\<close>

fun unquote_loop :: "nat \<Rightarrow> char \<Rightarrow> string \<Rightarrow> (string \<times> string) option" where
  "unquote_loop 0 qt s = Some ([], s)"
| "unquote_loop (Suc fuel) qt s =
     (if s = [] \<or> hd s = qt then Some ([], s)
      else case UnquoteChar qt s of
        None \<Rightarrow> None
      | Some (r, multibyte, rest) \<Rightarrow>
          (if byte (hd s) = 10 then None
           else if byte qt = 39 then Some (unquoted_bytes r multibyte, rest)
           else map_option (\<lambda>(out, rest'). (unquoted_bytes r multibyte @ out, rest'))
                  (unquote_loop fuel qt rest)))"

definition unquote_raw :: "string \<Rightarrow> string option" where
  "unquote_raw s =
     (case cut_at (char_of (96 :: nat)) s of (inner, rest, found) \<Rightarrow>
        if found \<and> rest = [] then Some (filter (\<lambda>c. byte c \<noteq> 13) inner) else None)"

definition Unquote :: "string \<Rightarrow> string option" where
  "Unquote s =
     (if length s < 2 then None
      else if byte (hd s) = 96 then unquote_raw (tl s)
      else if hd s = dquote \<or> byte (hd s) = 39 then
        (case unquote_loop (length s) (hd s) (tl s) of
           Some (out, [c]) \<Rightarrow> if c = hd s then Some out else None
         | _ \<Rightarrow> None)
      else None)"

section \<open>The round trip\<close>

lemma unhex_hex_char [simp]: "d < 16 \<Longrightarrow> unhex (hex_char d) = Some d"
  by (auto simp: unhex_def hex_char_def Let_def)

lemma read_hex_add:
  "read_hex (m + n) v s = Option.bind (read_hex m v s) (\<lambda>(v', s'). read_hex n v' s')"
  by (induction m v s rule: read_hex.induct) (auto split: option.splits)

lemma read_hex_fixed: "m < 16 ^ n \<Longrightarrow> read_hex n v (hex_fixed n m @ s) = Some (16 ^ n * v + m, s)"
proof (induction n arbitrary: m v s)
  case (Suc n)
  have "m div 16 < 16 ^ n" using Suc.prems by (simp add: less_mult_imp_div_less mult.commute)
  with Suc.IH [of "m div 16" v "hex_char (m mod 16) # s"]
  have "read_hex n v (hex_fixed (Suc n) m @ s) = Some (16 ^ n * v + m div 16, hex_char (m mod 16) # s)"
    by simp
  then show ?case using read_hex_add [of n 1 v "hex_fixed (Suc n) m @ s"] by simp
qed simp

lemma length_hex_fixed [simp]: "length (hex_fixed n m) = n"
  by (induction n arbitrary: m) simp_all

lemma quote_bytes [simp]: "byte backslash = 92" "byte dquote = 34"
  by (simp_all add: backslash_def dquote_def)

lemma backslash_not_dquote [simp]: "backslash \<noteq> dquote" "dquote \<noteq> backslash"
  by (metis quote_bytes numeral_eq_iff semiring_norm(87,88))+

lemma char_eq_byte: "c = d \<longleftrightarrow> byte c = byte d"
  by (metis char_of_char)

lemma unescape_short: "short_escape r = Some c \<Longrightarrow> unescape_letter c = Some r \<and> r < 0x80"
  by (auto simp: short_escape_def unescape_letter_def split: if_splits)

lemma unescape_hex [simp]:
  "unescape_letter CHR ''x'' = None" "unescape_letter CHR ''u'' = None" "unescape_letter CHR ''U'' = None"
  "unescape_letter backslash = None" "unescape_letter dquote = None"
  by (simp_all add: unescape_letter_def char_eq_byte)

lemma UnquoteChar_escape:
  "UnquoteChar dquote (backslash # e # t) =
     (case unescape_letter e of Some v \<Rightarrow> Some (v, False, t) | None \<Rightarrow> long_escape dquote e t)"
  by simp

text \<open>Decoding reads no further than the rune.\<close>

lemma decode_local:
  assumes "DecodeRune s = (r, w)" "s \<noteq> []" "(r, w) \<noteq> (RuneError, 1)"
  shows "DecodeRune (take w s @ t) = (r, w)"
proof -
  from assms(2) obtain a u where s: "s = a # u" by (cases s) auto
  show ?thesis
    using assms(1,3) unfolding s
    by (auto simp: decode2_def decode3_def decode4_def split: if_splits list.splits)
qed

lemma length_encoded:
  "ValidRune r \<Longrightarrow> (length (encoded r) = 1 \<longleftrightarrow> r < 0x80) \<and> (0x10000 \<le> r \<longrightarrow> length (encoded r) = 4)"
  by (simp add: encoded_def)

lemma encoded_high: "0x80 \<le> r \<Longrightarrow> ValidRune r \<Longrightarrow> 0x80 \<le> byte (hd (map char_of (encoded r) :: string))"
  by (auto simp: encoded_def ValidRune_def MaxRune_def)

text \<open>What reading one quoted rune gives: the bytes the rune was, and the rest.\<close>

definition reads_back :: "string \<Rightarrow> string \<Rightarrow> bool" where
  "reads_back out q \<longleftrightarrow>
     q \<noteq> [] \<and> hd q \<noteq> dquote \<and> byte (hd q) \<noteq> 10 \<and>
     (\<forall>t. \<exists>r multibyte. UnquoteChar dquote (q @ t) = Some (r, multibyte, t) \<and> unquoted_bytes r multibyte = out)"

lemma reads_backI:
  assumes "q \<noteq> []" "hd q \<noteq> dquote" "byte (hd q) \<noteq> 10"
    and "\<And>t. UnquoteChar dquote (q @ t) = Some (r, multibyte, t)" "unquoted_bytes r multibyte = out"
  shows "reads_back out q"
  using assms unfolding reads_back_def by blast

lemma reads_back_escape:
  assumes "\<And>t. UnquoteChar dquote (backslash # e @ t) = Some (r, multibyte, t)"
    and "unquoted_bytes r multibyte = out"
  shows "reads_back out (backslash # e)"
  by (rule reads_backI [of _ r multibyte]) (use assms in simp_all)

lemma reads_back_byte:
  assumes "b < 256" shows "reads_back [char_of b] (backslash # CHR ''x'' # hex_fixed 2 b)"
proof (rule reads_back_escape)
  show "UnquoteChar dquote (backslash # (CHR ''x'' # hex_fixed 2 b) @ t) = Some (b, False, t)" for t
    using read_hex_fixed [of b 2 0 t] assms
    by (simp add: UnquoteChar_escape long_escape_def del: UnquoteChar.simps hex_fixed.simps)
qed (simp add: unquoted_bytes_def)

lemma reads_back_wide:
  assumes "ValidRune r" "0x80 \<le> r" "n = 4 \<and> c = CHR ''u'' \<or> n = 8 \<and> c = CHR ''U''" "r < 16 ^ n"
  shows "reads_back (map char_of (encoded r)) (backslash # c # hex_fixed n r)"
proof (rule reads_back_escape)
  have "unescape_letter c = None" using assms(3) by auto
  then show "UnquoteChar dquote (backslash # (c # hex_fixed n r) @ t) = Some (r, True, t)" for t
    using read_hex_fixed [OF assms(4), of 0 t] assms(1,3)
    by (elim disjE conjE)
       (simp_all add: UnquoteChar_escape long_escape_def wide_escape_def del: UnquoteChar.simps hex_fixed.simps)
  show "unquoted_bytes r True = map char_of (encoded r)"
    using assms(1,2) by (simp add: unquoted_bytes_def AppendRune_def)
qed

lemma reads_back_printed:
  assumes "DecodeRune s = (r, w)" "s \<noteq> []" "(r, w) \<noteq> (RuneError, 1)"
    and "IsPrint table r" "r \<noteq> 34" "r \<noteq> 92"
  shows "reads_back (take w s) (AppendRune r)"
proof -
  have v: "ValidRune r" "map char_of (encoded r) = take w s" using decode_encode assms(1-3) by auto
  then have a: "AppendRune r = take w s" by (simp add: AppendRune_def)
  have w: "take w s \<noteq> []" using decode_width assms(1,2) by fastforce
  show ?thesis
  proof (cases "r < 0x80")
    case True
    then have one: "take w s = [char_of r]" using v(2) by (simp add: encoded_def)
    have "byte (char_of r) = r" using True by simp
    then have "char_of r \<noteq> dquote" "char_of r \<noteq> backslash" "byte (char_of r) \<noteq> 10"
      using assms(4-6) True by (auto simp: char_eq_byte IsPrint_def)
    then show ?thesis
      unfolding a one using True by (intro reads_backI [of _ r False]) (simp_all add: unquoted_bytes_def)
  next
    case False
    then have h: "0x80 \<le> byte (hd (take w s))" using encoded_high v by (metis not_less)
    then obtain c u where cu: "take w s = c # u" "0x80 \<le> byte c" using w by (cases "take w s") auto
    have "c \<noteq> dquote" "byte c \<noteq> 10" using cu(2) by (auto simp: char_eq_byte)
    moreover have "UnquoteChar dquote (take w s @ t) = Some (r, True, t)" for t
    proof -
      have "length (take w s) = w" using decode_width assms(1,2) by fastforce
      with decode_local [OF assms(1-3), of t] \<open>c \<noteq> dquote\<close> cu show ?thesis by (auto simp del: DecodeRune.simps)
    qed
    moreover have "unquoted_bytes r True = take w s" using a False by (simp add: unquoted_bytes_def)
    ultimately show ?thesis unfolding a using cu by (intro reads_backI [of _ r True]) simp_all
  qed
qed

lemma reads_back_quote_one:
  assumes "DecodeRune s = (r, w)" "s \<noteq> []"
  shows "reads_back (take w s) (quote_one table s)"
proof (cases "(r, w) = (RuneError, 1)")
  case True
  obtain a u where s: "s = a # u" using assms(2) by (cases s) auto
  have "reads_back [char_of (byte a)] (backslash # CHR ''x'' # hex_fixed 2 (byte a))"
    by (rule reads_back_byte) simp
  with True assms(1) s show ?thesis by (simp add: quote_one_def del: hex_fixed.simps DecodeRune.simps)
next
  case False
  then have v: "ValidRune r" and e: "take w s = map char_of (encoded r)" using decode_encode assms by auto
  have q: "quote_one table s = appendEscapedRune table r" using False assms(1) by (auto simp: quote_one_def)
  have one: "r < 0x80 \<Longrightarrow> take w s = [char_of r]" using e by (simp add: encoded_def)
  have sym: "r = 34 \<or> r = 92 \<Longrightarrow> reads_back [char_of r] [backslash, char_of r]"
    by (rule reads_back_escape [of _ r False])
       (auto simp: UnquoteChar_escape long_escape_def unquoted_bytes_def char_eq_byte unescape_letter_def
         simp del: UnquoteChar.simps)
  have short: "reads_back [char_of r] [backslash, c]" if "short_escape r = Some c" for c
    using unescape_short [OF that]
    by (intro reads_back_escape [of _ r False])
       (simp_all add: UnquoteChar_escape unquoted_bytes_def del: UnquoteChar.simps)
  have wide: "r < 16 ^ 8" using v by (auto simp: ValidRune_def MaxRune_def)
  consider "r = 34 \<or> r = 92" | "r \<noteq> 34" "r \<noteq> 92" "IsPrint table r"
    | c where "r \<noteq> 34" "r \<noteq> 92" "\<not> IsPrint table r" "short_escape r = Some c"
    | "r \<noteq> 34" "r \<noteq> 92" "\<not> IsPrint table r" "short_escape r = None" "r < 0x20 \<or> r = 0x7F"
    | "\<not> IsPrint table r" "short_escape r = None" "0x80 \<le> r"
  proof -
    have "\<not> IsPrint table r \<Longrightarrow> r < 0x20 \<or> r = 0x7F \<or> 0x80 \<le> r" by (auto simp: IsPrint_def split: if_splits)
    then show thesis using that by (cases "short_escape r") blast+
  qed
  then show ?thesis
  proof cases
    case 1
    then have "take w s = [char_of r]" using one by auto
    then show ?thesis using sym [OF 1] 1 by (simp add: q appendEscapedRune_def)
  next
    case 2
    then show ?thesis using reads_back_printed [OF assms False] by (simp add: q appendEscapedRune_def)
  next
    case 3
    then have "take w s = [char_of r]" using one unescape_short by blast
    then show ?thesis using short 3 by (simp add: q appendEscapedRune_def)
  next
    case 4
    then have "take w s = [char_of r]" using one by auto
    then show ?thesis
      using reads_back_byte [of r] 4 unfolding q appendEscapedRune_def by (simp only: if_False if_True option.case) auto
  next
    case 5
    then show ?thesis
      using reads_back_wide [OF v, of 4 "CHR ''u''"] reads_back_wide [OF v _ _ wide, of "CHR ''U''"] e
      unfolding q appendEscapedRune_def by (simp del: hex_fixed.simps)
  qed
qed

lemma unquote_loop_quote:
  "length (quote_body table s) < fuel \<Longrightarrow>
   unquote_loop fuel dquote (quote_body table s @ [dquote]) = Some (s, [dquote])"
proof (induction table s arbitrary: fuel rule: quote_body.induct)
  case (1 table s)
  obtain k where k: "fuel = Suc k" using 1(2) by (cases fuel) auto
  show ?case
  proof (cases "s = []")
    case True
    then show ?thesis by (simp add: k quote_body.simps)
  next
    case False
    obtain r w where rw: "DecodeRune s = (r, w)" by (cases "DecodeRune s")
    have rb: "reads_back (take w s) (quote_one table s)" by (rule reads_back_quote_one [OF rw False])
    have q: "quote_body table s = quote_one table s @ quote_body table (drop w s)"
      using False rw by (simp add: quote_body.simps [of table s])
    obtain x mb where x: "UnquoteChar dquote (quote_body table s @ [dquote]) =
        Some (x, mb, quote_body table (drop w s) @ [dquote])" "unquoted_bytes x mb = take w s"
      using rb unfolding reads_back_def q by fastforce
    have "length (quote_body table (drop w s)) < k"
      using 1(2) rb unfolding k q reads_back_def by (cases "quote_one table s") auto
    then have "unquote_loop k dquote (quote_body table (drop w s) @ [dquote]) = Some (drop w s, [dquote])"
      using 1(1) [OF False] rw by simp
    then show ?thesis
      using x rb unfolding k reads_back_def
      by (auto simp: q simp del: UnquoteChar.simps)
  qed
qed

theorem Unquote_Quote: "Unquote (Quote table s) = Some s"
  using unquote_loop_quote [of table s "length (quote_body table s) + 2"]
  by (simp add: Unquote_def Quote_def del: unquote_loop.simps)

lemma Quote_inject: "Quote table s = Quote table t \<longleftrightarrow> s = t"
  by (metis Unquote_Quote option.inject)

section \<open>What quoting costs\<close>

lemma length_quote_one:
  assumes "DecodeRune s = (r, w)" "s \<noteq> []"
  shows "length (quote_one table s) \<le> 4 * w"
proof (cases "(r, w) = (RuneError, 1)")
  case True
  with assms show ?thesis by (simp add: quote_one_def)
next
  case False
  have v: "ValidRune r" "map char_of (encoded r) = take w s" using decode_encode assms False by auto
  have "w \<le> length s" "0 < w" using decode_width assms by auto
  with v(2) have w: "length (encoded r) = w" by (metis length_map length_take min.absorb2)
  have q: "quote_one table s = appendEscapedRune table r" using False assms(1) by (auto simp: quote_one_def)
  have "\<not> r < 0x80 \<Longrightarrow> 2 \<le> w" using length_encoded [OF v(1)] w \<open>0 < w\<close> by linarith
  then show ?thesis
    unfolding q using v(1) w \<open>0 < w\<close> length_encoded [OF v(1)]
    by (auto simp: appendEscapedRune_def AppendRune_def IsPrint_def split: option.split)
qed

lemma length_quote_body: "length (quote_body table s) \<le> 4 * length s"
proof (induction table s rule: quote_body.induct)
  case (1 table s)
  show ?case
  proof (cases "s = []")
    case False
    obtain r w where rw: "DecodeRune s = (r, w)" by (cases "DecodeRune s")
    have "quote_body table s = quote_one table s @ quote_body table (drop w s)"
      using False rw by (simp add: quote_body.simps [of table s])
    moreover have "length (quote_body table (drop w s)) \<le> 4 * length (drop w s)"
      using 1 [OF False] rw by simp
    moreover have "w \<le> length s" using decode_width rw False by blast
    ultimately show ?thesis using length_quote_one [OF rw False, of table] by simp
  qed (simp add: quote_body.simps)
qed

theorem length_Quote: "length (Quote table s) \<le> 4 * length s + 2"
  using length_quote_body [of table s] by (simp add: Quote_def)

end
