(* ===== verification/Event_Contract.thy ===== *)
theory Event_Contract
  imports Detection_Rule Go_Quote
begin

text \<open>
  The generated contract as the platform reads it through reflection (\<^verbatim>\<open>internal/detection/field.go\<close>,
  \<^verbatim>\<open>class.go\<close>). The contract itself is not part of the repository and is the parameter \<open>contract\<close>: the
  fields each message declares, the names of its enumerations, and, beside it, Unicode's table of
  printable code points and the parser of \<^verbatim>\<open>net/url\<close>, which gives the scheme and the host of a link. An event is the fields it carries, by name: \<^verbatim>\<open>Has\<close> is being among them, which
  is what the contract gives for a message, and for a scalar other than its zero value.
\<close>

section \<open>Descriptors\<close>

datatype pkind =
    BoolKind | EnumKind | Int32Kind | Sint32Kind | Uint32Kind | Int64Kind | Sint64Kind | Uint64Kind
  | Sfixed32Kind | Fixed32Kind | FloatKind | Sfixed64Kind | Fixed64Kind | DoubleKind
  | StringKind | BytesKind | MessageKind | GroupKind

record enum_desc =
  en_name :: string
  en_values :: "(int \<times> string) list"

record field_desc =
  fd_name :: string
  fd_kind :: pkind
  fd_list :: bool
  fd_map :: bool
  fd_message :: string
  fd_enum :: enum_desc
  fd_oneof :: bool

record contract =
  ct_event :: string
  ct_fields :: "string \<Rightarrow> field_desc list"
  ct_class_name :: "(int \<times> string) list"
  ct_severity_name :: "(int \<times> string) list"
  ct_activity_name :: "(int \<times> string) list"
  ct_outcome_name :: "(int \<times> string) list"
  ct_transport_name :: "(int \<times> string) list"
  ct_printable :: "nat \<Rightarrow> bool"
  ct_parse_url :: "string \<Rightarrow> (string \<times> string) option"

section \<open>Messages\<close>

datatype pvalue =
    VString string | VBool bool | VEnum int
  | VInt32 int | VInt64 int | VUint32 int | VUint64 int
  | VFloat32 float64 | VFloat64 float64
  | VMessage "(string \<times> pvalue) list"
  | VOpaque

type_synonym pmessage = "(string \<times> pvalue) list"

definition get_string :: "pmessage \<Rightarrow> string \<Rightarrow> string" where
  "get_string m f = (case lookup m f of Some (VString s) \<Rightarrow> s | _ \<Rightarrow> [])"

definition get_enum :: "pmessage \<Rightarrow> string \<Rightarrow> int" where
  "get_enum m f = (case lookup m f of Some (VEnum n) \<Rightarrow> n | _ \<Rightarrow> 0)"

definition get_int :: "pmessage \<Rightarrow> string \<Rightarrow> int" where
  "get_int m f = (case lookup m f of Some (VInt64 n) \<Rightarrow> n | Some (VInt32 n) \<Rightarrow> n | Some (VUint32 n) \<Rightarrow> n | _ \<Rightarrow> 0)"

text \<open>A message that is not set is the empty one to a getter, and \<open>None\<close> to a comparison with nil.\<close>

definition get_message :: "pmessage \<Rightarrow> string \<Rightarrow> pmessage option" where
  "get_message m f = (case lookup m f of Some (VMessage x) \<Rightarrow> Some x | _ \<Rightarrow> None)"

definition or_empty :: "pmessage option \<Rightarrow> pmessage" where
  "or_empty m = (case m of None \<Rightarrow> [] | Some x \<Rightarrow> x)"

record timestamp =
  ts_seconds :: int
  ts_nanos :: int

definition unix_epoch :: instant where "unix_epoch = 62135596800 * second"

definition AsTime :: "timestamp \<Rightarrow> instant" where
  "AsTime t = unix_epoch + ts_seconds t * second + ts_nanos t"

definition new_timestamp :: "instant \<Rightarrow> timestamp" where
  "new_timestamp t = \<lparr>ts_seconds = (t - unix_epoch) div second, ts_nanos = (t - unix_epoch) mod second\<rparr>"

definition time_of :: "timestamp option \<Rightarrow> instant" where
  "time_of t = (case t of None \<Rightarrow> unix_epoch | Some x \<Rightarrow> AsTime x)"

definition timestamp_valid :: "timestamp \<Rightarrow> bool" where
  "timestamp_valid t =
     (- 62135596800 \<le> ts_seconds t \<and> ts_seconds t \<le> 253402300799 \<and> 0 \<le> ts_nanos t \<and> ts_nanos t < 1000000000)"

definition get_timestamp :: "pmessage \<Rightarrow> string \<Rightarrow> timestamp option" where
  "get_timestamp m f =
     map_option (\<lambda>x. \<lparr>ts_seconds = get_int x ''seconds'', ts_nanos = get_int x ''nanos''\<rparr>) (get_message m f)"

lemma AsTime_new_timestamp [simp]: "AsTime (new_timestamp t) = t"
  using mult_div_mod_eq [of second "t - unix_epoch"]
  by (simp add: AsTime_def new_timestamp_def algebra_simps)

section \<open>Enumerations as a person writes them\<close>

definition is_upper :: "char \<Rightarrow> bool" where
  "is_upper c = (65 \<le> byte c \<and> byte c \<le> 90)"

fun snake :: "string \<Rightarrow> string" where
  "snake [] = []"
| "snake (c # s) = (if is_upper c then CHR ''_'' # c # snake s else c # snake s)"

definition upperSnake :: "string \<Rightarrow> string" where
  "upperSnake name = ToUpper (case name of [] \<Rightarrow> [] | c # s \<Rightarrow> c # snake s)"

definition shortName :: "enum_desc \<Rightarrow> int \<times> string \<Rightarrow> string" where
  "shortName e v = ToLower (TrimPrefix (snd v) (upperSnake (en_name e) @ ''_''))"

definition choicesOf :: "enum_desc \<Rightarrow> string list" where
  "choicesOf e = map (shortName e) (en_values e)"

text \<open>The \<^verbatim>\<open>String\<close> method of a generated enumeration: the declared name, or the number.\<close>

definition enum_string :: "(int \<times> string) list \<Rightarrow> int \<Rightarrow> string" where
  "enum_string names n = (case map_of names n of Some s \<Rightarrow> s | None \<Rightarrow> itoa n)"

text \<open>The number a generated enumeration gives a name, 0 for a name it does not declare.\<close>

definition enum_value :: "(int \<times> string) list \<Rightarrow> string \<Rightarrow> int" where
  "enum_value names s = lookup_or 0 (map (\<lambda>(n, t). (t, n)) names) s"

definition className :: "contract \<Rightarrow> event_class \<Rightarrow> string" where
  "className c class =
     (case map_of (ct_class_name c) class of
        None \<Rightarrow> []
      | Some name \<Rightarrow> ToLower (TrimPrefix name ''EVENT_CLASS_''))"

definition classes :: "contract \<Rightarrow> (string, event_class) go_map" where
  "classes c =
     foldl (\<lambda>named (value, _). if value = 0 then named else AList.update (className c value) value named)
       [] (ct_class_name c)"

definition ClassNamed :: "contract \<Rightarrow> string \<Rightarrow> event_class option" where
  "ClassNamed c name = lookup (classes c) name"

definition Classes :: "contract \<Rightarrow> string list" where
  "Classes c = sort (keys_of (classes c))"

section \<open>The vocabulary\<close>

record held_field =
  hf_kind :: kind
  hf_choices :: "string list"
  hf_path :: "field_desc list"

definition numeric :: "pkind \<Rightarrow> bool" where
  "numeric k =
     (k \<in> {Int32Kind, Int64Kind, Uint32Kind, Uint64Kind, Sint32Kind, Sint64Kind, Fixed32Kind, Fixed64Kind,
        Sfixed32Kind, Sfixed64Kind, FloatKind, DoubleKind})"

definition maxDepth :: nat where "maxDepth = 8"

text \<open>
  The walk over the descriptors. Go's walk carries the depth and returns when it is past
  \<^verbatim>\<open>maxDepth\<close>; the first argument here is how many levels are left, so that 0 is where it returns.
\<close>

definition leaf_of :: "field_desc \<Rightarrow> field_desc list \<Rightarrow> held_field option" where
  "leaf_of f reach =
     (case fd_kind f of
        StringKind \<Rightarrow> Some \<lparr>hf_kind = Text, hf_choices = [], hf_path = reach\<rparr>
      | BoolKind \<Rightarrow> Some \<lparr>hf_kind = Truth, hf_choices = [], hf_path = reach\<rparr>
      | EnumKind \<Rightarrow> Some \<lparr>hf_kind = Choice, hf_choices = choicesOf (fd_enum f), hf_path = reach\<rparr>
      | k \<Rightarrow> if numeric k then Some \<lparr>hf_kind = Number, hf_choices = [], hf_path = reach\<rparr> else None)"

primrec describe ::
  "contract \<Rightarrow> nat \<Rightarrow> string \<Rightarrow> string \<Rightarrow> field_desc list \<Rightarrow> (field, held_field) go_map \<Rightarrow> (field, held_field) go_map"
where
  "describe c 0 = (\<lambda>message pre trail into. into)"
| "describe c (Suc left) = (\<lambda>message pre trail into.
     foldl (\<lambda>into f.
       if fd_list f \<or> fd_map f then into
       else if fd_kind f = MessageKind \<or> fd_kind f = GroupKind then
         (if HasPrefix (fd_message f) ''google.protobuf.'' then into
          else describe c left (fd_message f) (pre @ fd_name f @ ''.'') (trail @ [f]) into)
       else case leaf_of f (trail @ [f]) of
         None \<Rightarrow> into
       | Some h \<Rightarrow> AList.update (pre @ fd_name f) h into)
     into (ct_fields c message))"

definition vocabulary :: "contract \<Rightarrow> (field, held_field) go_map" where
  "vocabulary c = describe c (Suc maxDepth) (ct_event c) [] [] []"

definition KindOf :: "contract \<Rightarrow> field \<Rightarrow> kind option" where
  "KindOf c f = map_option hf_kind (lookup (vocabulary c) f)"

definition pathOf :: "contract \<Rightarrow> field \<Rightarrow> field_desc list option" where
  "pathOf c f = map_option hf_path (lookup (vocabulary c) f)"

definition ChoicesOf :: "contract \<Rightarrow> field \<Rightarrow> string list" where
  "ChoicesOf c f = (case lookup (vocabulary c) f of None \<Rightarrow> [] | Some h \<Rightarrow> hf_choices h)"

definition Fields :: "contract \<Rightarrow> field list" where
  "Fields c = sort (keys_of (vocabulary c))"

definition bodies :: "contract \<Rightarrow> string list" where
  "bodies c = map fd_name (filter fd_oneof (ct_fields c (ct_event c)))"

definition AddressableBy :: "contract \<Rightarrow> field \<Rightarrow> event_class \<Rightarrow> bool" where
  "AddressableBy c f class =
     (KindOf c f \<noteq> None \<and>
      (let root = fst (cut_at CHR ''.'' f) in root \<notin> set (bodies c) \<or> root = className c class))"

section \<open>What the walk found\<close>

definition spelled :: "field_desc list \<Rightarrow> field" where
  "spelled path = join_with ''.'' (map fd_name path)"

definition kind_fits :: "kind \<Rightarrow> pkind \<Rightarrow> bool" where
  "kind_fits k p =
     (case k of Text \<Rightarrow> p = StringKind | Truth \<Rightarrow> p = BoolKind | Choice \<Rightarrow> p = EnumKind | Number \<Rightarrow> numeric p)"

definition entry_ok :: "field \<times> held_field \<Rightarrow> bool" where
  "entry_ok e \<longleftrightarrow>
     (case e of (f, h) \<Rightarrow>
        hf_path h \<noteq> [] \<and> length (hf_path h) \<le> Suc maxDepth \<and> f = spelled (hf_path h) \<and>
        kind_fits (hf_kind h) (fd_kind (last (hf_path h))) \<and>
        (hf_kind h = Choice \<longrightarrow> hf_choices h = choicesOf (fd_enum (last (hf_path h)))))"

lemma leaf_of_path: "leaf_of f reach = Some h \<Longrightarrow> hf_path h = reach"
  by (auto simp: leaf_of_def split: pkind.splits if_splits)

lemma leaf_of_fits:
  "leaf_of f reach = Some h \<Longrightarrow>
   kind_fits (hf_kind h) (fd_kind f) \<and> (hf_kind h = Choice \<longrightarrow> hf_choices h = choicesOf (fd_enum f))"
  by (auto simp: leaf_of_def kind_fits_def numeric_def split: pkind.splits if_splits)

lemma join_with_snoc: "ss \<noteq> [] \<Longrightarrow> join_with sep (ss @ [s]) = join_with sep ss @ sep @ s"
  by (induction sep ss rule: join_with.induct) auto

definition prefix_of :: "field_desc list \<Rightarrow> string" where
  "prefix_of trail = (if trail = [] then [] else spelled trail @ ''.'')"

lemma prefix_of_snoc: "prefix_of (trail @ [f]) = prefix_of trail @ fd_name f @ ''.''"
  by (cases "trail = []") (simp_all add: prefix_of_def spelled_def join_with_snoc)

lemma spelled_snoc: "spelled (trail @ [f]) = prefix_of trail @ fd_name f"
  by (cases "trail = []") (simp_all add: prefix_of_def spelled_def join_with_snoc)

lemma set_update: "set (AList.update k v m) \<subseteq> insert (k, v) (set m)"
  by (induction m) auto

lemma foldl_invariant:
  "P s \<Longrightarrow> (\<And>s x. x \<in> set xs \<Longrightarrow> P s \<Longrightarrow> P (f s x)) \<Longrightarrow> P (foldl f s xs)"
  by (induction xs arbitrary: s) auto

lemma describe_entries:
  assumes "length trail + left \<le> Suc maxDepth" "list_all entry_ok into"
  shows "list_all entry_ok (describe c left message (prefix_of trail) trail into)"
  using assms
proof (induction left arbitrary: message trail into)
  case (Suc left)
  show ?case
    unfolding describe.simps
  proof (rule foldl_invariant [where P = "list_all entry_ok"])
    fix into :: "(field, held_field) go_map" and f
    assume ok: "list_all entry_ok into"
    have deeper: "list_all entry_ok (describe c left (fd_message f) (prefix_of trail @ fd_name f @ ''.'') (trail @ [f]) into)"
      using Suc.IH [of "trail @ [f]" into "fd_message f"] Suc.prems(1) ok by (simp add: prefix_of_snoc)
    have leaf: "list_all entry_ok (AList.update (prefix_of trail @ fd_name f) h into)"
      if "leaf_of f (trail @ [f]) = Some h" for h
      using set_update [of "prefix_of trail @ fd_name f" h into] ok leaf_of_path [OF that] leaf_of_fits [OF that] Suc.prems(1)
      by (fastforce simp: list_all_iff entry_ok_def spelled_snoc)
    show "list_all entry_ok
       (if fd_list f \<or> fd_map f then into
        else if fd_kind f = MessageKind \<or> fd_kind f = GroupKind
        then if HasPrefix (fd_message f) ''google.protobuf.'' then into
             else describe c left (fd_message f) (prefix_of trail @ fd_name f @ ''.'') (trail @ [f]) into
        else case leaf_of f (trail @ [f]) of None \<Rightarrow> into
             | Some h \<Rightarrow> AList.update (prefix_of trail @ fd_name f) h into)"
      using ok deeper leaf by (simp split: option.split)
  qed (use Suc.prems in simp)
qed simp

lemma vocabulary_entry: "lookup (vocabulary c) f = Some h \<Longrightarrow> entry_ok (f, h)"
  using describe_entries [of "[]" "Suc maxDepth" "[]" c "ct_event c"]
  by (auto simp: vocabulary_def prefix_of_def list_all_iff dest: map_of_SomeD)

lemma pathOf_ok:
  assumes "pathOf c f = Some path"
  shows "path \<noteq> []" "spelled path = f"
  using assms vocabulary_entry [of c f] by (auto simp: pathOf_def entry_ok_def)

end
