(* ===== verification/Detection_Message.thy ===== *)
theory Detection_Message
  imports Event_Contract
begin

text \<open>
  The detection as it leaves the process, and what can be read back from it
  (\<^verbatim>\<open>internal/detection/held.go\<close>). The messages are the contract's own; a message that is not set is
  \<open>None\<close>, and a getter on it gives the zero value, as the generated getters do.
\<close>

record wire_duration =
  du_seconds :: int
  du_nanos :: int

record wire_rule =
  wr_id :: string
  wr_revision :: "32 word"
  wr_name :: string
  wr_source :: "source option"

record wire_evidence =
  we_field :: string
  we_operator :: string
  we_negated :: bool
  we_held :: string
  we_absent :: bool

record wire_grouping =
  wg_field :: string
  wg_value :: string
  wg_absent :: bool

record wire_aggregation =
  wa_count :: "32 word"
  wa_threshold :: "32 word"
  wa_window :: "wire_duration option"
  wa_first :: "timestamp option"
  wa_saturated :: bool
  wa_group :: "wire_grouping list"

record wire_stage =
  ws_name :: string
  ws_event :: string
  ws_time :: "timestamp option"
  ws_agent :: string

record wire_correlation =
  wc_window :: "wire_duration option"
  wc_spread :: "wire_duration option"
  wc_stages :: "wire_stage list"
  wc_group :: "wire_grouping list"

record detection =
  d_id :: string
  d_schema_version :: int
  d_rule :: "wire_rule option"
  d_ruleset :: string
  d_severity :: int
  d_technique :: "technique option"
  d_class :: event_class
  d_origin :: "pmessage option"
  d_source_events :: "string list"
  d_event_time :: "timestamp option"
  d_detected_time :: "timestamp option"
  d_evidence :: "wire_evidence list"
  d_aggregation :: "wire_aggregation option"
  d_correlation :: "wire_correlation option"

definition detection_rule_id :: "detection \<Rightarrow> string" where
  "detection_rule_id d = (case d_rule d of None \<Rightarrow> [] | Some r \<Rightarrow> wr_id r)"

definition detection_tenant :: "detection \<Rightarrow> string" where
  "detection_tenant d = get_string (or_empty (d_origin d)) ''tenant_id''"

definition detection_agent :: "detection \<Rightarrow> string" where
  "detection_agent d = get_string (or_empty (d_origin d)) ''agent_id''"

definition aggregation_group :: "detection \<Rightarrow> wire_grouping list" where
  "aggregation_group d = (case d_aggregation d of None \<Rightarrow> [] | Some a \<Rightarrow> wa_group a)"

definition correlation_group :: "detection \<Rightarrow> wire_grouping list" where
  "correlation_group d = (case d_correlation d of None \<Rightarrow> [] | Some a \<Rightarrow> wc_group a)"

section \<open>Reading a detection back\<close>

definition carried :: "contract \<Rightarrow> field \<Rightarrow> string \<Rightarrow> string" where
  "carried c f written =
     (if KindOf c f \<noteq> Some Text then written
      else case Unquote written of Some s \<Rightarrow> s | None \<Rightarrow> written)"

text \<open>What was held, whether it was absent, and whether the detection speaks of the field at all.\<close>

definition find_held :: "contract \<Rightarrow> detection \<Rightarrow> field \<Rightarrow> string \<times> bool \<times> bool" where
  "find_held c d f =
     (case List.find (\<lambda>e. we_field e = f) (d_evidence d) of
        Some e \<Rightarrow> (carried c f (we_held e), we_absent e, True)
      | None \<Rightarrow>
          (case List.find (\<lambda>b. wg_field b = f) (aggregation_group d @ correlation_group d) of
             Some b \<Rightarrow> (wg_value b, wg_absent b, True)
           | None \<Rightarrow> ([], False, False)))"

definition HeldIn :: "contract \<Rightarrow> detection \<Rightarrow> field \<Rightarrow> string \<times> bool" where
  "HeldIn c d f = (case find_held c d f of (value, absent, spoken) \<Rightarrow> (value, spoken \<and> \<not> absent))"

definition Speaks :: "contract \<Rightarrow> detection \<Rightarrow> field \<Rightarrow> bool" where
  "Speaks c d f = (case find_held c d f of (_, _, spoken) \<Rightarrow> spoken)"

lemma HeldIn_Speaks: "snd (HeldIn c d f) \<Longrightarrow> Speaks c d f"
  by (auto simp: HeldIn_def Speaks_def split: prod.splits)

end
