(* ===== verification/Alert_Triage.thy ===== *)
theory Alert_Triage
  imports Lifecycle Detection_Message
begin

text \<open>
  \<^verbatim>\<open>internal/alert\<close>, the operational half (\<^verbatim>\<open>state.go\<close>, \<^verbatim>\<open>move.go\<close>) and how an alert begins
  (\<^verbatim>\<open>raise.go\<close>). A \<^verbatim>\<open>State\<close> is a Go string: \<open>OtherState\<close> holds a string that names none of the five,
  the empty one included. The wire enumeration is the contract's, with \<open>STATE_OTHER\<close> for a number this
  build does not know.
\<close>

section \<open>States\<close>

datatype alert_state = Open | Acknowledged | InInvestigation | Resolved | FalsePositive | OtherState string

definition states :: "alert_state list" where
  "states = [Open, Acknowledged, InInvestigation, Resolved, FalsePositive]"

definition Valid :: "alert_state \<Rightarrow> bool" where
  "Valid s = (s \<in> set states)"

definition Closed :: "alert_state \<Rightarrow> bool" where
  "Closed s = (s = Resolved \<or> s = FalsePositive)"

fun moves :: "alert_state \<Rightarrow> alert_state list" where
  "moves Open = [Acknowledged, InInvestigation, Resolved, FalsePositive]"
| "moves Acknowledged = [InInvestigation, Resolved, FalsePositive]"
| "moves InInvestigation = [Resolved, FalsePositive]"
| "moves Resolved = [Open]"
| "moves FalsePositive = [Open]"
| "moves (OtherState _) = []"

definition Legal :: "alert_state \<Rightarrow> alert_state \<Rightarrow> bool" where
  "Legal s t = (t \<in> set (moves s))"

definition Reachable :: "alert_state \<Rightarrow> alert_state list" where
  "Reachable s = moves s"

definition Explains :: "alert_state \<Rightarrow> alert_state \<Rightarrow> bool" where
  "Explains s t = (t = FalsePositive \<or> Closed s)"

datatype illegal_move =
    NamesNoState alert_state
  | AlreadyIs alert_state
  | GoesNowhere alert_state
  | DoesNotBecome alert_state alert_state "alert_state list"

definition Illegal :: "alert_state \<Rightarrow> alert_state \<Rightarrow> illegal_move" where
  "Illegal s t =
     (if \<not> Valid t then NamesNoState t
      else if s = t then AlreadyIs t
      else if Reachable s = [] then GoesNowhere s
      else DoesNotBecome s t (Reachable s))"

datatype alertv1_state =
    STATE_UNSPECIFIED | STATE_OPEN | STATE_ACKNOWLEDGED | STATE_IN_INVESTIGATION
  | STATE_RESOLVED | STATE_FALSE_POSITIVE | STATE_OTHER int

definition wire :: "(alert_state, alertv1_state) go_map" where
  "wire =
     [(Open, STATE_OPEN), (Acknowledged, STATE_ACKNOWLEDGED), (InInvestigation, STATE_IN_INVESTIGATION),
      (Resolved, STATE_RESOLVED), (FalsePositive, STATE_FALSE_POSITIVE)]"

definition Wire :: "alert_state \<Rightarrow> alertv1_state" where
  "Wire s = lookup_or STATE_UNSPECIFIED wire s"

definition FromWire :: "alertv1_state \<Rightarrow> alert_state option" where
  "FromWire w = map_option fst (List.find (\<lambda>e. snd e = w) wire)"

section \<open>The record and a move\<close>

record closure =
  cl_state :: alertv1_state
  cl_reason :: string
  cl_closed_by :: string
  cl_closed_at :: "timestamp option"

record alert =
  al_id :: string
  al_schema_version :: int
  al_tenant :: string
  al_detection :: string
  al_rule :: "wire_rule option"
  al_severity :: int
  al_technique :: "technique option"
  al_class :: event_class
  al_agent :: string
  al_event_time :: "timestamp option"
  al_raised_at :: "timestamp option"
  al_state :: alertv1_state
  al_assignee :: string
  al_changed_by :: string
  al_changed_at :: "timestamp option"
  al_revision :: revision
  al_closure :: "closure option"
  al_correlation_key :: string
  al_occurrences :: int
  al_first_seen :: "timestamp option"
  al_last_seen :: "timestamp option"

record transition =
  tr_id :: string
  tr_revision :: revision
  tr_from :: alertv1_state
  tr_to :: alertv1_state
  tr_assignee :: string
  tr_actor :: string
  tr_at :: "timestamp option"
  tr_note :: string

record move =
  mv_to :: alert_state
  mv_assignee :: "string option"
  mv_note :: string
  mv_actor :: string
  mv_at :: instant
  mv_expected :: revision

datatype alert_error =
    ErrStoredState alertv1_state
  | ErrNoActor
  | ErrMoved revision revision
  | ErrUnknownState alert_state
  | ErrNothingAsked
  | ErrIllegalMove illegal_move
  | ErrNeedsReason alert_state alert_state

definition Refused :: "alert_error \<Rightarrow> bool" where
  "Refused e =
     (case e of ErrIllegalMove _ \<Rightarrow> True | ErrNothingAsked \<Rightarrow> True | ErrNeedsReason _ _ \<Rightarrow> True
      | ErrUnknownState _ \<Rightarrow> True | ErrNoActor \<Rightarrow> True | _ \<Rightarrow> False)"

definition closure_of :: "move \<Rightarrow> timestamp \<Rightarrow> closure option" where
  "closure_of m stamp =
     (if \<not> Closed (mv_to m) then None
      else Some \<lparr>cl_state = Wire (mv_to m), cl_reason = mv_note m, cl_closed_by = mv_actor m, cl_closed_at = Some stamp\<rparr>)"

definition changing :: "alert_state \<Rightarrow> move \<Rightarrow> bool" where
  "changing s m = (mv_to m \<noteq> OtherState [] \<and> mv_to m \<noteq> s)"

definition reassigning :: "alert \<Rightarrow> move \<Rightarrow> bool" where
  "reassigning a m = (case mv_assignee m of None \<Rightarrow> False | Some who \<Rightarrow> who \<noteq> al_assignee a)"

definition moved :: "alert \<Rightarrow> alert_state \<Rightarrow> move \<Rightarrow> alert" where
  "moved current s m =
     (let stamp = new_timestamp (mv_at m);
          a = current\<lparr>al_revision := al_revision current + 1, al_changed_by := mv_actor m, al_changed_at := Some stamp\<rparr>;
          a = (if reassigning current m then a\<lparr>al_assignee := the (mv_assignee m)\<rparr> else a)
      in if changing s m then a\<lparr>al_state := Wire (mv_to m), al_closure := closure_of m stamp\<rparr> else a)"

definition Apply :: "alert \<Rightarrow> move \<Rightarrow> alert_error + alert \<times> transition" where
  "Apply current m =
     (case FromWire (al_state current) of
        None \<Rightarrow> Inl (ErrStoredState (al_state current))
      | Some s \<Rightarrow>
          if mv_actor m = [] then Inl ErrNoActor
          else if mv_expected m \<noteq> 0 \<and> mv_expected m \<noteq> al_revision current
          then Inl (ErrMoved (al_revision current) (mv_expected m))
          else if mv_to m \<noteq> OtherState [] \<and> \<not> Valid (mv_to m) then Inl (ErrUnknownState (mv_to m))
          else if \<not> changing s m \<and> \<not> reassigning current m then Inl ErrNothingAsked
          else if changing s m \<and> \<not> Legal s (mv_to m) then Inl (ErrIllegalMove (Illegal s (mv_to m)))
          else if changing s m \<and> Explains s (mv_to m) \<and> mv_note m = [] then Inl (ErrNeedsReason (mv_to m) s)
          else let a = moved current s m in
            Inr (a, \<lparr>tr_id = al_id a, tr_revision = al_revision a, tr_from = al_state current, tr_to = al_state a,
              tr_assignee = al_assignee a, tr_actor = mv_actor m, tr_at = Some (new_timestamp (mv_at m)), tr_note = mv_note m\<rparr>))"

section \<open>How an alert begins\<close>

definition SchemaVersion :: int where "SchemaVersion = 1"
definition Platform :: string where "Platform = ''platform''"

datatype raise_error = ErrUnnamed | ErrNoTenant

definition Happened :: "detection \<Rightarrow> instant \<Rightarrow> instant" where
  "Happened made fallback = (case d_event_time made of None \<Rightarrow> fallback | Some t \<Rightarrow> AsTime t)"

definition Raise :: "detection \<Rightarrow> instant \<Rightarrow> raise_error + alert" where
  "Raise made now =
     (if d_id made = [] then Inl ErrUnnamed
      else if detection_tenant made = [] then Inl ErrNoTenant
      else let raised = new_timestamp now; happened = new_timestamp (Happened made now) in
        Inr \<lparr>al_id = d_id made, al_schema_version = SchemaVersion, al_tenant = detection_tenant made,
          al_detection = d_id made, al_rule = d_rule made, al_severity = d_severity made,
          al_technique = d_technique made, al_class = d_class made, al_agent = detection_agent made,
          al_event_time = d_event_time made, al_raised_at = Some raised, al_state = Wire Open, al_assignee = [],
          al_changed_by = Platform, al_changed_at = Some raised, al_revision = 1, al_closure = None,
          al_correlation_key = [], al_occurrences = 1, al_first_seen = Some happened, al_last_seen = Some happened\<rparr>)"

definition Raised :: "alert \<Rightarrow> transition" where
  "Raised a =
     \<lparr>tr_id = al_id a, tr_revision = al_revision a, tr_from = STATE_UNSPECIFIED, tr_to = al_state a,
      tr_assignee = [], tr_actor = Platform, tr_at = al_raised_at a,
      tr_note = ''raised by '' @ (case al_rule a of None \<Rightarrow> [] | Some r \<Rightarrow> wr_id r)\<rparr>"

definition Severity_written :: "contract \<Rightarrow> int \<Rightarrow> string" where
  "Severity_written c value =
     (let trimmed = TrimPrefix (enum_string (ct_severity_name c) value) ''SEVERITY_''
      in if trimmed = ''UNSPECIFIED'' then [] else ToLower trimmed)"

definition Class_written :: "contract \<Rightarrow> event_class \<Rightarrow> string" where
  "Class_written c class =
     (let trimmed = TrimPrefix (enum_string (ct_class_name c) class) ''EVENT_CLASS_''
      in if trimmed = ''UNSPECIFIED'' then [] else ToLower trimmed)"

text \<open>\<^verbatim>\<open>Severity_value\<close>, the generated map from a name to its number.\<close>

definition severity_value :: "contract \<Rightarrow> (string, int) go_map" where
  "severity_value c = map (\<lambda>(n, s). (s, n)) (ct_severity_name c)"

definition ParseFloor :: "contract \<Rightarrow> string \<Rightarrow> string + int" where
  "ParseFloor c written =
     (case lookup (severity_value c) (''SEVERITY_'' @ ToUpper (TrimSpace written)) of
        None \<Rightarrow> Inl written
      | Some value \<Rightarrow> if value = 0 then Inl written else Inr value)"

definition Raisable :: "int \<Rightarrow> int \<Rightarrow> bool" where
  "Raisable severity lowest = (severity \<noteq> 0 \<and> lowest \<le> severity)"

section \<open>The machine\<close>

lemma FromWire_Wire: "FromWire (Wire s) = Some s \<longleftrightarrow> Valid s"
  by (cases s) (auto simp: FromWire_def Wire_def wire_def lookup_or_def Valid_def states_def)

lemma Wire_FromWire: "FromWire w = Some s \<Longrightarrow> Wire s = w \<and> Valid s"
  by (auto simp: FromWire_def Wire_def wire_def lookup_or_def Valid_def states_def split: if_splits)

lemma FromWire_None: "FromWire w = None \<longleftrightarrow> w = STATE_UNSPECIFIED \<or> (\<exists>n. w = STATE_OTHER n)"
  by (cases w) (auto simp: FromWire_def wire_def)

lemma Legal_Valid: "Legal s t \<Longrightarrow> Valid s \<and> Valid t \<and> s \<noteq> t"
  by (cases s) (auto simp: Legal_def Valid_def states_def)

fun rank :: "alert_state \<Rightarrow> nat" where
  "rank Open = 0"
| "rank Acknowledged = 1"
| "rank InInvestigation = 2"
| "rank Resolved = 3"
| "rank FalsePositive = 3"
| "rank (OtherState _) = 0"

lemma Legal_forward: "Legal s t \<Longrightarrow> rank s < rank t \<or> Closed s \<and> t = Open"
  by (cases s) (auto simp: Legal_def Closed_def)

definition wire_legal :: "alertv1_state \<Rightarrow> alertv1_state \<Rightarrow> bool" where
  "wire_legal w w' = (case (FromWire w, FromWire w') of (Some s, Some t) \<Rightarrow> Legal s t | _ \<Rightarrow> False)"

text \<open>What an accepted move did, and under which conditions it was accepted.\<close>

lemma Apply_InrD:
  assumes "Apply a m = Inr (a', t)"
  shows "\<exists>s. FromWire (al_state a) = Some s \<and> mv_actor m \<noteq> [] \<and>
    (mv_expected m = 0 \<or> mv_expected m = al_revision a) \<and>
    (changing s m \<longrightarrow> Legal s (mv_to m) \<and> (Explains s (mv_to m) \<longrightarrow> mv_note m \<noteq> [])) \<and>
    a' = moved a s m \<and> tr_revision t = al_revision a' \<and> tr_from t = al_state a \<and> tr_to t = al_state a' \<and>
    tr_actor t = mv_actor m \<and> tr_note t = mv_note m"
  using assms unfolding Apply_def by (auto simp: Let_def split: option.splits if_splits)

lemma moved_simps [simp]:
  "al_revision (moved a s m) = al_revision a + 1"
  "al_changed_by (moved a s m) = mv_actor m"
  "al_state (moved a s m) = (if changing s m then Wire (mv_to m) else al_state a)"
  "al_closure (moved a s m) = (if changing s m then closure_of m (new_timestamp (mv_at m)) else al_closure a)"
  "al_assignee (moved a s m) = (if reassigning a m then the (mv_assignee m) else al_assignee a)"
  by (simp_all add: moved_def Let_def)

text \<open>The analytical half: everything the detection said, which no move touches.\<close>

definition analytical :: "alert \<Rightarrow> alert" where
  "analytical a =
     a\<lparr>al_state := STATE_UNSPECIFIED, al_assignee := [], al_changed_by := [], al_changed_at := None,
       al_revision := 0, al_closure := None\<rparr>"

lemma analytical_moved [simp]: "analytical (moved a s m) = analytical a"
  by (simp add: analytical_def moved_def Let_def)

lemma wire_legal_changed: "FromWire w = Some s \<Longrightarrow> Legal s t \<Longrightarrow> wire_legal w (Wire t)"
  using Legal_Valid [of s t] FromWire_Wire [of t] by (simp add: wire_legal_def)

interpretation triage: lifecycle Apply al_revision al_state tr_revision tr_from tr_to mv_expected wire_legal
proof (unfold_locales, goal_cases)
  case (1 a m a' t)
  then show ?case using Apply_InrD by fastforce
next
  case (2 a m a' t)
  then show ?case using Apply_InrD by fastforce
next
  case (3 a m a' t)
  then show ?case using Apply_InrD [OF 3] wire_legal_changed by auto
next
  case (4 a m a' t)
  then show ?case using Apply_InrD by fastforce
qed

definition alert_wf :: "alert \<Rightarrow> bool" where
  "alert_wf a \<longleftrightarrow>
     (case FromWire (al_state a) of
        None \<Rightarrow> False
      | Some s \<Rightarrow>
          (case al_closure a of
             None \<Rightarrow> \<not> Closed s
           | Some c \<Rightarrow> Closed s \<and> cl_state c = al_state a \<and> cl_closed_by c \<noteq> [] \<and>
               (s = FalsePositive \<longrightarrow> cl_reason c \<noteq> [])))"

lemma alert_wf_Apply [inv_intros]:
  assumes "alert_wf a" "Apply a m = Inr (a', t)"
  shows "alert_wf a'"
proof -
  obtain s where s: "FromWire (al_state a) = Some s" "mv_actor m \<noteq> []" "changing s m \<Longrightarrow> Legal s (mv_to m)"
    "changing s m \<Longrightarrow> Explains s (mv_to m) \<Longrightarrow> mv_note m \<noteq> []" "a' = moved a s m"
    using Apply_InrD [OF assms(2)] by blast
  show ?thesis
  proof (cases "changing s m")
    case True
    then have "FromWire (Wire (mv_to m)) = Some (mv_to m)" using s(3) Legal_Valid FromWire_Wire by blast
    then show ?thesis
      using True s by (auto simp: alert_wf_def closure_of_def Explains_def)
  next
    case False
    then show ?thesis using assms(1) s(1,5) by (simp add: alert_wf_def split: option.splits)
  qed
qed

lemma alert_wf_Raise: "Raise made now = Inr a \<Longrightarrow> alert_wf a \<and> al_revision a = 1 \<and> al_state a = STATE_OPEN"
  by (auto simp: Raise_def Let_def alert_wf_def FromWire_def Wire_def wire_def lookup_or_def Closed_def split: if_splits)

text \<open>
  A line of the trail that stands on its own: it names who acted, and a change of state goes forward
  in triage, or reopens a closed alert and says why. Calling an alert a false positive says why too.
\<close>

definition explained :: "transition \<Rightarrow> bool" where
  "explained t \<longleftrightarrow>
     tr_actor t \<noteq> [] \<and>
     (tr_from t = tr_to t \<or>
      (case (FromWire (tr_from t), FromWire (tr_to t)) of
         (Some s, Some u) \<Rightarrow>
           (rank s < rank u \<or> Closed s \<and> u = Open \<and> tr_note t \<noteq> []) \<and>
           (u = FalsePositive \<longrightarrow> tr_note t \<noteq> [])
       | _ \<Rightarrow> False))"

lemma explained_Apply:
  assumes "Apply a m = Inr (a', t)"
  shows "explained t"
proof -
  obtain s where s: "FromWire (al_state a) = Some s" "mv_actor m \<noteq> []" "changing s m \<Longrightarrow> Legal s (mv_to m)"
    "changing s m \<Longrightarrow> Explains s (mv_to m) \<Longrightarrow> mv_note m \<noteq> []" "a' = moved a s m"
    and t: "tr_from t = al_state a" "tr_to t = al_state a'" "tr_actor t = mv_actor m" "tr_note t = mv_note m"
    using Apply_InrD [OF assms] by blast
  show ?thesis
  proof (cases "changing s m")
    case True
    then have "Legal s (mv_to m)" "FromWire (Wire (mv_to m)) = Some (mv_to m)"
      using s(3) Legal_Valid FromWire_Wire by blast+
    then show ?thesis
      using True s t Legal_forward [of s "mv_to m"] by (auto simp: explained_def Explains_def)
  next
    case False
    then show ?thesis using s t by (simp add: explained_def)
  qed
qed

lemma explained_run: "run_moves Apply a ms = (a', ts) \<Longrightarrow> list_all explained ts"
proof (induction ms arbitrary: a ts)
  case (Cons m ms)
  then show ?case using explained_Apply by (fastforce split: sum.splits prod.splits)
qed simp

lemma analytical_run: "run_moves Apply a ms = (a', ts) \<Longrightarrow> analytical a' = analytical a"
  by (rule triage.run_invariant [of "\<lambda>b. analytical b = analytical a" a ms a' ts]) (auto dest: Apply_InrD)

text \<open>
  C11. From the alert a detection raised, any sequence of moves leaves a trail that leads without a gap
  from open to the state the alert is in, by legal changes only, numbered revision by revision; the
  record carries a closure exactly when it is closed, and what the detection said is untouched.
\<close>

theorem alert_history:
  assumes "Raise made now = Inr a" "run_moves Apply a ms = (a', ts)"
  shows "linked tr_from tr_to wire_legal STATE_OPEN ts (al_state a') \<and> numbered tr_revision 1 ts \<and>
         al_revision a' = 1 + of_nat (length ts) \<and> alert_wf a' \<and> analytical a' = analytical a"
  using triage.trail_leads [OF assms(2)] alert_wf_Raise [OF assms(1)] analytical_run [OF assms(2)]
    triage.run_invariant [of alert_wf, OF alert_wf_Apply, OF _ _ _ assms(2)]
  by simp

text \<open>
  C36. Triage runs forwards: every line of every trail names who acted, and changes nothing, moves the
  alert further along, or reopens a closed one to the beginning and says why; calling an alert a
  false positive says why as well.
\<close>

theorem alert_trail_explained:
  "list_all explained (snd (run_moves Apply a ms))"
  using explained_run by (cases "run_moves Apply a ms") simp

definition sample_detection :: detection where
  "sample_detection =
     \<lparr>d_id = ''d1'', d_schema_version = 1,
      d_rule = Some \<lparr>wr_id = ''ssh.bruteforce'', wr_revision = 1, wr_name = ''SSH brute force'', wr_source = None\<rparr>,
      d_ruleset = ''r'', d_severity = 3, d_technique = None, d_class = 1,
      d_origin = Some [(''tenant_id'', VString ''acme''), (''agent_id'', VString ''a1'')],
      d_source_events = [''e1''], d_event_time = Some \<lparr>ts_seconds = 100, ts_nanos = 0\<rparr>,
      d_detected_time = Some \<lparr>ts_seconds = 101, ts_nanos = 0\<rparr>, d_evidence = [], d_aggregation = None, d_correlation = None\<rparr>"

definition sample_move :: "alert_state \<Rightarrow> string \<Rightarrow> revision \<Rightarrow> move" where
  "sample_move to note expected =
     \<lparr>mv_to = to, mv_assignee = None, mv_note = note, mv_actor = ''ana'', mv_at = 0, mv_expected = expected\<rparr>"

definition sample_moves :: "move list" where
  "sample_moves = [sample_move Acknowledged [] 0, sample_move FalsePositive [] 2, sample_move FalsePositive ''scanner'' 2, sample_move Open ''not it'' 0]"

definition sample_alert :: alert where
  "sample_alert = (case Raise sample_detection 0 of Inr a \<Rightarrow> a)"

lemma sample_run: "snd (run_moves Apply sample_alert sample_moves) \<noteq> []" "length (snd (run_moves Apply sample_alert sample_moves)) = 3"
  by code_simp+

theorem alert_history_witness:
  "\<exists>a a' ts. Raise sample_detection 0 = Inr a \<and> run_moves Apply a sample_moves = (a', ts) \<and> length ts = 3 \<and>
     linked tr_from tr_to wire_legal STATE_OPEN ts (al_state a') \<and> alert_wf a'"
proof -
  have r: "Raise sample_detection 0 = Inr sample_alert"
    by (simp add: sample_alert_def Raise_def Let_def sample_detection_def detection_tenant_def or_empty_def get_string_def)
  obtain a' ts where run: "run_moves Apply sample_alert sample_moves = (a', ts)" by (cases "run_moves Apply sample_alert sample_moves")
  with alert_history [OF r run] sample_run r show ?thesis by fastforce
qed

text \<open>
  C35. Two people who read an alert at the same revision and both act on it: the first move is applied
  and the second is refused with the revision the alert is at now, whatever it asks.
\<close>

theorem alert_second_is_told:
  assumes "Apply a m = Inr (a', t)" "mv_expected m' = al_revision a" "al_revision a \<noteq> 0"
    and "alert_wf a" "mv_actor m' \<noteq> []"
  shows "Apply a' m' = Inl (ErrMoved (al_revision a') (al_revision a))"
proof -
  obtain s where "FromWire (al_state a') = Some s"
    using alert_wf_Apply [OF assms(4,1)] by (auto simp: alert_wf_def split: option.splits)
  moreover have "al_revision a' = al_revision a + 1" by (rule triage.revision_step [OF assms(1)])
  ultimately show ?thesis using assms(2,3,5) by (simp add: Apply_def)
qed

theorem alert_second_is_told_witness:
  "\<exists>a' t. Apply sample_alert (sample_move Acknowledged [] 1) = Inr (a', t) \<and>
     Apply a' (sample_move Resolved [] 1) = Inl (ErrMoved 2 1)"
proof -
  have w: "alert_wf sample_alert" "al_revision sample_alert = 1" by code_simp+
  have "\<not> isl (Apply sample_alert (sample_move Acknowledged [] 1))" by code_simp
  then obtain a' t where r: "Apply sample_alert (sample_move Acknowledged [] 1) = Inr (a', t)"
    by (cases "Apply sample_alert (sample_move Acknowledged [] 1)") auto
  have "al_revision a' = 2" using triage.revision_step [OF r] w(2) by simp
  with alert_second_is_told [OF r, of "sample_move Resolved [] 1"] w r show ?thesis
    by (simp add: sample_move_def)
qed

text \<open>
  The wire names are a round trip: every state an alert can be in is read back as itself, every
  wire state this build knows is written as it was read, and it knows all but the unspecified one and
  those a later contract declares.
\<close>

lemma alert_wire_roundtrip:
  "(FromWire (Wire s) = Some s \<longleftrightarrow> Valid s) \<and>
   (case FromWire w of
      Some s' \<Rightarrow> Wire s' = w \<and> Valid s'
    | None \<Rightarrow> w = STATE_UNSPECIFIED \<or> (\<exists>n. w = STATE_OTHER n))"
  using FromWire_Wire [of s] Wire_FromWire [of w] FromWire_None [of w] by (simp split: option.split)

end
