(* ===== verification/Go_Time.thy ===== *)
theory Go_Time
  imports Go_Strings
begin

text \<open>
  How \<^verbatim>\<open>time\<close> writes a duration and an instant: \<^verbatim>\<open>Duration.String\<close> and \<^verbatim>\<open>Format(time.RFC3339)\<close> in UTC.
  The calendar is the proleptic Gregorian one, counted from Go's zero time, 1 January of year 1.
\<close>

fun zero_padded :: "nat \<Rightarrow> nat \<Rightarrow> string" where
  "zero_padded 0 n = []"
| "zero_padded (Suc k) n = zero_padded k (n div 10) @ [digit (n mod 10)]"

definition strip_zeros :: "string \<Rightarrow> string" where
  "strip_zeros s = rev (dropWhile (\<lambda>c. c = CHR ''0'') (rev s))"

definition fmtFrac :: "nat \<Rightarrow> nat \<Rightarrow> string" where
  "fmtFrac prec v =
     (let s = strip_zeros (zero_padded prec (v mod 10 ^ prec)) in if s = [] then [] else CHR ''.'' # s)"

definition Duration_String :: "duration \<Rightarrow> string" where
  "Duration_String d =
     (let u = nat \<bar>d\<bar>; sign = (if d < 0 then ''-'' else []) in
      if u = 0 then ''0s''
      else if u < 1000 then sign @ dec_of_nat u @ ''ns''
      else if u < 1000000 then sign @ dec_of_nat (u div 1000) @ fmtFrac 3 u @ map char_of [0xC2, 0xB5 :: nat] @ ''s''
      else if u < 1000000000 then sign @ dec_of_nat (u div 1000000) @ fmtFrac 6 u @ ''ms''
      else
        let secs = u div 1000000000; mins = secs div 60; hours = mins div 60 in
        sign @ (if 0 < hours then dec_of_nat hours @ ''h'' else []) @
        (if 0 < mins then dec_of_nat (mins mod 60) @ ''m'' else []) @
        dec_of_nat (secs mod 60) @ fmtFrac 9 u @ ''s'')"

text \<open>Year, month and day of a number of days since 1 January of year 1.\<close>

definition civil :: "int \<Rightarrow> int \<times> int \<times> int" where
  "civil days =
     (let z = days + 306; era = z div 146097; doe = z mod 146097;
          yoe = (doe - doe div 1460 + doe div 36524 - doe div 146096) div 365;
          doy = doe - (365 * yoe + yoe div 4 - yoe div 100);
          mp = (5 * doy + 2) div 153;
          m = (if mp < 10 then mp + 3 else mp - 9)
      in (yoe + era * 400 + (if m \<le> 2 then 1 else 0), m, doy - (153 * mp + 2) div 5 + 1))"

definition RFC3339 :: "instant \<Rightarrow> string" where
  "RFC3339 t =
     (let secs = t div second; day = secs div 86400; tod = nat (secs mod 86400) in
      case civil day of (y, m, d) \<Rightarrow>
        (if y < 0 then ''-'' else []) @
        (if \<bar>y\<bar> < 10000 then zero_padded 4 (nat \<bar>y\<bar>) else dec_of_nat (nat \<bar>y\<bar>)) @ ''-'' @
        zero_padded 2 (nat m) @ ''-'' @ zero_padded 2 (nat d) @ ''T'' @
        zero_padded 2 (tod div 3600) @ '':'' @ zero_padded 2 (tod div 60 mod 60) @ '':'' @
        zero_padded 2 (tod mod 60) @ ''Z'')"

lemma RFC3339_seconds: "t div second = u div second \<Longrightarrow> RFC3339 t = RFC3339 u"
  by (simp add: RFC3339_def)

end
