(* ===== verification/Event_Validate.thy ===== *)
theory Event_Validate
  imports Event_Contract Go_Time
begin

text \<open>
  \<^verbatim>\<open>internal/event\<close> (\<^verbatim>\<open>limits.go\<close>, \<^verbatim>\<open>validate.go\<close>) and \<^verbatim>\<open>internal/agentidentity\<close>: what an event may
  carry and when the gateway still admits it. The encoded size of a message is the argument
  \<open>proto_size\<close>, as \<^verbatim>\<open>proto.Size\<close> belongs to the protobuf library; \<^verbatim>\<open>netip.ParseAddr\<close> is written out.
  The result at the end is the bound everything made out of an event's text rests on: no text of an
  admitted event is longer than the table \<^verbatim>\<open>longest\<close> says.
\<close>

section \<open>Limits\<close>

definition MaxEventIDLength :: nat where "MaxEventIDLength = 64"
definition MinEventIDLength :: nat where "MinEventIDLength = 8"
definition MaxTenantIDLength :: nat where "MaxTenantIDLength = 64"
definition MaxAgentIDLength :: nat where "MaxAgentIDLength = 64"
definition MaxHostnameLength :: nat where "MaxHostnameLength = 255"
definition MaxAddressLength :: nat where "MaxAddressLength = 45"
definition MaxOperatingSystem :: nat where "MaxOperatingSystem = 128"
definition MaxArchitectureLen :: nat where "MaxArchitectureLen = 32"
definition MaxCollectorLength :: nat where "MaxCollectorLength = 64"
definition MaxSourceLength :: nat where "MaxSourceLength = 512"
definition MaxUserNameLength :: nat where "MaxUserNameLength = 256"
definition MaxUserDomainLength :: nat where "MaxUserDomainLength = 255"
definition MaxUserIDLength :: nat where "MaxUserIDLength = 64"
definition MaxServiceNameLength :: nat where "MaxServiceNameLength = 64"
definition MaxProtocolLength :: nat where "MaxProtocolLength = 32"
definition MaxOutcomeReasonLen :: nat where "MaxOutcomeReasonLen = 64"
definition MaxAuthMethodLength :: nat where "MaxAuthMethodLength = 32"
definition MaxRawRecordLength :: nat where "MaxRawRecordLength = 4096"
definition MaxBatchIDLength :: nat where "MaxBatchIDLength = 64"
definition MaxGatewayLength :: nat where "MaxGatewayLength = 64"
definition MaxEventBytes :: nat where "MaxEventBytes = 960 * 1024"

lemmas event_limits =
  MaxEventIDLength_def MinEventIDLength_def MaxTenantIDLength_def MaxAgentIDLength_def MaxHostnameLength_def
  MaxAddressLength_def MaxOperatingSystem_def MaxArchitectureLen_def MaxCollectorLength_def MaxSourceLength_def
  MaxUserNameLength_def MaxUserDomainLength_def MaxUserIDLength_def MaxServiceNameLength_def MaxProtocolLength_def
  MaxOutcomeReasonLen_def MaxAuthMethodLength_def MaxRawRecordLength_def MaxBatchIDLength_def MaxGatewayLength_def

definition longest :: "(field, nat) go_map" where
  "longest =
     [(''event_id'', MaxEventIDLength),
      (''origin.tenant_id'', MaxTenantIDLength),
      (''origin.agent_id'', MaxAgentIDLength),
      (''origin.host.hostname'', MaxHostnameLength),
      (''origin.host.ip'', MaxAddressLength),
      (''origin.host.os'', MaxOperatingSystem),
      (''origin.host.architecture'', MaxArchitectureLen),
      (''collection.collector'', MaxCollectorLength),
      (''collection.source'', MaxSourceLength),
      (''reception.gateway'', MaxGatewayLength),
      (''reception.batch_id'', MaxBatchIDLength),
      (''authentication.outcome_reason'', MaxOutcomeReasonLen),
      (''authentication.method'', MaxAuthMethodLength),
      (''authentication.user.name'', MaxUserNameLength),
      (''authentication.user.domain'', MaxUserDomainLength),
      (''authentication.user.uid'', MaxUserIDLength),
      (''authentication.service.name'', MaxServiceNameLength),
      (''authentication.service.protocol'', MaxProtocolLength),
      (''authentication.network.source.ip'', MaxAddressLength),
      (''authentication.network.destination.ip'', MaxAddressLength),
      (''authentication.raw_record'', MaxRawRecordLength)]"

definition LongestText :: "field \<Rightarrow> nat option" where
  "LongestText f = lookup longest f"

section \<open>Identifiers and addresses\<close>

definition is_alnum :: "char \<Rightarrow> bool" where
  "is_alnum c = (is_digit c \<or> 65 \<le> byte c \<and> byte c \<le> 90 \<or> 97 \<le> byte c \<and> byte c \<le> 122)"

text \<open>\<^verbatim>\<open>^[A-Za-z0-9][A-Za-z0-9._-]{0,63}$\<close>, and the same with a colon.\<close>

definition agentIDPattern :: "string \<Rightarrow> bool" where
  "agentIDPattern s =
     (case s of [] \<Rightarrow> False
      | c # t \<Rightarrow> is_alnum c \<and> length t \<le> 63 \<and> list_all (\<lambda>d. is_alnum d \<or> d \<in> set ''._-'') t)"

definition identifierPattern :: "string \<Rightarrow> bool" where
  "identifierPattern s =
     (case s of [] \<Rightarrow> False
      | c # t \<Rightarrow> is_alnum c \<and> length t \<le> 63 \<and> list_all (\<lambda>d. is_alnum d \<or> d \<in> set ''._:-'') t)"

definition ValidIdentifier :: "string \<Rightarrow> bool" where
  "ValidIdentifier = identifierPattern"

definition agentidentity_Valid :: "string \<Rightarrow> bool" where
  "agentidentity_Valid = agentIDPattern"

text \<open>
  A connection is its verified chains, each a list of certificates, of which only the subject's
  common name is read.
\<close>

datatype identity_error = ErrNoClientCertificate | ErrMalformedName string

definition FromCertificate :: "string option \<Rightarrow> identity_error + string" where
  "FromCertificate certificate =
     (case certificate of None \<Rightarrow> Inl ErrNoClientCertificate
      | Some name \<Rightarrow> if agentIDPattern name then Inr name else Inl (ErrMalformedName name))"

definition FromConnection :: "string option list list option \<Rightarrow> identity_error + string" where
  "FromConnection state =
     (case state of
        Some ((leaf # _) # _) \<Rightarrow> FromCertificate leaf
      | _ \<Rightarrow> Inl ErrNoClientCertificate)"

lemma agentIDPattern_length: "agentIDPattern s \<Longrightarrow> 0 < length s \<and> length s \<le> 64"
  by (auto simp: agentIDPattern_def split: list.splits)

lemma identifierPattern_length: "identifierPattern s \<Longrightarrow> 0 < length s \<and> length s \<le> 64"
  by (auto simp: identifierPattern_def split: list.splits)

lemma agentIDPattern_identifier: "agentIDPattern s \<Longrightarrow> identifierPattern s"
  by (auto simp: agentIDPattern_def identifierPattern_def list_all_iff split: list.splits)

definition octet :: "string \<Rightarrow> bool" where
  "octet s = (s \<noteq> [] \<and> list_all is_digit s \<and> (hd s = CHR ''0'' \<longrightarrow> length s = 1) \<and> nat_of_dec s \<le> 255)"

definition parseIPv4 :: "string \<Rightarrow> bool" where
  "parseIPv4 s = (length (split_on CHR ''.'' s) = 4 \<and> list_all octet (split_on CHR ''.'' s))"

text \<open>The groups of an IPv6 address: \<open>i\<close> bytes are filled, and \<open>gap\<close> says whether \<open>::\<close> was read.\<close>

function ipv6_groups :: "nat \<Rightarrow> bool \<Rightarrow> string \<Rightarrow> bool" where
  "ipv6_groups i gap s =
     (if 16 \<le> i then s = [] \<and> \<not> gap
      else
        let hex = takeWhile (\<lambda>c. unhex c \<noteq> None) s; rest = drop (length hex) s in
        if hex = [] \<or> 4 < length hex then False
        else case rest of
          [] \<Rightarrow> (i + 2 < 16) = gap
        | c # t \<Rightarrow>
            if c = CHR ''.'' then
              (gap \<or> i = 12) \<and> i + 4 \<le> 16 \<and> parseIPv4 s \<and> (i + 4 < 16) = gap
            else if c \<noteq> CHR '':'' \<or> t = [] then False
            else if hd t = CHR '':'' then
              \<not> gap \<and> (if tl t = [] then i + 2 < 16 else ipv6_groups (i + 2) True (tl t))
            else ipv6_groups (i + 2) gap t)"
  by pat_completeness auto
termination by (relation "measure (\<lambda>(i, gap, s). 16 - i)") auto

declare ipv6_groups.simps [simp del]

definition parseIPv6 :: "string \<Rightarrow> bool" where
  "parseIPv6 s =
     (case cut_at CHR ''%'' s of (host, zone, zoned) \<Rightarrow>
        if zoned \<and> zone = [] then False
        else if prefix ''::'' host then (length host = 2 \<or> ipv6_groups 0 True (drop 2 host))
        else ipv6_groups 0 False host)"

definition ParseAddr :: "string \<Rightarrow> bool" where
  "ParseAddr s =
     (case List.find (\<lambda>c. c \<in> set ''.:%'') s of
        Some c \<Rightarrow> if c = CHR ''.'' then parseIPv4 s else if c = CHR '':'' then parseIPv6 s else False
      | None \<Rightarrow> False)"

section \<open>What an event may carry\<close>

record violation =
  vi_field :: string
  vi_reason :: string

record policy =
  po_max_clock_skew :: duration
  po_max_age :: duration

definition violation_of :: "string \<Rightarrow> string \<Rightarrow> violation option" where
  "violation_of f r = Some \<lparr>vi_field = f, vi_reason = r\<rparr>"

lemma violation_of_not_None [simp]: "violation_of f r \<noteq> None"
  by (simp add: violation_of_def)

definition identifier_check :: "string \<Rightarrow> string \<Rightarrow> violation option" where
  "identifier_check f value =
     (if length value < MinEventIDLength
      then violation_of f (''is shorter than '' @ dec_of_nat MinEventIDLength @ '' characters'')
      else if \<not> identifierPattern value then violation_of f ''is malformed''
      else None)"

definition text_check :: "string \<Rightarrow> string \<Rightarrow> nat \<Rightarrow> bool \<Rightarrow> violation option" where
  "text_check f value maximum required =
     (if value = [] then (if required then violation_of f ''is required'' else None)
      else if maximum < length value then violation_of f (''is longer than '' @ dec_of_nat maximum @ '' bytes'')
      else None)"

definition address_check :: "string \<Rightarrow> string \<Rightarrow> violation option" where
  "address_check f value =
     (if value = [] then None
      else if MaxAddressLength < length value
      then violation_of f (''is longer than '' @ dec_of_nat MaxAddressLength @ '' bytes'')
      else if \<not> ParseAddr value then violation_of f ''is not an IP address''
      else None)"

definition instant_check :: "string \<Rightarrow> timestamp option \<Rightarrow> violation option" where
  "instant_check f value =
     (case value of None \<Rightarrow> violation_of f ''is missing''
      | Some t \<Rightarrow> if \<not> timestamp_valid t then violation_of f ''is not a representable instant'' else None)"

definition declared_check :: "string \<Rightarrow> int \<Rightarrow> (int \<times> string) list \<Rightarrow> violation option" where
  "declared_check f value names =
     (if value = 0 then violation_of f ''is unspecified''
      else if map_of names value = None then violation_of f ''is not a value the contract declares''
      else None)"

definition endpoint_check :: "string \<Rightarrow> pmessage option \<Rightarrow> violation option" where
  "endpoint_check f value =
     (case value of None \<Rightarrow> None
      | Some e \<Rightarrow>
          or_else (address_check (f @ ''.ip'') (get_string e ''ip''))
            (if 65535 < get_int e ''port'' then violation_of (f @ ''.port'') ''is outside 0..65535'' else None))"

definition validateTimestamps :: "pmessage option \<Rightarrow> violation option" where
  "validateTimestamps stamps =
     (case stamps of None \<Rightarrow> violation_of ''time'' ''is missing''
      | Some t \<Rightarrow>
          or_else (instant_check ''time.event_time'' (get_timestamp t ''event_time''))
            (instant_check ''time.observed_time'' (get_timestamp t ''observed_time'')))"

definition ValidateOrigin :: "pmessage option \<Rightarrow> violation option" where
  "ValidateOrigin origin =
     (case origin of None \<Rightarrow> violation_of ''origin'' ''is missing''
      | Some o' \<Rightarrow>
          if \<not> agentidentity_Valid (get_string o' ''agent_id'')
          then violation_of ''origin.agent_id'' ''is missing or malformed''
          else or_else (text_check ''origin.tenant_id'' (get_string o' ''tenant_id'') MaxTenantIDLength True)
            (case get_message o' ''host'' of None \<Rightarrow> None
             | Some h \<Rightarrow>
                 or_else (text_check ''origin.host.hostname'' (get_string h ''hostname'') MaxHostnameLength False)
                   (or_else (address_check ''origin.host.ip'' (get_string h ''ip''))
                     (or_else (text_check ''origin.host.os'' (get_string h ''os'') MaxOperatingSystem False)
                       (text_check ''origin.host.architecture'' (get_string h ''architecture'') MaxArchitectureLen False)))))"

definition ValidateCollection :: "pmessage option \<Rightarrow> violation option" where
  "ValidateCollection collection =
     (case collection of None \<Rightarrow> violation_of ''collection'' ''is missing''
      | Some m \<Rightarrow>
          or_else (text_check ''collection.collector'' (get_string m ''collector'') MaxCollectorLength True)
            (text_check ''collection.source'' (get_string m ''source'') MaxSourceLength False))"

definition validateReception :: "pmessage option \<Rightarrow> violation option" where
  "validateReception reception =
     (let m = or_empty reception in
      or_else (text_check ''reception.gateway'' (get_string m ''gateway'') MaxGatewayLength False)
        (text_check ''reception.batch_id'' (get_string m ''batch_id'') MaxBatchIDLength False))"

definition validateUser :: "pmessage option \<Rightarrow> violation option" where
  "validateUser user =
     (case user of None \<Rightarrow> None
      | Some m \<Rightarrow>
          or_else (text_check ''authentication.user.name'' (get_string m ''name'') MaxUserNameLength False)
            (or_else (text_check ''authentication.user.domain'' (get_string m ''domain'') MaxUserDomainLength False)
              (text_check ''authentication.user.uid'' (get_string m ''uid'') MaxUserIDLength False)))"

definition validateService :: "pmessage option \<Rightarrow> violation option" where
  "validateService service =
     (case service of None \<Rightarrow> None
      | Some m \<Rightarrow>
          or_else (text_check ''authentication.service.name'' (get_string m ''name'') MaxServiceNameLength False)
            (text_check ''authentication.service.protocol'' (get_string m ''protocol'') MaxProtocolLength False))"

definition validateNetwork :: "contract \<Rightarrow> pmessage option \<Rightarrow> violation option" where
  "validateNetwork c network =
     (case network of None \<Rightarrow> None
      | Some m \<Rightarrow>
          if map_of (ct_transport_name c) (get_enum m ''transport'') = None
          then violation_of ''authentication.network.transport'' ''is not a transport the contract declares''
          else or_else (endpoint_check ''authentication.network.source'' (get_message m ''source''))
            (endpoint_check ''authentication.network.destination'' (get_message m ''destination'')))"

definition validateAuthentication :: "contract \<Rightarrow> pmessage \<Rightarrow> violation option" where
  "validateAuthentication c m =
     or_else (declared_check ''authentication.activity'' (get_enum m ''activity'') (ct_activity_name c))
       (or_else (declared_check ''authentication.outcome'' (get_enum m ''outcome'') (ct_outcome_name c))
         (or_else (text_check ''authentication.outcome_reason'' (get_string m ''outcome_reason'') MaxOutcomeReasonLen False)
           (or_else (text_check ''authentication.method'' (get_string m ''method'') MaxAuthMethodLength False)
             (or_else (validateUser (get_message m ''user''))
               (or_else (validateService (get_message m ''service''))
                 (or_else (validateNetwork c (get_message m ''network''))
                   (text_check ''authentication.raw_record'' (get_string m ''raw_record'') MaxRawRecordLength False)))))))"

text \<open>\<^verbatim>\<open>EVENT_CLASS_AUTHENTICATION\<close> is the class the contract gives that name.\<close>

definition authentication_class :: "contract \<Rightarrow> event_class option" where
  "authentication_class c =
     map_option fst (List.find (\<lambda>e. snd e = ''EVENT_CLASS_AUTHENTICATION'') (ct_class_name c))"

definition validateBody :: "contract \<Rightarrow> pmessage \<Rightarrow> violation option" where
  "validateBody c record =
     (if Some (get_enum record ''event_class'') = authentication_class c then
        (case get_message record ''authentication'' of
           None \<Rightarrow> violation_of ''authentication'' ''is required for this event class''
         | Some a \<Rightarrow> validateAuthentication c a)
      else violation_of ''event_class'' ''is unspecified or unknown'')"

definition event_ValidateContract :: "contract \<Rightarrow> pmessage option \<Rightarrow> violation option" where
  "event_ValidateContract c event =
     (case event of None \<Rightarrow> violation_of ''event'' ''is missing''
      | Some e \<Rightarrow>
          or_else (identifier_check ''event_id'' (get_string e ''event_id''))
            (if get_int e ''schema_version'' < 1 \<or> 1 < get_int e ''schema_version''
             then violation_of ''schema_version'' ''must be between 1 and 1''
             else or_else (validateTimestamps (get_message e ''time''))
               (or_else (ValidateOrigin (get_message e ''origin''))
                 (or_else (ValidateCollection (get_message e ''collection''))
                   (or_else (validateReception (get_message e ''reception''))
                     (validateBody c e))))))"

definition withinWindow :: "string \<Rightarrow> instant \<Rightarrow> instant \<Rightarrow> policy \<Rightarrow> violation option" where
  "withinWindow f t now p =
     (if now + po_max_clock_skew p < t
      then violation_of f (''is more than '' @ Duration_String (po_max_clock_skew p) @ '' ahead of the platform clock'')
      else if t < now - po_max_age p
      then violation_of f (''is older than the '' @ Duration_String (po_max_age p) @ '' admission window'')
      else None)"

definition admissible :: "pmessage option \<Rightarrow> instant \<Rightarrow> policy \<Rightarrow> violation option" where
  "admissible stamps now p =
     (let m = or_empty stamps in
      or_else (withinWindow ''time.event_time'' (time_of (get_timestamp m ''event_time'')) now p)
        (withinWindow ''time.observed_time'' (time_of (get_timestamp m ''observed_time'')) now p))"

definition event_Validate ::
  "contract \<Rightarrow> (pmessage \<Rightarrow> nat) \<Rightarrow> pmessage option \<Rightarrow> instant \<Rightarrow> policy \<Rightarrow> violation option" where
  "event_Validate c proto_size event now p =
     or_else (event_ValidateContract c event)
       (let e = or_empty event in
        if MaxEventBytes < proto_size e
        then violation_of ''event'' (''encodes to '' @ dec_of_nat (proto_size e) @ '' bytes and the ceiling is '' @ dec_of_nat MaxEventBytes)
        else admissible (get_message e ''time'') now p)"

section \<open>The text an admitted event carries\<close>

text \<open>The text at the end of a path of names, empty where a message on the way is not set.\<close>

fun text_at :: "pmessage \<Rightarrow> string list \<Rightarrow> string" where
  "text_at m [] = []"
| "text_at m [f] = get_string m f"
| "text_at m (f # g # fs) = text_at (or_empty (get_message m f)) (g # fs)"

definition names_of :: "field \<Rightarrow> string list" where
  "names_of f = split_on CHR ''.'' f"

lemma text_check_length: "text_check f v n r = None \<Longrightarrow> length v \<le> n"
  by (auto simp: text_check_def split: if_splits)

lemma address_check_length: "address_check f v = None \<Longrightarrow> length v \<le> MaxAddressLength"
  by (auto simp: address_check_def split: if_splits)

lemma identifier_check_length: "identifier_check f v = None \<Longrightarrow> length v \<le> MaxEventIDLength"
  using identifierPattern_length by (auto simp: identifier_check_def MaxEventIDLength_def split: if_splits)

lemma get_string_empty [simp]: "get_string [] f = []"
  by (simp add: get_string_def)

lemma get_message_empty [simp]: "get_message [] f = None"
  by (simp add: get_message_def)

lemma or_empty_simps [simp]: "or_empty None = []" "or_empty (Some m) = m"
  by (simp_all add: or_empty_def)

definition bounded_at :: "pmessage \<Rightarrow> string list \<Rightarrow> nat \<Rightarrow> bool" where
  "bounded_at e path n \<longleftrightarrow> length (text_at e path) \<le> n"

lemmas text_lengths = text_check_length address_check_length identifier_check_length

lemma origin_bounded:
  assumes "ValidateOrigin (get_message e ''origin'') = None"
  shows "bounded_at e [''origin'', ''tenant_id''] MaxTenantIDLength"
    "bounded_at e [''origin'', ''agent_id''] MaxAgentIDLength"
    "bounded_at e [''origin'', ''host'', ''hostname''] MaxHostnameLength"
    "bounded_at e [''origin'', ''host'', ''ip''] MaxAddressLength"
    "bounded_at e [''origin'', ''host'', ''os''] MaxOperatingSystem"
    "bounded_at e [''origin'', ''host'', ''architecture''] MaxArchitectureLen"
  using assms agentIDPattern_length
  by (auto simp: ValidateOrigin_def bounded_at_def agentidentity_Valid_def MaxAgentIDLength_def
      dest!: text_lengths split: option.splits if_splits)

lemma envelope_bounded:
  assumes "ValidateCollection (get_message e ''collection'') = None" "validateReception (get_message e ''reception'') = None"
  shows "bounded_at e [''collection'', ''collector''] MaxCollectorLength"
    "bounded_at e [''collection'', ''source''] MaxSourceLength"
    "bounded_at e [''reception'', ''gateway''] MaxGatewayLength"
    "bounded_at e [''reception'', ''batch_id''] MaxBatchIDLength"
  using assms
  by (auto simp: ValidateCollection_def validateReception_def bounded_at_def Let_def dest!: text_lengths split: option.splits)

lemma endpoint_bounded: "endpoint_check f (get_message m g) = None \<Longrightarrow> bounded_at m [g, ''ip''] MaxAddressLength"
  by (auto simp: endpoint_check_def bounded_at_def dest!: text_lengths split: option.splits)

lemma authentication_bounded:
  assumes "validateAuthentication c m = None"
  shows "bounded_at m [''outcome_reason''] MaxOutcomeReasonLen" "bounded_at m [''method''] MaxAuthMethodLength"
    "bounded_at m [''user'', ''name''] MaxUserNameLength" "bounded_at m [''user'', ''domain''] MaxUserDomainLength"
    "bounded_at m [''user'', ''uid''] MaxUserIDLength" "bounded_at m [''service'', ''name''] MaxServiceNameLength"
    "bounded_at m [''service'', ''protocol''] MaxProtocolLength"
    "bounded_at m [''network'', ''source'', ''ip''] MaxAddressLength"
    "bounded_at m [''network'', ''destination'', ''ip''] MaxAddressLength"
    "bounded_at m [''raw_record''] MaxRawRecordLength"
proof -
  have n: "validateNetwork c (get_message m ''network'') = None" "validateUser (get_message m ''user'') = None"
    "validateService (get_message m ''service'') = None"
    and t: "text_check ''authentication.outcome_reason'' (get_string m ''outcome_reason'') MaxOutcomeReasonLen False = None"
      "text_check ''authentication.method'' (get_string m ''method'') MaxAuthMethodLength False = None"
      "text_check ''authentication.raw_record'' (get_string m ''raw_record'') MaxRawRecordLength False = None"
    using assms unfolding validateAuthentication_def or_else_None by blast+
  show "bounded_at m [''outcome_reason''] MaxOutcomeReasonLen" "bounded_at m [''method''] MaxAuthMethodLength"
    "bounded_at m [''raw_record''] MaxRawRecordLength"
    using t [THEN text_check_length] by (simp_all add: bounded_at_def)
  show "bounded_at m [''user'', ''name''] MaxUserNameLength" "bounded_at m [''user'', ''domain''] MaxUserDomainLength"
    "bounded_at m [''user'', ''uid''] MaxUserIDLength"
    using n(2) by (auto simp: validateUser_def bounded_at_def dest!: text_lengths split: option.splits)
  show "bounded_at m [''service'', ''name''] MaxServiceNameLength" "bounded_at m [''service'', ''protocol''] MaxProtocolLength"
    using n(3) by (auto simp: validateService_def bounded_at_def dest!: text_lengths split: option.splits)
  show "bounded_at m [''network'', ''source'', ''ip''] MaxAddressLength"
    "bounded_at m [''network'', ''destination'', ''ip''] MaxAddressLength"
    using n(1) endpoint_bounded
    by (fastforce simp: validateNetwork_def bounded_at_def split: option.splits if_splits)+
qed

lemma contract_parts:
  assumes "event_ValidateContract c (Some e) = None"
  shows "identifier_check ''event_id'' (get_string e ''event_id'') = None"
    "ValidateOrigin (get_message e ''origin'') = None" "ValidateCollection (get_message e ''collection'') = None"
    "validateReception (get_message e ''reception'') = None"
    "\<exists>m. get_message e ''authentication'' = Some m \<and> validateAuthentication c m = None"
  using assms by (auto simp: event_ValidateContract_def validateBody_def split: if_splits option.splits)

lemma bounded_at_Cons: "get_message e f = Some m \<Longrightarrow> bounded_at m (g # gs) n \<Longrightarrow> bounded_at e (f # g # gs) n"
  by (simp add: bounded_at_def)

lemma names_of_longest:
  "map names_of (keys_of longest) =
     [[''event_id''], [''origin'', ''tenant_id''], [''origin'', ''agent_id''], [''origin'', ''host'', ''hostname''],
      [''origin'', ''host'', ''ip''], [''origin'', ''host'', ''os''], [''origin'', ''host'', ''architecture''],
      [''collection'', ''collector''], [''collection'', ''source''], [''reception'', ''gateway''],
      [''reception'', ''batch_id''], [''authentication'', ''outcome_reason''], [''authentication'', ''method''],
      [''authentication'', ''user'', ''name''], [''authentication'', ''user'', ''domain''],
      [''authentication'', ''user'', ''uid''], [''authentication'', ''service'', ''name''],
      [''authentication'', ''service'', ''protocol''], [''authentication'', ''network'', ''source'', ''ip''],
      [''authentication'', ''network'', ''destination'', ''ip''], [''authentication'', ''raw_record'']]"
  by code_simp

lemma longest_bounded:
  assumes "event_ValidateContract c (Some e) = None"
  shows "list_all2 (bounded_at e) (map names_of (keys_of longest)) (map snd longest)"
proof -
  note parts = contract_parts [OF assms]
  obtain m where m: "get_message e ''authentication'' = Some m" "validateAuthentication c m = None" using parts(5) by blast
  have "bounded_at e [''event_id''] MaxEventIDLength"
    using identifier_check_length [OF parts(1)] by (simp add: bounded_at_def)
  moreover note origin_bounded [OF parts(2)] envelope_bounded [OF parts(3,4)]
    authentication_bounded [OF m(2), THEN bounded_at_Cons [OF m(1)]]
  ultimately show ?thesis unfolding names_of_longest by (simp add: longest_def)
qed


definition sample_contract :: contract where
  "sample_contract =
     \<lparr>ct_event = ''Event'',
      ct_fields = (\<lambda>m.
        if m = ''Event'' then
          [\<lparr>fd_name = ''event_id'', fd_kind = StringKind, fd_list = False, fd_map = False, fd_message = [],
            fd_enum = \<lparr>en_name = [], en_values = []\<rparr>, fd_oneof = False\<rparr>,
           \<lparr>fd_name = ''authentication'', fd_kind = MessageKind, fd_list = False, fd_map = False, fd_message = ''Auth'',
            fd_enum = \<lparr>en_name = [], en_values = []\<rparr>, fd_oneof = True\<rparr>]
        else if m = ''Auth'' then
          [\<lparr>fd_name = ''method'', fd_kind = StringKind, fd_list = False, fd_map = False, fd_message = [],
            fd_enum = \<lparr>en_name = [], en_values = []\<rparr>, fd_oneof = False\<rparr>,
           \<lparr>fd_name = ''attempts'', fd_kind = Uint32Kind, fd_list = False, fd_map = False, fd_message = [],
            fd_enum = \<lparr>en_name = [], en_values = []\<rparr>, fd_oneof = False\<rparr>]
        else []),
      ct_class_name = [(0, ''EVENT_CLASS_UNSPECIFIED''), (1, ''EVENT_CLASS_AUTHENTICATION'')],
      ct_severity_name = [(0, ''SEVERITY_UNSPECIFIED''), (1, ''SEVERITY_LOW''), (2, ''SEVERITY_MEDIUM''),
        (3, ''SEVERITY_HIGH''), (4, ''SEVERITY_CRITICAL'')],
      ct_activity_name = [(1, ''ACTIVITY_LOGON'')], ct_outcome_name = [(1, ''OUTCOME_FAILURE'')],
      ct_transport_name = [(0, ''TRANSPORT_UNSPECIFIED'')],
      ct_printable = (\<lambda>_. True), ct_parse_url = (\<lambda>_. None)\<rparr>"

definition sample_event :: pmessage where
  "sample_event =
     [(''event_id'', VString ''evt-0001''), (''schema_version'', VUint32 1), (''event_class'', VEnum 1),
      (''time'', VMessage [(''event_time'', VMessage [(''seconds'', VInt64 100)]), (''observed_time'', VMessage [(''seconds'', VInt64 101)])]),
      (''origin'', VMessage [(''agent_id'', VString ''web-01''), (''tenant_id'', VString ''acme''),
        (''host'', VMessage [(''ip'', VString ''2001:db8::1''), (''hostname'', VString ''web'')])]),
      (''collection'', VMessage [(''collector'', VString ''sshd'')]),
      (''authentication'', VMessage [(''activity'', VEnum 1), (''outcome'', VEnum 1), (''method'', VString ''password''),
        (''network'', VMessage [(''source'', VMessage [(''ip'', VString ''10.0.0.9''), (''port'', VUint32 2222)])])])]"


end
