(* ===== verification/Alert_Tuning.thy ===== *)
theory Alert_Tuning
  imports Alert_Triage State_Key Event_Validate
begin

text \<open>
  \<^verbatim>\<open>internal/alert\<close>, the estate's half (\<^verbatim>\<open>key.go\<close>, \<^verbatim>\<open>tuning.go\<close>, \<^verbatim>\<open>fold.go\<close>): what two detections have to
  share to be one piece of work, which detections never become work, and what a detection is when it
  reaches the store. A part is the string the estate wrote; a Go map of parts is an association list.
\<close>

section \<open>Parts\<close>

type_synonym part = string

definition PartRule :: part where "PartRule = ''rule''"
definition PartAgent :: part where "PartAgent = ''agent''"
definition PartClass :: part where "PartClass = ''class''"
definition PartSeverity :: part where "PartSeverity = ''severity''"
definition EvidencePrefix :: string where "EvidencePrefix = ''evidence:''"

lemmas part_names = PartRule_def PartAgent_def PartClass_def PartSeverity_def EvidencePrefix_def

definition parts :: "part list" where
  "parts = [PartRule, PartAgent, PartClass, PartSeverity]"

definition part_field :: "part \<Rightarrow> field \<times> bool" where
  "part_field p = (case CutPrefix p EvidencePrefix of (f, evidence) \<Rightarrow> (f, evidence \<and> f \<noteq> []))"

datatype part_error = ErrUndeclaredField | ErrNamesNothing

definition part_refusal :: "contract \<Rightarrow> part \<Rightarrow> part_error option" where
  "part_refusal c p =
     (case part_field p of (f, evidence) \<Rightarrow>
        if evidence then (if KindOf c f = None then Some ErrUndeclaredField else None)
        else if p \<notin> set parts then Some ErrNamesNothing
        else None)"

definition part_valid :: "contract \<Rightarrow> part \<Rightarrow> bool" where
  "part_valid c p = (part_refusal c p = None)"

definition ParsePart :: "contract \<Rightarrow> string \<Rightarrow> part_error + part" where
  "ParsePart c written =
     (let p = TrimSpace written in case part_refusal c p of Some e \<Rightarrow> Inl e | None \<Rightarrow> Inr p)"

text \<open>What a detection holds in a part, and whether it holds anything.\<close>

definition part_of :: "contract \<Rightarrow> part \<Rightarrow> detection \<Rightarrow> string \<times> bool" where
  "part_of c p made =
     (case part_field p of (f, evidence) \<Rightarrow>
        if evidence then HeldIn c made f
        else if p = PartRule then (detection_rule_id made, detection_rule_id made \<noteq> [])
        else if p = PartAgent then (detection_agent made, detection_agent made \<noteq> [])
        else if p = PartClass then (Class_written c (d_class made), d_class made \<noteq> 0)
        else if p = PartSeverity then (Severity_written c (d_severity made), d_severity made \<noteq> 0)
        else ([], False))"

definition distinct_parts :: "part list \<Rightarrow> part list" where
  "distinct_parts keyed = compact (sort keyed)"

definition Unspoken :: "contract \<Rightarrow> detection \<Rightarrow> part list \<Rightarrow> part list" where
  "Unspoken c made keyed =
     filter (\<lambda>p. case part_field p of (f, evidence) \<Rightarrow> evidence \<and> \<not> Speaks c made f) (distinct_parts keyed)"

definition part_written :: "contract \<Rightarrow> detection \<Rightarrow> part \<Rightarrow> string" where
  "part_written c made p = (case part_of c p made of (value, held) \<Rightarrow> if held then value else absent_mark)"

definition correlation_parts :: "contract \<Rightarrow> detection \<Rightarrow> part list \<Rightarrow> string list" where
  "correlation_parts c made keyed =
     detection_tenant made # concat (map (\<lambda>p. [p, part_written c made p]) (distinct_parts keyed))"

definition CorrelationKey :: "contract \<Rightarrow> detection \<Rightarrow> part list \<Rightarrow> string" where
  "CorrelationKey c made keyed = digest 16 (frame_all (correlation_parts c made keyed))"

section \<open>Tuning\<close>

record fold =
  fo_keyed :: "part list"
  fo_window :: duration
  fo_cooldown :: duration

type_synonym selector = "(part, string list) go_map"

record suppression =
  su_rule :: string
  su_when :: selector
  su_reason :: string
  su_until :: instant

record tuning =
  tu_id :: string
  tu_defaults :: fold
  tu_by_rule :: "(string, fold) go_map"
  tu_suppressions :: "suppression list"

datatype tuning_error =
    ErrNegative
  | ErrUnkeyed
  | ErrPart part part_error
  | ErrFoldFor string tuning_error
  | ErrNoReason nat
  | ErrNoSelection nat
  | ErrSelector nat part part_error

definition selector_matches :: "contract \<Rightarrow> selector \<Rightarrow> detection \<Rightarrow> bool" where
  "selector_matches c s made =
     list_all (\<lambda>(p, allowed). case part_of c p made of (value, held) \<Rightarrow> held \<and> value \<in> set allowed) s"

fun first_refused :: "contract \<Rightarrow> part list \<Rightarrow> (part \<times> part_error) option" where
  "first_refused c [] = None"
| "first_refused c (p # ps) = (case part_refusal c p of Some e \<Rightarrow> Some (p, e) | None \<Rightarrow> first_refused c ps)"

definition fold_valid :: "contract \<Rightarrow> fold \<Rightarrow> tuning_error option" where
  "fold_valid c f =
     (if fo_window f < 0 \<or> fo_cooldown f < 0 then Some ErrNegative
      else if PartRule \<notin> set (fo_keyed f) then Some ErrUnkeyed
      else map_option (\<lambda>(p, e). ErrPart p e) (first_refused c (fo_keyed f)))"

fun folds_valid :: "contract \<Rightarrow> (string, fold) go_map \<Rightarrow> tuning_error option" where
  "folds_valid c [] = None"
| "folds_valid c ((rule, f) # rest) =
     (case fold_valid c f of Some e \<Rightarrow> Some (ErrFoldFor rule e) | None \<Rightarrow> folds_valid c rest)"

fun suppressions_valid :: "contract \<Rightarrow> nat \<Rightarrow> suppression list \<Rightarrow> tuning_error option" where
  "suppressions_valid c n [] = None"
| "suppressions_valid c n (s # rest) =
     (if TrimSpace (su_reason s) = [] then Some (ErrNoReason n)
      else if su_rule s = [] \<and> su_when s = [] then Some (ErrNoSelection n)
      else case first_refused c (sort (keys_of (su_when s))) of
        Some (p, e) \<Rightarrow> Some (ErrSelector n p e)
      | None \<Rightarrow> suppressions_valid c (Suc n) rest)"

definition fold_parts :: "string \<Rightarrow> fold \<Rightarrow> string list" where
  "fold_parts name f =
     name # sort (fo_keyed f) @ [Duration_String (fo_window f), Duration_String (fo_cooldown f)]"

definition selector_parts :: "selector \<Rightarrow> string list" where
  "selector_parts s = concat (map (\<lambda>p. p # sort (lookup_or [] s p)) (sort (keys_of s)))"

definition suppression_parts :: "suppression \<Rightarrow> string list" where
  "suppression_parts s = [su_rule s, su_reason s, RFC3339 (su_until s)] @ selector_parts (su_when s)"

definition tuning_parts :: "fold \<Rightarrow> (string, fold) go_map \<Rightarrow> suppression list \<Rightarrow> string list" where
  "tuning_parts defaults by_rule suppressions =
     fold_parts [] defaults @
     concat (map (\<lambda>rule. fold_parts rule (lookup_or \<lparr>fo_keyed = [], fo_window = 0, fo_cooldown = 0\<rparr> by_rule rule))
       (sort (keys_of by_rule))) @
     concat (map suppression_parts suppressions)"

definition tuning_identify :: "fold \<Rightarrow> (string, fold) go_map \<Rightarrow> suppression list \<Rightarrow> string" where
  "tuning_identify defaults by_rule suppressions = digest 16 (frame_all (tuning_parts defaults by_rule suppressions))"

definition NewTuning :: "contract \<Rightarrow> fold \<Rightarrow> (string, fold) go_map \<Rightarrow> suppression list \<Rightarrow> tuning_error + tuning" where
  "NewTuning c defaults by_rule suppressions =
     (case or_else (fold_valid c defaults) (or_else (folds_valid c by_rule) (suppressions_valid c 1 suppressions)) of
        Some e \<Rightarrow> Inl e
      | None \<Rightarrow>
          Inr \<lparr>tu_id = tuning_identify defaults by_rule suppressions, tu_defaults = defaults,
            tu_by_rule = by_rule, tu_suppressions = suppressions\<rparr>)"

definition tuning_fold :: "tuning \<Rightarrow> string \<Rightarrow> fold" where
  "tuning_fold t rule = (case lookup (tu_by_rule t) rule of Some f \<Rightarrow> f | None \<Rightarrow> tu_defaults t)"

definition applies :: "contract \<Rightarrow> detection \<Rightarrow> instant \<Rightarrow> suppression \<Rightarrow> bool" where
  "applies c made now s =
     (\<not> (su_rule s \<noteq> [] \<and> su_rule s \<noteq> detection_rule_id made) \<and>
      \<not> (su_until s \<noteq> 0 \<and> \<not> now < su_until s) \<and> selector_matches c (su_when s) made)"

definition Suppressed :: "contract \<Rightarrow> tuning \<Rightarrow> detection \<Rightarrow> instant \<Rightarrow> suppression option" where
  "Suppressed c t made now = List.find (applies c made now) (tu_suppressions t)"

section \<open>What reaches the store\<close>

datatype outcome = OutcomeRaised | OutcomeFolded | OutcomeRepeated | OutcomeSuppressed | OutcomeCooledDown

record candidate =
  ca_alert :: alert
  ca_detection :: string
  ca_key :: string
  ca_unspoken :: "part list"
  ca_at :: instant
  ca_window :: duration
  ca_cooldown :: duration

definition Consider :: "contract \<Rightarrow> detection \<Rightarrow> tuning \<Rightarrow> instant \<Rightarrow> raise_error + candidate" where
  "Consider c made t now =
     (case Raise made now of
        Inl e \<Rightarrow> Inl e
      | Inr a \<Rightarrow>
          let f = tuning_fold t (detection_rule_id made); k = CorrelationKey c made (fo_keyed f) in
          Inr \<lparr>ca_alert = a\<lparr>al_correlation_key := k\<rparr>, ca_detection = d_id made, ca_key = k,
            ca_unspoken = Unspoken c made (fo_keyed f), ca_at = Happened made now,
            ca_window = fo_window f, ca_cooldown = fo_cooldown f\<rparr>)"

section \<open>What a correlation key tells apart\<close>

definition written_key :: "contract \<Rightarrow> detection \<Rightarrow> part list \<Rightarrow> (part \<times> string) list" where
  "written_key c made keyed = map (\<lambda>p. (p, part_written c made p)) (distinct_parts keyed)"

lemma map_pairs2:
  "map (\<lambda>p. [p, f p]) xs = map (\<lambda>p. [p, g p]) ys \<longleftrightarrow> map (\<lambda>p. (p, f p)) xs = map (\<lambda>p. (p, g p)) ys"
proof (induction xs arbitrary: ys)
  case (Cons x xs)
  then show ?case by (cases ys) auto
qed simp

lemma correlation_parts_inject:
  "correlation_parts c d k = correlation_parts c d' k' \<longleftrightarrow>
     detection_tenant d = detection_tenant d' \<and> written_key c d k = written_key c d' k'"
  using concat_pairs_inject [of "\<lambda>p. [p, part_written c d p]" "\<lambda>p. [p, part_written c d' p]"]
  by (simp add: correlation_parts_def written_key_def map_pairs2)


lemma NewTuning_Inr:
  assumes "NewTuning c defaults by_rule suppressions = Inr t"
  shows "fold_valid c (tuning_fold t rule) = None" "suppressions_valid c 1 (tu_suppressions t) = None"
proof -
  have "folds_valid c m = None \<Longrightarrow> lookup m rule = Some f \<Longrightarrow> fold_valid c f = None" for m f
    by (induction c m rule: folds_valid.induct) (auto split: option.splits if_splits)
  then show "fold_valid c (tuning_fold t rule) = None" "suppressions_valid c 1 (tu_suppressions t) = None"
    using assms by (auto simp: NewTuning_def tuning_fold_def split: option.splits)
qed

lemma fold_valid_rule: "fold_valid c f = None \<Longrightarrow> PartRule \<in> set (distinct_parts (fo_keyed f))"
  by (auto simp: fold_valid_def distinct_parts_def split: if_splits)

lemma part_written_rule: "detection_rule_id d \<noteq> [] \<Longrightarrow> part_written c d PartRule = detection_rule_id d"
  by (simp add: part_written_def part_of_def part_field_def CutPrefix_def part_names)

lemma written_key_at:
  assumes "written_key c d k = written_key c d' k'" "p \<in> set (distinct_parts k)"
  shows "part_written c d p = part_written c d' p"
proof -
  have "(p, part_written c d p) \<in> set (written_key c d k)" using assms(2) by (simp add: written_key_def)
  with assms(1) show ?thesis by (auto simp: written_key_def)
qed


section \<open>Suppressions\<close>

lemma suppressions_valid_reason:
  "suppressions_valid c n ss = None \<Longrightarrow> s \<in> set ss \<Longrightarrow>
   TrimSpace (su_reason s) \<noteq> [] \<and> (su_rule s \<noteq> [] \<or> su_when s \<noteq> [])"
  by (induction c n ss rule: suppressions_valid.induct) (auto split: if_splits option.splits)

text \<open>
  C34. A detection is held back only by a suppression the document states: the first one that applies,
  with a reason, not expired at the instant asked about, of that rule or of every rule but then
  selecting something, and every part it selects on holds one of the values it allows.
\<close>

theorem suppressed_for_a_reason:
  assumes "NewTuning c defaults by_rule suppressions = Inr t" "Suppressed c t made now = Some s"
  shows "TrimSpace (su_reason s) \<noteq> [] \<and> (su_until s = 0 \<or> now < su_until s) \<and>
    (su_rule s = detection_rule_id made \<and> su_rule s \<noteq> [] \<or> su_rule s = [] \<and> su_when s \<noteq> []) \<and>
    selector_matches c (su_when s) made \<and>
    (\<exists>before after. tu_suppressions t = before @ s # after \<and> \<not> list_ex (applies c made now) before)"
proof -
  obtain i where i: "i < length (tu_suppressions t)" "tu_suppressions t ! i = s" "applies c made now s"
    "\<forall>j < i. \<not> applies c made now (tu_suppressions t ! j)"
    using assms(2) by (auto simp: Suppressed_def find_Some_iff)
  have "tu_suppressions t = take i (tu_suppressions t) @ s # drop (Suc i) (tu_suppressions t)"
    using i(1,2) id_take_nth_drop by blast
  moreover have "\<not> list_ex (applies c made now) (take i (tu_suppressions t))"
    using i(1,4) by (auto simp: list_ex_iff in_set_conv_nth)
  moreover have "s \<in> set (tu_suppressions t)" using i(1,2) by auto
  ultimately show ?thesis
    using suppressions_valid_reason [OF NewTuning_Inr(2) [OF assms(1)]] i(3) by (fastforce simp: applies_def)
qed

section \<open>Replays\<close>


section \<open>Examples\<close>

definition sample_fold :: fold where
  "sample_fold = \<lparr>fo_keyed = [PartRule, PartAgent], fo_window = 3600 * second, fo_cooldown = 0\<rparr>"

definition sample_suppression :: suppression where
  "sample_suppression =
     \<lparr>su_rule = ''ssh.bruteforce'', su_when = [(PartSeverity, [''high''])], su_reason = ''pentest'', su_until = 0\<rparr>"

definition sample_tuning :: tuning where
  "sample_tuning =
     \<lparr>tu_id = tuning_identify sample_fold [] [sample_suppression], tu_defaults = sample_fold, tu_by_rule = [],
      tu_suppressions = [sample_suppression]\<rparr>"

lemma sample_tuning_new:
  "NewTuning sample_contract sample_fold [] [sample_suppression] = Inr sample_tuning"
proof -
  have "fold_valid sample_contract sample_fold = None" "suppressions_valid sample_contract 1 [sample_suppression] = None"
    by code_simp+
  then show ?thesis by (simp add: NewTuning_def sample_tuning_def or_else_def del: suppressions_valid.simps)
qed

lemma sample_considered: "\<exists>x. Consider c sample_detection t now = Inr x"
  by (simp add: Consider_def Raise_def Let_def sample_detection_def detection_tenant_def or_empty_def get_string_def)


theorem suppressed_for_a_reason_witness:
  "Suppressed sample_contract sample_tuning sample_detection 5 = Some sample_suppression \<and>
   TrimSpace (su_reason sample_suppression) \<noteq> [] \<and> selector_matches sample_contract (su_when sample_suppression) sample_detection"
proof -
  have "applies sample_contract sample_detection 5 sample_suppression" by code_simp
  then have s: "Suppressed sample_contract sample_tuning sample_detection 5 = Some sample_suppression"
    by (simp add: Suppressed_def sample_tuning_def)
  show ?thesis using suppressed_for_a_reason [OF sample_tuning_new s] s by blast
qed


definition two_values :: suppression where
  "two_values = sample_suppression\<lparr>su_when := [(PartAgent, [''low'', ''severity'', ''x''])]\<rparr>"

definition two_parts :: suppression where
  "two_parts = sample_suppression\<lparr>su_when := [(PartAgent, [''low'']), (PartSeverity, [''x''])]\<rparr>"

text \<open>
  A tuning document is named by its content, but two documents that suppress different detections
  can carry one name: a selector on one part with three values and a selector on two parts write the
  same text.
\<close>

theorem tunings_share_a_name:
  "\<exists>t t'. NewTuning sample_contract sample_fold [] [two_values] = Inr t \<and>
     NewTuning sample_contract sample_fold [] [two_parts] = Inr t' \<and>
     tu_id t = tu_id t' \<and> tu_suppressions t \<noteq> tu_suppressions t'"
proof -
  have "fold_valid sample_contract sample_fold = None" "suppressions_valid sample_contract 1 [two_values] = None"
    "suppressions_valid sample_contract 1 [two_parts] = None" "two_values \<noteq> two_parts"
    "selector_parts (su_when two_values) = selector_parts (su_when two_parts)"
    by code_simp+
  moreover from this have "tuning_parts sample_fold [] [two_values] = tuning_parts sample_fold [] [two_parts]"
    by (simp add: tuning_parts_def suppression_parts_def two_values_def two_parts_def)
  ultimately show ?thesis by (simp add: NewTuning_def tuning_identify_def or_else_def del: suppressions_valid.simps)
qed

end
