(* ===== verification/Go_Base64.thy ===== *)
theory Go_Base64
  imports Go_Quote
begin

text \<open>
  \<^verbatim>\<open>encoding/base64.RawURLEncoding\<close> and \<^verbatim>\<open>strconv.ParseInt\<close>, which the platform's cursors are written
  with. Decoding skips line breaks and accepts whatever the unused low bits of the last character hold, as
  Go's lenient decoder does.
\<close>

section \<open>Base 64\<close>

definition sextet_char :: "nat \<Rightarrow> char" where
  "sextet_char n =
     (if n < 26 then char_of (65 + n) else if n < 52 then char_of (71 + n)
      else if n < 62 then char_of (n - 4) else if n = 62 then CHR ''-'' else CHR ''_'')"

definition char_sextet :: "char \<Rightarrow> nat option" where
  "char_sextet c =
     (let b = byte c in
      if 65 \<le> b \<and> b \<le> 90 then Some (b - 65)
      else if 97 \<le> b \<and> b \<le> 122 then Some (b - 71)
      else if 48 \<le> b \<and> b \<le> 57 then Some (b + 4)
      else if b = 45 then Some 62
      else if b = 95 then Some 63
      else None)"

fun sextets :: "nat list \<Rightarrow> nat list" where
  "sextets (a # b # c # rest) =
     [a div 4, (a mod 4) * 16 + b div 16, (b mod 16) * 4 + c div 64, c mod 64] @ sextets rest"
| "sextets [a, b] = [a div 4, (a mod 4) * 16 + b div 16, (b mod 16) * 4]"
| "sextets [a] = [a div 4, (a mod 4) * 16]"
| "sextets [] = []"

definition base64_encode :: "string \<Rightarrow> string" where
  "base64_encode s = map sextet_char (sextets (map of_char s))"

fun octets :: "nat list \<Rightarrow> nat list option" where
  "octets (w # x # y # z # rest) =
     map_option (\<lambda>bs. [w * 4 + x div 16, (x mod 16) * 16 + y div 4, (y mod 4) * 64 + z] @ bs) (octets rest)"
| "octets [w, x, y] = Some [w * 4 + x div 16, (x mod 16) * 16 + y div 4]"
| "octets [w, x] = Some [w * 4 + x div 16]"
| "octets [w] = None"
| "octets [] = Some []"

fun all_sextets :: "string \<Rightarrow> nat list option" where
  "all_sextets [] = Some []"
| "all_sextets (c # s) =
     (if byte c = 10 \<or> byte c = 13 then all_sextets s
      else case char_sextet c of None \<Rightarrow> None | Some n \<Rightarrow> map_option ((#) n) (all_sextets s))"

definition base64_decode :: "string \<Rightarrow> string option" where
  "base64_decode s = map_option (map char_of) (Option.bind (all_sextets s) octets)"

lemma char_sextet_char: "n < 64 \<Longrightarrow> char_sextet (sextet_char n) = Some n \<and> byte (sextet_char n) \<noteq> 10 \<and> byte (sextet_char n) \<noteq> 13"
  by (auto simp: char_sextet_def sextet_char_def Let_def)

lemma all_sextets_map: "list_all (\<lambda>n. n < 64) ns \<Longrightarrow> all_sextets (map sextet_char ns) = Some ns"
  by (induction ns) (auto simp: char_sextet_char)

lemma sextets_bounded: "list_all (\<lambda>b. b < 256) bs \<Longrightarrow> list_all (\<lambda>n. n < 64) (sextets bs)"
  by (induction bs rule: sextets.induct) (auto simp: less_mult_imp_div_less)

lemma octets_sextets: "list_all (\<lambda>b. b < 256) bs \<Longrightarrow> octets (sextets bs) = Some bs"
proof (induction bs rule: sextets.induct)
  case (1 a b c rest)
  then have "a < 256" "b < 256" "c < 256" "octets (sextets rest) = Some rest" by auto
  moreover from this have "(a mod 4 * 16 + b div 16) div 16 = a mod 4" "(b mod 16 * 4 + c div 64) div 4 = b mod 16"
    "(a mod 4 * 16 + b div 16) mod 16 = b div 16" "(b mod 16 * 4 + c div 64) mod 4 = c div 64"
    by auto
  ultimately show ?case by simp
next
  case (2 a b)
  then have "a < 256" "b < 256" by auto
  moreover from this have "(a mod 4 * 16 + b div 16) div 16 = a mod 4" "(a mod 4 * 16 + b div 16) mod 16 = b div 16" by auto
  ultimately show ?case by simp
qed simp_all

text \<open>Decoding what was encoded gives it back.\<close>

lemma base64_roundtrip: "base64_decode (base64_encode s) = Some s"
proof -
  have b: "list_all (\<lambda>b. b < 256) (map of_char s :: nat list)" by (simp add: list_all_iff)
  have "map char_of (map of_char s :: nat list) = s" by (simp add: map_idI)
  then show ?thesis
    using octets_sextets [OF b] all_sextets_map [OF sextets_bounded [OF b]]
    by (simp add: base64_decode_def base64_encode_def)
qed

section \<open>ParseInt\<close>

definition max_int64 :: int where "max_int64 = 2 ^ 63 - 1"
definition min_int64 :: int where "min_int64 = - (2 ^ 63)"

definition ParseInt64 :: "string \<Rightarrow> int option" where
  "ParseInt64 s =
     (let sign = (case s of c # _ \<Rightarrow> c = CHR ''-'' \<or> c = CHR ''+'' | [] \<Rightarrow> False);
          body = (if sign then tl s else s)
      in if body = [] \<or> \<not> list_all is_digit body then None
         else let n = (if sign \<and> hd s = CHR ''-'' then - int (nat_of_dec body) else int (nat_of_dec body))
         in if min_int64 \<le> n \<and> n \<le> max_int64 then Some n else None)"

lemma not_sign_digit: "is_digit c \<Longrightarrow> c \<noteq> CHR ''-'' \<and> c \<noteq> CHR ''+''"
  by (auto simp: is_digit_def)

lemma ParseInt64_itoa: "min_int64 \<le> n \<Longrightarrow> n \<le> max_int64 \<Longrightarrow> ParseInt64 (itoa n) = Some n"
proof (cases "n < 0")
  case True
  moreover assume "min_int64 \<le> n" "n \<le> max_int64"
  ultimately show ?thesis using dec_of_nat_digits [of "nat (- n)"] by (simp add: ParseInt64_def itoa_def Let_def)
next
  case False
  moreover assume "min_int64 \<le> n" "n \<le> max_int64"
  moreover have "dec_of_nat (nat n) = c # s \<Longrightarrow> c \<noteq> CHR ''-'' \<and> c \<noteq> CHR ''+''" for c s
    using dec_of_nat_digits [of "nat n"] not_sign_digit by simp
  ultimately show ?thesis
    using dec_of_nat_digits [of "nat n"] by (auto simp: ParseInt64_def itoa_def Let_def split: list.split)
qed

lemma itoa_no_dot: "CHR ''.'' \<notin> set (itoa n)"
  using dec_of_nat_digits [of "nat n"] dec_of_nat_digits [of "nat (- n)"]
  by (auto simp: itoa_def list_all_iff is_digit_def)

end
