(* ===== verification/Alert_Store.thy ===== *)
theory Alert_Store
  imports Alert_Tuning Go_Base64 "HOL-Library.Product_Lexorder"
begin

text \<open>
  The alerts as the store keeps them (\<^verbatim>\<open>internal/postgres/alerts.go\<close>, \<^verbatim>\<open>fold.go\<close>): the tables as lists of
  rows, each statement of the source as the function it computes on them, a transaction as one step. A
  \<^verbatim>\<open>TIMESTAMPTZ\<close> holds whole microseconds. A failed transaction leaves the tables as they were and is no
  step. Text is compared by its bytes.
\<close>

section \<open>Rows\<close>

definition pg_time :: "instant \<Rightarrow> instant" where
  "pg_time t = (t div 1000) * 1000"

record alert_row =
  ro_id :: string
  ro_schema_version :: int
  ro_tenant :: string
  ro_detection :: string
  ro_rule_id :: string
  ro_rule_revision :: int
  ro_rule_name :: string
  ro_catalogue :: string
  ro_identifier :: string
  ro_severity :: string
  ro_tactic :: string
  ro_technique_id :: string
  ro_technique_name :: string
  ro_class :: string
  ro_agent :: string
  ro_event_time :: "instant option"
  ro_raised_at :: instant
  ro_state :: string
  ro_assignee :: string
  ro_changed_by :: string
  ro_changed_at :: instant
  ro_revision :: int
  ro_closure_state :: string
  ro_closure_reason :: string
  ro_closure_by :: string
  ro_closure_at :: "instant option"
  ro_key :: string
  ro_occurrences :: int
  ro_first_seen :: instant
  ro_last_seen :: instant

fun state_text :: "alert_state \<Rightarrow> string" where
  "state_text Open = ''open''"
| "state_text Acknowledged = ''acknowledged''"
| "state_text InInvestigation = ''in_investigation''"
| "state_text Resolved = ''resolved''"
| "state_text FalsePositive = ''false_positive''"
| "state_text (OtherState s) = s"

text \<open>The conversion \<^verbatim>\<open>alert.State(named)\<close>.\<close>

definition text_state :: "string \<Rightarrow> alert_state" where
  "text_state s = (case List.find (\<lambda>t. state_text t = s) states of Some t \<Rightarrow> t | None \<Rightarrow> OtherState s)"

definition row_state :: "alertv1_state \<Rightarrow> string" where
  "row_state w = (case FromWire w of None \<Rightarrow> [] | Some s \<Rightarrow> state_text s)"

definition optional_time :: "timestamp option \<Rightarrow> instant option" where
  "optional_time t = map_option (\<lambda>x. pg_time (AsTime x)) t"

definition stored :: "contract \<Rightarrow> alert \<Rightarrow> alert_row" where
  "stored c a =
     (let rule = al_rule a; src = Option.bind rule wr_source; tech = al_technique a; cl = al_closure a in
      \<lparr>ro_id = al_id a, ro_schema_version = al_schema_version a, ro_tenant = al_tenant a, ro_detection = al_detection a,
       ro_rule_id = (case rule of None \<Rightarrow> [] | Some r \<Rightarrow> wr_id r),
       ro_rule_revision = (case rule of None \<Rightarrow> 0 | Some r \<Rightarrow> uint (wr_revision r)),
       ro_rule_name = (case rule of None \<Rightarrow> [] | Some r \<Rightarrow> wr_name r),
       ro_catalogue = (case src of None \<Rightarrow> [] | Some s \<Rightarrow> src_catalogue s),
       ro_identifier = (case src of None \<Rightarrow> [] | Some s \<Rightarrow> src_identifier s),
       ro_severity = Severity_written c (al_severity a),
       ro_tactic = (case tech of None \<Rightarrow> [] | Some t \<Rightarrow> t_tactic t),
       ro_technique_id = (case tech of None \<Rightarrow> [] | Some t \<Rightarrow> t_id t),
       ro_technique_name = (case tech of None \<Rightarrow> [] | Some t \<Rightarrow> t_name t),
       ro_class = Class_written c (al_class a), ro_agent = al_agent a,
       ro_event_time = optional_time (al_event_time a), ro_raised_at = pg_time (time_of (al_raised_at a)),
       ro_state = row_state (al_state a), ro_assignee = al_assignee a, ro_changed_by = al_changed_by a,
       ro_changed_at = pg_time (time_of (al_changed_at a)), ro_revision = sint (al_revision a),
       ro_closure_state = (case cl of None \<Rightarrow> row_state STATE_UNSPECIFIED | Some x \<Rightarrow> row_state (cl_state x)),
       ro_closure_reason = (case cl of None \<Rightarrow> [] | Some x \<Rightarrow> cl_reason x),
       ro_closure_by = (case cl of None \<Rightarrow> [] | Some x \<Rightarrow> cl_closed_by x),
       ro_closure_at = (case cl of None \<Rightarrow> None | Some x \<Rightarrow> optional_time (cl_closed_at x)),
       ro_key = al_correlation_key a, ro_occurrences = al_occurrences a,
       ro_first_seen = pg_time (time_of (al_first_seen a)), ro_last_seen = pg_time (time_of (al_last_seen a))\<rparr>)"

definition enum_text :: "string \<Rightarrow> string \<Rightarrow> string" where
  "enum_text pre value = (if value = [] then pre @ ''UNSPECIFIED'' else pre @ ToUpper value)"

definition restore :: "contract \<Rightarrow> alert_row \<Rightarrow> alert" where
  "restore c r =
     \<lparr>al_id = ro_id r, al_schema_version = ro_schema_version r, al_tenant = ro_tenant r, al_detection = ro_detection r,
      al_rule = Some \<lparr>wr_id = ro_rule_id r, wr_revision = word_of_int (ro_rule_revision r), wr_name = ro_rule_name r,
        wr_source = (if ro_catalogue r \<noteq> [] \<or> ro_identifier r \<noteq> []
          then Some \<lparr>src_catalogue = ro_catalogue r, src_identifier = ro_identifier r\<rparr> else None)\<rparr>,
      al_severity = enum_value (ct_severity_name c) (enum_text ''SEVERITY_'' (ro_severity r)),
      al_technique = (if ro_tactic r \<noteq> [] \<or> ro_technique_id r \<noteq> [] \<or> ro_technique_name r \<noteq> []
        then Some \<lparr>t_tactic = ro_tactic r, t_id = ro_technique_id r, t_name = ro_technique_name r\<rparr> else None),
      al_class = enum_value (ct_class_name c) (enum_text ''EVENT_CLASS_'' (ro_class r)),
      al_agent = ro_agent r, al_event_time = map_option new_timestamp (ro_event_time r),
      al_raised_at = Some (new_timestamp (ro_raised_at r)), al_state = Wire (text_state (ro_state r)),
      al_assignee = ro_assignee r, al_changed_by = ro_changed_by r, al_changed_at = Some (new_timestamp (ro_changed_at r)),
      al_revision = word_of_int (ro_revision r),
      al_closure = (if ro_closure_state r \<noteq> []
        then Some \<lparr>cl_state = Wire (text_state (ro_closure_state r)), cl_reason = ro_closure_reason r,
          cl_closed_by = ro_closure_by r, cl_closed_at = map_option new_timestamp (ro_closure_at r)\<rparr> else None),
      al_correlation_key = ro_key r, al_occurrences = ro_occurrences r,
      al_first_seen = Some (new_timestamp (ro_first_seen r)), al_last_seen = Some (new_timestamp (ro_last_seen r))\<rparr>"

section \<open>The tables\<close>

record occurrence =
  oc_alert :: string
  oc_detection :: string
  oc_event_time :: instant
  oc_folded_at :: instant

record trail_row =
  tw_alert :: string
  tw_revision :: int
  tw_from :: string
  tw_to :: string
  tw_assignee :: string
  tw_actor :: string
  tw_at :: instant
  tw_note :: string

definition trail :: "transition \<Rightarrow> trail_row" where
  "trail t =
     \<lparr>tw_alert = tr_id t, tw_revision = sint (tr_revision t), tw_from = row_state (tr_from t), tw_to = row_state (tr_to t),
      tw_assignee = tr_assignee t, tw_actor = tr_actor t, tw_at = pg_time (time_of (tr_at t)), tw_note = tr_note t\<rparr>"

definition restoreTransition :: "trail_row \<Rightarrow> transition" where
  "restoreTransition r =
     \<lparr>tr_id = tw_alert r, tr_revision = word_of_int (tw_revision r), tr_from = Wire (text_state (tw_from r)),
      tr_to = Wire (text_state (tw_to r)), tr_assignee = tw_assignee r, tr_actor = tw_actor r,
      tr_at = Some (new_timestamp (tw_at r)), tr_note = tw_note r\<rparr>"

record alert_db =
  db_alerts :: "alert_row list"
  db_trail :: "trail_row list"
  db_occurrences :: "occurrence list"

definition empty_db :: alert_db where
  "empty_db = \<lparr>db_alerts = [], db_trail = [], db_occurrences = []\<rparr>"

definition closed_text :: "string \<Rightarrow> bool" where
  "closed_text s = (s \<in> {''resolved'', ''false_positive''})"

text \<open>\<^verbatim>\<open>ORDER BY ... DESC LIMIT 1\<close>.\<close>

definition newest :: "('a \<Rightarrow> instant) \<Rightarrow> 'a list \<Rightarrow> 'a option" where
  "newest f xs =
     foldl (\<lambda>best x. case best of None \<Rightarrow> Some x | Some b \<Rightarrow> if f b < f x then Some x else Some b) None xs"

definition alreadyFolded :: "alert_db \<Rightarrow> string \<Rightarrow> bool" where
  "alreadyFolded db d = (d \<in> set (map oc_detection (db_occurrences db)))"

definition keyed_rows :: "alert_db \<Rightarrow> candidate \<Rightarrow> alert_row list" where
  "keyed_rows db x = filter (\<lambda>r. ro_tenant r = al_tenant (ca_alert x) \<and> ro_key r = ca_key x) (db_alerts db)"

definition openAlert :: "alert_db \<Rightarrow> candidate \<Rightarrow> string \<times> instant" where
  "openAlert db x =
     (case newest ro_last_seen (filter (\<lambda>r. \<not> closed_text (ro_state r)) (keyed_rows db x)) of
        None \<Rightarrow> ([], 0)
      | Some r \<Rightarrow> (ro_id r, ro_last_seen r))"

definition coolingDown :: "alert_db \<Rightarrow> candidate \<Rightarrow> bool" where
  "coolingDown db x =
     (case newest (\<lambda>r. the (ro_closure_at r))
             (filter (\<lambda>r. closed_text (ro_state r) \<and> ro_closure_at r \<noteq> None) (keyed_rows db x)) of
        None \<Rightarrow> False
      | Some r \<Rightarrow> ca_at x < the (ro_closure_at r) + ca_cooldown x)"

definition foldInto :: "alert_db \<Rightarrow> string \<Rightarrow> instant \<Rightarrow> alert_db" where
  "foldInto db i t =
     db\<lparr>db_alerts := map (\<lambda>r. if ro_id r = i
         then r\<lparr>ro_occurrences := ro_occurrences r + 1, ro_last_seen := max (ro_last_seen r) (pg_time t)\<rparr> else r) (db_alerts db)\<rparr>"

text \<open>\<^verbatim>\<open>ON CONFLICT DO NOTHING\<close> against the primary key and the unique index on the detection.\<close>

definition fold_row :: "alert_db \<Rightarrow> string \<Rightarrow> candidate \<Rightarrow> instant \<Rightarrow> alert_db" where
  "fold_row db into x now =
     (if list_ex (\<lambda>o'. oc_detection o' = ca_detection x) (db_occurrences db) then db
      else db\<lparr>db_occurrences := db_occurrences db @
        [\<lparr>oc_alert = into, oc_detection = ca_detection x, oc_event_time = pg_time (ca_at x), oc_folded_at = pg_time now\<rparr>]\<rparr>)"

definition insertAlert :: "alert_db \<Rightarrow> alert_row \<Rightarrow> alert_db" where
  "insertAlert db r =
     (if list_ex (\<lambda>x. ro_id x = ro_id r) (db_alerts db) then db else db\<lparr>db_alerts := db_alerts db @ [r]\<rparr>)"

definition insertTransition :: "alert_db \<Rightarrow> trail_row \<Rightarrow> alert_db" where
  "insertTransition db t =
     (if list_ex (\<lambda>x. tw_alert x = tw_alert t \<and> tw_revision x = tw_revision t) (db_trail db) then db
      else db\<lparr>db_trail := db_trail db @ [t]\<rparr>)"

definition raise_row :: "contract \<Rightarrow> alert_db \<Rightarrow> candidate \<Rightarrow> instant \<Rightarrow> alert_db" where
  "raise_row c db x now =
     (let a = (ca_alert x)\<lparr>al_correlation_key := ca_key x\<rparr> in
      fold_row (insertTransition (insertAlert db (stored c a)) (trail (Raised a))) (al_id a) x now)"

definition record_one :: "contract \<Rightarrow> alert_db \<Rightarrow> candidate \<Rightarrow> instant \<Rightarrow> alert_db \<times> outcome" where
  "record_one c db x now =
     (if alreadyFolded db (ca_detection x) then (db, OutcomeRepeated)
      else case openAlert db x of (opened, last_seen) \<Rightarrow>
        if opened \<noteq> [] \<and> \<not> last_seen + ca_window x < ca_at x
        then (fold_row (foldInto db opened (ca_at x)) opened x now, OutcomeFolded)
        else if opened = [] \<and> 0 < ca_cooldown x \<and> coolingDown db x then (db, OutcomeCooledDown)
        else (raise_row c db x now, OutcomeRaised))"

fun Record :: "contract \<Rightarrow> alert_db \<Rightarrow> candidate list \<Rightarrow> instant \<Rightarrow> alert_db \<times> outcome list" where
  "Record c db [] now = (db, [])"
| "Record c db (x # xs) now =
     (case record_one c db x now of (db', o') \<Rightarrow>
        case Record c db' xs now of (db'', os) \<Rightarrow> (db'', o' # os))"

text \<open>The advisory locks a batch takes, in the order it takes them.\<close>

definition hold :: "candidate list \<Rightarrow> (string \<times> string) list" where
  "hold xs = compact (sort (map (\<lambda>x. (al_tenant (ca_alert x), ca_key x)) xs))"

section \<open>Moving and reading\<close>

datatype store_error = ErrUnknownAlert | ErrApply alert_error | ErrCursor

definition visible :: "alert_db \<Rightarrow> string \<Rightarrow> string list \<Rightarrow> alert_row option" where
  "visible db i tenants = List.find (\<lambda>r. ro_id r = i \<and> ro_tenant r \<in> set tenants) (db_alerts db)"

definition Alert_read :: "contract \<Rightarrow> alert_db \<Rightarrow> string \<Rightarrow> string list \<Rightarrow> store_error + alert" where
  "Alert_read c db i tenants =
     (case visible db i tenants of None \<Rightarrow> Inl ErrUnknownAlert | Some r \<Rightarrow> Inr (restore c r))"

definition History_read :: "contract \<Rightarrow> alert_db \<Rightarrow> string \<Rightarrow> string list \<Rightarrow> store_error + transition list" where
  "History_read c db i tenants =
     (case Alert_read c db i tenants of
        Inl e \<Rightarrow> Inl e
      | Inr _ \<Rightarrow> Inr (map restoreTransition (sort_key tw_revision (filter (\<lambda>t. tw_alert t = i) (db_trail db)))))"

definition Occurrences_read :: "contract \<Rightarrow> alert_db \<Rightarrow> string \<Rightarrow> string list \<Rightarrow> store_error + occurrence list" where
  "Occurrences_read c db i tenants =
     (case Alert_read c db i tenants of
        Inl e \<Rightarrow> Inl e
      | Inr _ \<Rightarrow> Inr (sort_key (\<lambda>o'. (oc_event_time o', oc_detection o')) (filter (\<lambda>o'. oc_alert o' = i) (db_occurrences db))))"

definition moved_row :: "alert_row \<Rightarrow> alert_row \<Rightarrow> alert_row" where
  "moved_row r n =
     r\<lparr>ro_state := ro_state n, ro_assignee := ro_assignee n, ro_changed_by := ro_changed_by n,
       ro_changed_at := ro_changed_at n, ro_revision := ro_revision n, ro_closure_state := ro_closure_state n,
       ro_closure_reason := ro_closure_reason n, ro_closure_by := ro_closure_by n, ro_closure_at := ro_closure_at n\<rparr>"

definition Move_alert :: "contract \<Rightarrow> alert_db \<Rightarrow> string \<Rightarrow> string list \<Rightarrow> move \<Rightarrow> store_error + alert_db \<times> alert" where
  "Move_alert c db i tenants m =
     (case visible db i tenants of
        None \<Rightarrow> Inl ErrUnknownAlert
      | Some r \<Rightarrow>
          (case Apply (restore c r) m of
             Inl e \<Rightarrow> Inl (ErrApply e)
           | Inr (a, t) \<Rightarrow>
               Inr (insertTransition
                 (db\<lparr>db_alerts := map (\<lambda>x. if ro_id x = al_id a then moved_row x (stored c a) else x) (db_alerts db)\<rparr>) (trail t), a)))"

section \<open>Listings\<close>

definition DefaultPageSize :: int where "DefaultPageSize = 50"
definition MaxPageSize :: int where "MaxPageSize = 500"

record query =
  qu_start :: "instant option"
  qu_end :: "instant option"
  qu_states :: "alertv1_state list"
  qu_severities :: "int list"
  qu_assignee :: string
  qu_rule :: string
  qu_agent :: string
  qu_cursor :: string
  qu_limit :: int

definition UnixMilli :: "instant \<Rightarrow> int" where
  "UnixMilli t = (t - unix_epoch) div millisecond"

definition of_UnixMilli :: "int \<Rightarrow> instant" where
  "of_UnixMilli n = unix_epoch + n * millisecond"

definition encodeCursor :: "instant \<Rightarrow> string \<Rightarrow> string" where
  "encodeCursor t i = base64_encode (itoa (UnixMilli t) @ ''.'' @ i)"

definition decodeCursor :: "string \<Rightarrow> store_error + instant \<times> string" where
  "decodeCursor token =
     (case base64_decode token of
        None \<Rightarrow> Inl ErrCursor
      | Some payload \<Rightarrow>
          (case cut_at CHR ''.'' payload of (written, i, found) \<Rightarrow>
             if \<not> found \<or> i = [] then Inl ErrCursor
             else case ParseInt64 written of None \<Rightarrow> Inl ErrCursor | Some n \<Rightarrow> Inr (of_UnixMilli n, i)))"

definition asked_for :: "contract \<Rightarrow> query \<Rightarrow> string list \<Rightarrow> alert_row \<Rightarrow> bool" where
  "asked_for c q tenants r =
     (let named = filter (\<lambda>s. s \<noteq> []) (map row_state (qu_states q));
          severe = filter (\<lambda>s. s \<noteq> []) (map (Severity_written c) (qu_severities q))
      in ro_tenant r \<in> set tenants \<and>
         (case qu_start q of None \<Rightarrow> True | Some t \<Rightarrow> pg_time t \<le> ro_raised_at r) \<and>
         (case qu_end q of None \<Rightarrow> True | Some t \<Rightarrow> ro_raised_at r < pg_time t) \<and>
         (named \<noteq> [] \<longrightarrow> ro_state r \<in> set named) \<and> (severe \<noteq> [] \<longrightarrow> ro_severity r \<in> set severe) \<and>
         (qu_assignee q \<noteq> [] \<longrightarrow> ro_assignee r = qu_assignee q) \<and> (qu_rule q \<noteq> [] \<longrightarrow> ro_rule_id r = qu_rule q) \<and>
         (qu_agent q \<noteq> [] \<longrightarrow> ro_agent r = qu_agent q))"

definition page_limit :: "query \<Rightarrow> nat" where
  "page_limit q = nat (min (if qu_limit q \<le> 0 then DefaultPageSize else qu_limit q) MaxPageSize)"

definition page_position :: "alert_row \<Rightarrow> instant \<times> string" where
  "page_position r = (ro_raised_at r, ro_id r)"

definition newest_first :: "alert_row list \<Rightarrow> alert_row list" where
  "newest_first rs = rev (sort_key page_position rs)"

definition Page :: "contract \<Rightarrow> alert_db \<Rightarrow> query \<Rightarrow> string list \<Rightarrow> store_error + alert list \<times> string" where
  "Page c db q tenants =
     (let limit = page_limit q; rows = filter (asked_for c q tenants) (db_alerts db) in
      case (if qu_cursor q = [] then Inr rows
            else case decodeCursor (qu_cursor q) of
              Inl e \<Rightarrow> Inl e
            | Inr (t, i) \<Rightarrow> Inr (filter (\<lambda>r. page_position r < (pg_time t, i)) rows)) of
        Inl e \<Rightarrow> Inl e
      | Inr rows' \<Rightarrow>
          let found = map (restore c) (take (limit + 1) (newest_first rows')) in
          if limit < length found
          then Inr (take limit found,
                 encodeCursor (time_of (al_raised_at (found ! (limit - 1)))) (al_id (found ! (limit - 1))))
          else Inr (found, []))"

section \<open>A batch and its redelivery\<close>

definition recorded :: "alert_db \<Rightarrow> string set" where
  "recorded db = set (map oc_detection (db_occurrences db))"

lemma alreadyFolded_recorded: "alreadyFolded db d \<longleftrightarrow> d \<in> recorded db"
  by (simp add: alreadyFolded_def recorded_def)

lemma list_ex_image: "list_ex (\<lambda>x. f x = k) xs \<longleftrightarrow> k \<in> f ` set xs"
  by (auto simp: list_ex_iff)

lemma fold_row_recorded:
  "fold_row db into x now =
     (if ca_detection x \<in> recorded db then db
      else db\<lparr>db_occurrences := db_occurrences db @
        [\<lparr>oc_alert = into, oc_detection = ca_detection x, oc_event_time = pg_time (ca_at x), oc_folded_at = pg_time now\<rparr>]\<rparr>)"
  by (simp add: fold_row_def list_ex_image recorded_def)

lemma recorded_simps [simp]:
  "recorded (foldInto db i t) = recorded db"
  "recorded (insertAlert db r) = recorded db"
  "recorded (insertTransition db t') = recorded db"
  "recorded (fold_row db i x now) = insert (ca_detection x) (recorded db)"
  by (auto simp: recorded_def foldInto_def insertAlert_def insertTransition_def fold_row_def list_ex_image)

lemma recorded_raise [simp]: "recorded (raise_row c db x now) = insert (ca_detection x) (recorded db)"
  by (simp add: raise_row_def Let_def)

lemma record_one_recorded:
  "record_one c db x now = (db', o') \<Longrightarrow>
   recorded db' = (if o' = OutcomeCooledDown then recorded db else insert (ca_detection x) (recorded db))"
  by (auto simp: record_one_def alreadyFolded_recorded split: if_splits prod.splits)

lemma Record_recorded:
  "Record c db xs now = (db', os) \<Longrightarrow>
   recorded db \<subseteq> recorded db' \<and> (OutcomeCooledDown \<notin> set os \<longrightarrow> ca_detection ` set xs \<subseteq> recorded db')"
proof (induction xs arbitrary: db db' os)
  case (Cons x xs)
  obtain db1 o1 where one: "record_one c db x now = (db1, o1)" by (cases "record_one c db x now")
  obtain db2 os2 where rest: "Record c db1 xs now = (db2, os2)" by (cases "Record c db1 xs now")
  with Cons.prems one have "db' = db2" "os = o1 # os2" by auto
  with Cons.IH [OF rest] record_one_recorded [OF one] show ?case by (auto split: if_splits)
qed simp

lemma Record_repeats:
  "ca_detection ` set xs \<subseteq> recorded db \<Longrightarrow> Record c db xs now = (db, replicate (length xs) OutcomeRepeated)"
  by (induction xs) (auto simp: record_one_def alreadyFolded_recorded)

text \<open>
  C21. A batch none of which was held back by a cooldown is durable once: delivered again, however much
  later, every detection of it is recognised and the tables do not change.
\<close>

theorem batch_repeats:
  assumes "Record c db xs now = (db', os)" "OutcomeCooledDown \<notin> set os"
  shows "Record c db' xs later = (db', replicate (length xs) OutcomeRepeated)"
  using Record_recorded [OF assms(1)] Record_repeats assms(2) by blast

section \<open>The tables count what they hold\<close>

definition count_of :: "alert_db \<Rightarrow> string \<Rightarrow> nat" where
  "count_of db i = length (filter (\<lambda>o'. oc_alert o' = i) (db_occurrences db))"

text \<open>
  Every detection is recorded against one alert, every alert counts the detections recorded against it,
  its own first one among them, and the trail has one line per revision.
\<close>

definition db_ok :: "alert_db \<Rightarrow> bool" where
  "db_ok db \<longleftrightarrow>
     distinct (map ro_id (db_alerts db)) \<and> distinct (map oc_detection (db_occurrences db)) \<and>
     distinct (map (\<lambda>t. (tw_alert t, tw_revision t)) (db_trail db)) \<and>
     list_all (\<lambda>r. ro_occurrences r = int (count_of db (ro_id r)) \<and> ro_id r \<in> recorded db) (db_alerts db) \<and>
     oc_alert ` set (db_occurrences db) \<subseteq> set (map ro_id (db_alerts db))"

lemma db_okI:
  assumes "distinct (map ro_id (db_alerts db))" "distinct (map oc_detection (db_occurrences db))"
    and "distinct (map (\<lambda>t. (tw_alert t, tw_revision t)) (db_trail db))"
    and "\<And>r. r \<in> set (db_alerts db) \<Longrightarrow> ro_occurrences r = int (count_of db (ro_id r)) \<and> ro_id r \<in> recorded db"
    and "oc_alert ` set (db_occurrences db) \<subseteq> set (map ro_id (db_alerts db))"
  shows "db_ok db"
  using assms by (simp add: db_ok_def list_all_iff)

definition own_detection :: "candidate \<Rightarrow> bool" where
  "own_detection x \<longleftrightarrow> al_id (ca_alert x) = ca_detection x \<and> al_occurrences (ca_alert x) = 1"

lemma Consider_own: "Consider c made t now = Inr x \<Longrightarrow> own_detection x"
  by (auto simp: Consider_def Raise_def Let_def own_detection_def split: if_splits)

lemma insertTransition_ok: "db_ok (insertTransition db t) \<longleftrightarrow> db_ok (db\<lparr>db_trail := db_trail (insertTransition db t)\<rparr>)"
  by (auto simp: insertTransition_def)

lemma db_ok_insertTransition [inv_intros]: "db_ok db \<Longrightarrow> db_ok (insertTransition db t)"
  by (auto simp: db_ok_def insertTransition_def count_of_def recorded_def list_ex_iff)

lemma count_of_fold_row:
  "ca_detection x \<notin> recorded db \<Longrightarrow> count_of (fold_row db i x now) j = count_of db j + (if i = j then 1 else 0)"
  by (simp add: count_of_def fold_row_recorded)

lemma fold_row_new:
  "ca_detection x \<notin> recorded db \<Longrightarrow>
   db_alerts (fold_row db i x now) = db_alerts db \<and> db_trail (fold_row db i x now) = db_trail db \<and>
   oc_alert ` set (db_occurrences (fold_row db i x now)) = insert i (oc_alert ` set (db_occurrences db)) \<and>
   map oc_detection (db_occurrences (fold_row db i x now)) = map oc_detection (db_occurrences db) @ [ca_detection x]"
  by (auto simp: fold_row_recorded)

lemma foldInto_simps [simp]:
  "map ro_id (db_alerts (foldInto db i t)) = map ro_id (db_alerts db)"
  "db_occurrences (foldInto db i t) = db_occurrences db" "db_trail (foldInto db i t) = db_trail db"
  "count_of (foldInto db i t) j = count_of db j"
  by (auto simp: foldInto_def count_of_def)

lemma db_ok_folded [inv_intros]:
  assumes "db_ok db" "r \<in> set (db_alerts db)" "ca_detection x \<notin> recorded db"
  shows "db_ok (fold_row (foldInto db (ro_id r) t) (ro_id r) x now)"
proof -
  let ?db = "foldInto db (ro_id r) t"
  have new: "ca_detection x \<notin> recorded ?db" using assms(3) by simp
  have "list_all (\<lambda>r'. ro_occurrences r' = int (count_of db (ro_id r') + (if ro_id r = ro_id r' then 1 else 0)) \<and>
      ro_id r' \<in> insert (ca_detection x) (recorded db)) (db_alerts ?db)"
    using assms(1) by (auto simp: db_ok_def foldInto_def list_all_iff)
  then show ?thesis
    using assms fold_row_new [OF new, of "ro_id r" now] count_of_fold_row [OF new, of "ro_id r" now]
    by (auto simp: db_ok_def recorded_def image_image)
qed

lemma db_ok_raised [inv_intros]:
  assumes "db_ok db" "own_detection x" "ca_detection x \<notin> recorded db"
  shows "db_ok (raise_row c db x now)"
proof -
  let ?a = "(ca_alert x)\<lparr>al_correlation_key := ca_key x\<rparr>"
  let ?db1 = "db\<lparr>db_alerts := db_alerts db @ [stored c ?a]\<rparr>"
  let ?db = "insertTransition ?db1 (trail (Raised ?a))"
  have i: "ro_id (stored c ?a) = ca_detection x" "ro_occurrences (stored c ?a) = 1" "al_id ?a = ca_detection x"
    using assms(2) by (auto simp: stored_def Let_def own_detection_def)
  have unnamed: "ca_detection x \<notin> ro_id ` set (db_alerts db)" using assms(1,3) by (auto simp: db_ok_def list_all_iff)
  then have fresh: "insertAlert db (stored c ?a) = ?db1" using i(1) by (simp add: insertAlert_def list_ex_image)
  have "oc_alert ` set (db_occurrences db) \<subseteq> ro_id ` set (db_alerts db)" using assms(1) by (simp add: db_ok_def)
  then have "ca_detection x \<notin> oc_alert ` set (db_occurrences db)" using unnamed by blast
  then have zero: "count_of db (ca_detection x) = 0"
    by (simp add: count_of_def filter_empty_conv) (metis image_eqI)
  have tr: "db_alerts ?db = db_alerts ?db1" "db_occurrences ?db = db_occurrences db"
    "distinct (map (\<lambda>t. (tw_alert t, tw_revision t)) (db_trail ?db))"
    using assms(1) by (auto simp: insertTransition_def db_ok_def list_ex_iff)
  have new: "ca_detection x \<notin> recorded ?db" using assms(3) tr(2) by (simp add: recorded_def)
  have cnt: "count_of ?db j = count_of db j" for j by (simp add: count_of_def tr(2))
  define out where "out = fold_row ?db (ca_detection x) x now"
  note fr = fold_row_new [OF new, of "ca_detection x" now, folded out_def]
  note ct = count_of_fold_row [OF new, of "ca_detection x" now, folded out_def]
  have rows: "db_alerts out = db_alerts db @ [stored c ?a]" using fr tr(1) by simp
  have rec: "recorded out = insert (ca_detection x) (recorded db)"
    by (simp add: out_def) (simp add: recorded_def)
  have "db_ok out"
  proof (rule db_okI)
    show "distinct (map ro_id (db_alerts out))" using assms(1) unnamed i(1) rows by (simp add: db_ok_def)
    show "distinct (map oc_detection (db_occurrences out))"
      using assms(1,3) fr tr(2) by (simp add: db_ok_def recorded_def)
    show "distinct (map (\<lambda>t. (tw_alert t, tw_revision t)) (db_trail out))" using fr tr(3) by simp
    fix r assume "r \<in> set (db_alerts out)"
    then consider "r \<in> set (db_alerts db)" | "r = stored c ?a" using rows by auto
    then show "ro_occurrences r = int (count_of out (ro_id r)) \<and> ro_id r \<in> recorded out"
    proof cases
      case 1
      then have "ro_id r \<noteq> ca_detection x" using unnamed by (metis image_eqI)
      then show ?thesis using 1 assms(1) ct cnt rec by (simp add: db_ok_def list_all_iff)
    next
      case 2
      then show ?thesis using i(1,2) zero ct cnt rec by simp
    qed
  next
    show "oc_alert ` set (db_occurrences out) \<subseteq> set (map ro_id (db_alerts out))"
      using assms(1) fr tr(2) rows i(1) by (auto simp: db_ok_def)
  qed
  then show ?thesis unfolding raise_row_def Let_def fresh i(3) out_def .
qed

lemma newest_in: "newest f xs = Some x \<Longrightarrow> x \<in> set xs"
proof -
  have "foldl (\<lambda>best x. case best of None \<Rightarrow> Some x | Some b \<Rightarrow> if f b < f x then Some x else Some b) s xs = Some x \<Longrightarrow>
      x \<in> set xs \<or> s = Some x" for s
    by (induction xs arbitrary: s) (force split: option.splits if_splits)+
  then show "newest f xs = Some x \<Longrightarrow> x \<in> set xs" by (auto simp: newest_def)
qed

lemma db_ok_record_one [inv_intros]:
  assumes "db_ok db" "own_detection x" "record_one c db x now = (db', o')"
  shows "db_ok db'"
proof (cases "alreadyFolded db (ca_detection x)")
  case True
  with assms show ?thesis by (simp add: record_one_def)
next
  case False
  then have new: "ca_detection x \<notin> recorded db" by (simp add: alreadyFolded_recorded)
  have "openAlert db x = (i, t) \<Longrightarrow> i \<noteq> [] \<Longrightarrow> \<exists>r \<in> set (db_alerts db). ro_id r = i" for i t
    using newest_in by (fastforce simp: openAlert_def keyed_rows_def split: option.splits)
  with False assms new show ?thesis
    by (auto simp: record_one_def intro: db_ok_folded db_ok_raised split: prod.splits if_splits)
qed

lemma db_ok_Record [inv_intros]:
  "db_ok db \<Longrightarrow> list_all own_detection xs \<Longrightarrow> Record c db xs now = (db', os) \<Longrightarrow> db_ok db'"
proof (induction xs arbitrary: db os)
  case (Cons x xs)
  then show ?case using db_ok_record_one by (fastforce split: prod.splits)
qed simp

lemma db_ok_Move [inv_intros]:
  assumes "db_ok db" "Move_alert c db i tenants m = Inr (db', a)"
  shows "db_ok db'"
proof -
  define f where "f x = (if ro_id x = al_id a then moved_row x (stored c a) else x)" for x
  obtain t where t: "db' = insertTransition (db\<lparr>db_alerts := map f (db_alerts db)\<rparr>) t"
    using assms(2) by (auto simp: Move_alert_def f_def [abs_def] split: option.splits sum.splits)
  have same: "ro_id (f x) = ro_id x" "ro_occurrences (f x) = ro_occurrences x" for x
    by (simp_all add: f_def moved_row_def)
  have "map ro_id (map f (db_alerts db)) = map ro_id (db_alerts db)" using same by simp
  then have "db_ok (db\<lparr>db_alerts := map f (db_alerts db)\<rparr>)"
    using assms(1) same by (simp add: db_ok_def count_of_def recorded_def list_all_iff image_image o_def)
  then show ?thesis unfolding t by (rule db_ok_insertTransition)
qed

text \<open>What happens to the tables: a batch of considered detections is recorded, or somebody moves an alert.\<close>

inductive db_step :: "contract \<Rightarrow> alert_db \<Rightarrow> alert_db \<Rightarrow> bool" for c where
  recorded_batch: "Record c db xs now = (db', os) \<Longrightarrow> list_all own_detection xs \<Longrightarrow> db_step c db db'"
| moved_alert: "Move_alert c db i tenants m = Inr (db', a) \<Longrightarrow> db_step c db db'"

inductive_cases db_stepE: "db_step c db db'"

lemma db_ok_reachable: "(db_step c)\<^sup>*\<^sup>* empty_db db \<Longrightarrow> db_ok db"
proof (induction rule: rtranclp_induct)
  case base
  then show ?case by (simp add: db_ok_def empty_db_def)
next
  case (step db db')
  from step(2,3) show ?case by (auto elim!: db_stepE intro: db_ok_Record db_ok_Move)
qed

text \<open>
  C15. Whatever batches were recorded and whatever alerts were moved, in any order: no two alerts share
  an identifier, every detection is recorded against exactly one alert, and the count an alert carries
  is the number of detections recorded against it.
\<close>

theorem store_counts:
  assumes "(db_step c)\<^sup>*\<^sup>* empty_db db"
  shows "db_ok db"
  using assms by (rule db_ok_reachable)

section \<open>Cursors and pages\<close>

definition in_int64 :: "int \<Rightarrow> bool" where
  "in_int64 n \<longleftrightarrow> min_int64 \<le> n \<and> n \<le> max_int64"

lemma cursor_roundtrip:
  assumes "i \<noteq> []" "in_int64 (UnixMilli t)"
  shows "decodeCursor (encodeCursor t i) = Inr (of_UnixMilli (UnixMilli t), i)"
  using assms cut_at_append [OF itoa_no_dot, of "UnixMilli t" i] ParseInt64_itoa [of "UnixMilli t"]
  by (simp add: decodeCursor_def encodeCursor_def base64_roundtrip in_int64_def)

text \<open>
  C38. A cursor is a round trip up to the millisecond: decoding what was encoded gives the identifier and
  the instant, truncated to the millisecond it falls in, for every instant an \<^verbatim>\<open>int64\<close> of milliseconds holds.
\<close>

theorem cursor_keeps_milliseconds:
  assumes "i \<noteq> []" "in_int64 (UnixMilli t)"
  shows "\<exists>t'. decodeCursor (encodeCursor t i) = Inr (t', i) \<and> t' \<le> t \<and> t < t' + millisecond"
proof -
  have "d div 1000000 * 1000000 \<le> d \<and> d < d div 1000000 * 1000000 + 1000000" for d :: int by presburger
  from this [of "t - unix_epoch"] have "of_UnixMilli (UnixMilli t) \<le> t \<and> t < of_UnixMilli (UnixMilli t) + millisecond"
    by (simp add: of_UnixMilli_def UnixMilli_def millisecond_def)
  with cursor_roundtrip [OF assms] show ?thesis by blast
qed

theorem cursor_keeps_milliseconds_witness:
  "\<exists>t'. decodeCursor (encodeCursor (unix_epoch + 1500000) ''d.1'') = Inr (t', ''d.1'') \<and>
     t' \<le> unix_epoch + 1500000 \<and> unix_epoch + 1500000 < t' + millisecond"
  by (rule cursor_keeps_milliseconds)
     (simp_all add: in_int64_def UnixMilli_def unix_epoch_def duration_units min_int64_def max_int64_def)

fun all_pages :: "contract \<Rightarrow> alert_db \<Rightarrow> query \<Rightarrow> string list \<Rightarrow> nat \<Rightarrow> alert list" where
  "all_pages c db q tenants 0 = []"
| "all_pages c db q tenants (Suc n) =
     (case Page c db q tenants of
        Inl _ \<Rightarrow> []
      | Inr (rows, cursor) \<Rightarrow>
          if cursor = [] then rows else rows @ all_pages c db (q\<lparr>qu_cursor := cursor\<rparr>) tenants n)"

definition whole_row :: "alert_row \<Rightarrow> bool" where
  "whole_row r \<longleftrightarrow> ro_id r \<noteq> [] \<and> in_int64 (UnixMilli (ro_raised_at r)) \<and> of_UnixMilli (UnixMilli (ro_raised_at r)) = ro_raised_at r"

lemma pg_time_milli: "pg_time (of_UnixMilli n) = of_UnixMilli n"
  by (simp add: pg_time_def of_UnixMilli_def unix_epoch_def duration_units)

lemma encodeCursor_nonempty: "encodeCursor t i \<noteq> []"
  using base64_roundtrip [of "itoa (UnixMilli t) @ ''.'' @ i"] by (auto simp: encodeCursor_def base64_decode_def)

lemma page_query [simp]:
  "asked_for c (q\<lparr>qu_cursor := x\<rparr>) tenants = asked_for c q tenants" "page_limit (q\<lparr>qu_cursor := x\<rparr>) = page_limit q"
  by (simp_all add: asked_for_def [abs_def] page_limit_def)

lemma page_limit_pos: "0 < page_limit q"
  by (simp add: page_limit_def DefaultPageSize_def MaxPageSize_def)

definition strictly_newest_first :: "alert_row list \<Rightarrow> bool" where
  "strictly_newest_first rs \<longleftrightarrow> sorted_wrt (\<lambda>a b. page_position b < page_position a) rs"

lemma newest_first_strict:
  assumes "distinct (map ro_id rs)"
  shows "strictly_newest_first (newest_first rs)"
proof -
  have "distinct (map page_position rs)"
    using assms by (auto simp: distinct_map inj_on_def page_position_def)
  then have "distinct (map page_position (sort_key page_position rs))"
    by (metis distinct_map distinct_sort set_sort)
  moreover have "sorted (map page_position (sort_key page_position rs))" by simp
  ultimately have "sorted_wrt (<) (map page_position (sort_key page_position rs))" by (simp add: strict_sorted_iff)
  then show ?thesis by (simp add: strictly_newest_first_def newest_first_def sorted_wrt_rev sorted_wrt_map)
qed

lemma filter_below:
  assumes "strictly_newest_first rs" "k < length rs"
  shows "filter (\<lambda>r. page_position r < page_position (rs ! k)) rs = drop (Suc k) rs"
proof -
  have s: "rs = take (Suc k) rs @ drop (Suc k) rs" by simp
  have "filter (\<lambda>r. page_position r < page_position (rs ! k)) (take (Suc k) rs) = []"
    using assms
    by (auto simp: filter_empty_conv strictly_newest_first_def sorted_wrt_iff_nth_less in_set_conv_nth less_Suc_eq)
       (metis order.asym order_less_irrefl)+
  moreover have "filter (\<lambda>r. page_position r < page_position (rs ! k)) (drop (Suc k) rs) = drop (Suc k) rs"
    using assms
    by (auto simp: filter_id_conv strictly_newest_first_def sorted_wrt_iff_nth_less in_set_conv_nth)
  ultimately show ?thesis by (subst s) (simp only: filter_append append_Nil)
qed

lemma newest_first_filter: "newest_first (filter P rs) = filter P (newest_first rs)"
  by (metis newest_first_def filter_sort rev_filter)

lemma restored_position: "time_of (al_raised_at (restore c r)) = ro_raised_at r" "al_id (restore c r) = ro_id r"
  by (simp_all add: restore_def time_of_def)

lemma Page_from:
  assumes rows: "rows = newest_first (filter (asked_for c q tenants) (db_alerts db))"
    and "strictly_newest_first rows" "list_all whole_row rows"
    and start: "k = 0 \<and> qu_cursor q = [] \<or>
      0 < k \<and> k \<le> length rows \<and> qu_cursor q = encodeCursor (ro_raised_at (rows ! (k - 1))) (ro_id (rows ! (k - 1)))"
  shows "Page c db q tenants =
    (if page_limit q < length rows - k
     then Inr (map (restore c) (take (page_limit q) (drop k rows)),
       encodeCursor (ro_raised_at (rows ! (k + page_limit q - 1))) (ro_id (rows ! (k + page_limit q - 1))))
     else Inr (map (restore c) (drop k rows), []))"
proof -
  let ?F = "filter (asked_for c q tenants) (db_alerts db)"
  have pos: "0 < page_limit q" by (rule page_limit_pos)
  have "(if qu_cursor q = [] then Inr ?F
         else case decodeCursor (qu_cursor q) of Inl e \<Rightarrow> Inl e
           | Inr (t, i) \<Rightarrow> Inr (filter (\<lambda>r. page_position r < (pg_time t, i)) ?F)) =
        (Inr (if k = 0 then ?F else filter (\<lambda>r. page_position r < page_position (rows ! (k - 1))) ?F) :: store_error + _)"
  proof (cases "k = 0")
    case False
    with start have k: "k \<le> length rows" "qu_cursor q = encodeCursor (ro_raised_at (rows ! (k - 1))) (ro_id (rows ! (k - 1)))" by auto
    have "whole_row (rows ! (k - 1))" using assms(3) k False by (simp add: list_all_length)
    then show ?thesis
      using k(2) False cursor_roundtrip [of "ro_id (rows ! (k - 1))" "ro_raised_at (rows ! (k - 1))"] encodeCursor_nonempty
        pg_time_milli
      by (auto simp: whole_row_def page_position_def) metis
  qed (use start in simp)
  moreover have "newest_first (if k = 0 then ?F else filter (\<lambda>r. page_position r < page_position (rows ! (k - 1))) ?F) = drop k rows"
    using start filter_below [OF assms(2), of "k - 1"]
      newest_first_filter [of "\<lambda>r. page_position r < page_position (rows ! (k - 1))" ?F]
    by (auto simp del: filter_filter simp flip: rows)
  moreover have "page_limit q < length rows - k \<Longrightarrow>
      take (page_limit q + 1) (drop k rows) ! (page_limit q - 1) = rows ! (k + page_limit q - 1)"
    using pos by (simp add: Nat.add_diff_assoc)
  moreover have "take (page_limit q) (take (page_limit q + 1) (drop k rows)) = take (page_limit q) (drop k rows)" by (simp add: min_def)
  ultimately show ?thesis
    using restored_position
    by (simp add: Page_def Let_def min_def take_map del: take_take Suc_eq_plus1_left add.commute)
qed

lemma all_pages_from:
  assumes "rows = newest_first (filter (asked_for c q tenants) (db_alerts db))"
    and "strictly_newest_first rows" "list_all whole_row rows"
    and "k = 0 \<and> qu_cursor q = [] \<or>
      0 < k \<and> k \<le> length rows \<and> qu_cursor q = encodeCursor (ro_raised_at (rows ! (k - 1))) (ro_id (rows ! (k - 1)))"
    and "length rows - k < n"
  shows "all_pages c db q tenants n = map (restore c) (drop k rows)"
  using assms
proof (induction n arbitrary: q k)
  case (Suc n)
  let ?l = "page_limit q"
  let ?cursor = "encodeCursor (ro_raised_at (rows ! (k + ?l - 1))) (ro_id (rows ! (k + ?l - 1)))"
  note page = Page_from [OF Suc.prems(1-4)]
  show ?case
  proof (cases "?l < length rows - k")
    case True
    have "all_pages c db (q\<lparr>qu_cursor := ?cursor\<rparr>) tenants n = map (restore c) (drop (k + ?l) rows)"
      using Suc.prems True page_limit_pos [of q] by (intro Suc.IH) auto
    moreover have "take ?l (drop k rows) @ drop (k + ?l) rows = drop k rows"
      by (metis append_take_drop_id drop_drop add.commute)
    ultimately show ?thesis using page True encodeCursor_nonempty by (simp flip: map_append)
  qed (use page in simp)
qed simp


section \<open>Examples\<close>

definition sample_candidate :: "string \<Rightarrow> instant \<Rightarrow> candidate" where
  "sample_candidate d t =
     \<lparr>ca_alert = sample_alert\<lparr>al_id := d, al_detection := d, al_raised_at := Some (new_timestamp t),
        al_first_seen := Some (new_timestamp t), al_last_seen := Some (new_timestamp t)\<rparr>,
      ca_detection = d, ca_key = ''k'', ca_unspoken = [], ca_at = t, ca_window = 60000, ca_cooldown = 20000\<rparr>"

definition sample_query :: query where
  "sample_query = \<lparr>qu_start = None, qu_end = None, qu_states = [], qu_severities = [], qu_assignee = [], qu_rule = [],
     qu_agent = [], qu_cursor = [], qu_limit = 1\<rparr>"

definition sample_db :: alert_db where
  "sample_db = fst (Record sample_contract empty_db [sample_candidate ''d1'' 1000, sample_candidate ''d2'' 9000] 9000)"

lemma sample_recorded:
  "Record sample_contract empty_db [sample_candidate ''d1'' 1000, sample_candidate ''d2'' 9000] 9000 =
     (sample_db, [OutcomeRaised, OutcomeFolded])"
proof -
  have "snd (Record sample_contract empty_db [sample_candidate ''d1'' 1000, sample_candidate ''d2'' 9000] 9000) =
    [OutcomeRaised, OutcomeFolded]" by code_simp
  then show ?thesis by (simp add: sample_db_def prod_eq_iff)
qed

theorem batch_repeats_witness:
  "Record sample_contract sample_db [sample_candidate ''d1'' 1000, sample_candidate ''d2'' 9000] 99000 =
     (sample_db, [OutcomeRepeated, OutcomeRepeated])"
  using batch_repeats [OF sample_recorded, of 99000] by (simp add: numeral_eq_Suc)

lemma sample_reached: "(db_step sample_contract)\<^sup>*\<^sup>* empty_db sample_db"
proof -
  have "list_all own_detection [sample_candidate ''d1'' 1000, sample_candidate ''d2'' 9000]" by code_simp
  with sample_recorded show ?thesis by (blast intro: db_step.intros)
qed

theorem store_counts_witness:
  "db_ok sample_db \<and> map ro_occurrences (db_alerts sample_db) = [2]"
proof -
  have "map ro_occurrences (db_alerts sample_db) = [2]" by code_simp
  with store_counts [OF sample_reached] show ?thesis by blast
qed

definition listed_db :: "instant \<Rightarrow> instant \<Rightarrow> alert_db" where
  "listed_db t t' =
     fst (Record sample_contract empty_db
       [(sample_candidate ''d1'' t)\<lparr>ca_key := ''a''\<rparr>, (sample_candidate ''d2'' t')\<lparr>ca_key := ''b''\<rparr>] 0)"


text \<open>
  A cursor is truncated to the millisecond and the rows hold microseconds, so a listing loses alerts:
  two alerts raised within one millisecond, read one to a page, are not both read, although a single page
  of two lists both.
\<close>

lemma pages_lose_alerts:
  "map al_id (all_pages sample_contract (listed_db (unix_epoch + 1000) (unix_epoch + 2000)) sample_query [''acme''] n) \<noteq>
     [''d2'', ''d1''] \<and>
   map al_id (all_pages sample_contract (listed_db (unix_epoch + 1000) (unix_epoch + 2000)) (sample_query\<lparr>qu_limit := 2\<rparr>) [''acme''] 1) =
     [''d2'', ''d1'']"
proof -
  let ?db = "listed_db (unix_epoch + 1000) (unix_epoch + 2000)"
  let ?q = "sample_query\<lparr>qu_cursor := encodeCursor (unix_epoch + 2000) ''d2''\<rparr>"
  have "case Page sample_contract ?db sample_query [''acme''] of
      Inr (rows, cursor) \<Rightarrow> map al_id rows = [''d2''] \<and> cursor = encodeCursor (unix_epoch + 2000) ''d2'' | Inl _ \<Rightarrow> False"
    "Page sample_contract ?db ?q [''acme''] = Inr ([], [])" by code_simp+
  then have "map al_id (all_pages sample_contract ?db sample_query [''acme''] n) \<noteq> [''d2'', ''d1'']"
    by (cases n; cases "n - 1") (auto split: sum.splits)
  moreover have "map al_id (all_pages sample_contract ?db (sample_query\<lparr>qu_limit := 2\<rparr>) [''acme''] 1) = [''d2'', ''d1'']"
    by code_simp
  ultimately show ?thesis by blast
qed

text \<open>
  A detection held back by a cooldown leaves no trace, so the batch that carried it can decide otherwise
  when it is delivered again: here the first detection was held back and the second, past the cooldown,
  raised an alert that the redelivered first one then folds into.
\<close>

definition closed_db :: alert_db where
  "closed_db = empty_db\<lparr>db_alerts := [(stored sample_contract (ca_alert (sample_candidate ''d0'' 0)))
     \<lparr>ro_key := ''k'', ro_state := ''resolved'', ro_closure_state := ''resolved'', ro_closure_at := Some 10000\<rparr>]\<rparr>"

lemma cooled_down_decides_again:
  "let batch = [sample_candidate ''d1'' 20000, sample_candidate ''d2'' 40000];
       (db, decided) = Record sample_contract closed_db batch 50000
   in decided = [OutcomeCooledDown, OutcomeRaised] \<and>
      snd (Record sample_contract db batch 60000) = [OutcomeFolded, OutcomeRepeated]"
  by code_simp

end
