(* ===== verification/Incident_Triage.thy ===== *)
theory Incident_Triage
  imports Lifecycle Detection_Message
begin

text \<open>
  \<^verbatim>\<open>internal/incident\<close>: what a correlation becomes once a person is responsible for it. The package
  repeats the alert's triage without naming it, and so does this theory; both are instances of
  \<open>lifecycle\<close>. \<^verbatim>\<open>confidence.go\<close> grades how far the clocks support the order of the story.
\<close>

section \<open>States\<close>

datatype incident_state =
    I_Open | I_Acknowledged | I_InInvestigation | I_Resolved | I_FalsePositive | I_OtherState string

definition incident_states :: "incident_state list" where
  "incident_states = [I_Open, I_Acknowledged, I_InInvestigation, I_Resolved, I_FalsePositive]"

definition incident_valid :: "incident_state \<Rightarrow> bool" where
  "incident_valid s = (s \<in> set incident_states)"

definition incident_closed :: "incident_state \<Rightarrow> bool" where
  "incident_closed s = (s = I_Resolved \<or> s = I_FalsePositive)"

fun incident_moves :: "incident_state \<Rightarrow> incident_state list" where
  "incident_moves I_Open = [I_Acknowledged, I_InInvestigation, I_Resolved, I_FalsePositive]"
| "incident_moves I_Acknowledged = [I_InInvestigation, I_Resolved, I_FalsePositive]"
| "incident_moves I_InInvestigation = [I_Resolved, I_FalsePositive]"
| "incident_moves I_Resolved = [I_Open]"
| "incident_moves I_FalsePositive = [I_Open]"
| "incident_moves (I_OtherState _) = []"

definition incident_legal :: "incident_state \<Rightarrow> incident_state \<Rightarrow> bool" where
  "incident_legal s t = (t \<in> set (incident_moves s))"

definition incident_reachable :: "incident_state \<Rightarrow> incident_state list" where
  "incident_reachable s = incident_moves s"

definition incident_explains :: "incident_state \<Rightarrow> incident_state \<Rightarrow> bool" where
  "incident_explains s t = (t = I_FalsePositive \<or> incident_closed s)"

datatype incident_illegal_move =
    I_NamesNoState incident_state
  | I_AlreadyIs incident_state
  | I_GoesNowhere incident_state
  | I_DoesNotBecome incident_state incident_state "incident_state list"

definition incident_illegal :: "incident_state \<Rightarrow> incident_state \<Rightarrow> incident_illegal_move" where
  "incident_illegal s t =
     (if \<not> incident_valid t then I_NamesNoState t
      else if s = t then I_AlreadyIs t
      else if incident_reachable s = [] then I_GoesNowhere s
      else I_DoesNotBecome s t (incident_reachable s))"

datatype incidentv1_state =
    I_STATE_UNSPECIFIED | I_STATE_OPEN | I_STATE_ACKNOWLEDGED | I_STATE_IN_INVESTIGATION
  | I_STATE_RESOLVED | I_STATE_FALSE_POSITIVE | I_STATE_OTHER int

definition incident_wire :: "(incident_state, incidentv1_state) go_map" where
  "incident_wire =
     [(I_Open, I_STATE_OPEN), (I_Acknowledged, I_STATE_ACKNOWLEDGED), (I_InInvestigation, I_STATE_IN_INVESTIGATION),
      (I_Resolved, I_STATE_RESOLVED), (I_FalsePositive, I_STATE_FALSE_POSITIVE)]"

definition incident_Wire :: "incident_state \<Rightarrow> incidentv1_state" where
  "incident_Wire s = lookup_or I_STATE_UNSPECIFIED incident_wire s"

definition incident_FromWire :: "incidentv1_state \<Rightarrow> incident_state option" where
  "incident_FromWire w = map_option fst (List.find (\<lambda>e. snd e = w) incident_wire)"

section \<open>Confidence\<close>

datatype confidence = CONFIDENCE_UNSPECIFIED | CONFIDENCE_LOW | CONFIDENCE_MEDIUM | CONFIDENCE_HIGH

text \<open>\<^verbatim>\<open>AsDuration\<close> saturates at what a \<^verbatim>\<open>time.Duration\<close> holds; a duration that is not set is 0.\<close>

definition AsDuration :: "wire_duration option \<Rightarrow> duration" where
  "AsDuration d =
     (case d of None \<Rightarrow> 0
      | Some x \<Rightarrow> max min_duration (min max_duration (du_seconds x * second + du_nanos x)))"

definition new_duration :: "duration \<Rightarrow> wire_duration" where
  "new_duration d =
     \<lparr>du_seconds = (if 0 \<le> d then d div second else - ((- d) div second)),
      du_nanos = (if 0 \<le> d then d mod second else - ((- d) mod second))\<rparr>"

definition Span :: "wire_correlation \<Rightarrow> duration" where
  "Span k =
     (let stages = wc_stages k in
      if length stages < 2 then 0
      else case (ws_time (hd stages), ws_time (last stages)) of
        (Some first, Some final) \<Rightarrow> time_sub (AsTime final) (AsTime first)
      | _ \<Rightarrow> 0)"

definition Confidence :: "wire_correlation \<Rightarrow> confidence" where
  "Confidence k =
     (if wc_stages k = [] then CONFIDENCE_UNSPECIFIED
      else let spread = AsDuration (wc_spread k) in
        if spread < Span k then CONFIDENCE_HIGH
        else if spread < AsDuration (wc_window k) then CONFIDENCE_MEDIUM
        else CONFIDENCE_LOW)"

section \<open>The record and a move\<close>

record incident_closure =
  ic_state :: incidentv1_state
  ic_reason :: string
  ic_closed_by :: string
  ic_closed_at :: "timestamp option"

record incident =
  in_id :: string
  in_schema_version :: int
  in_tenant :: string
  in_detection :: string
  in_rule :: "wire_rule option"
  in_ruleset :: string
  in_severity :: int
  in_confidence :: confidence
  in_technique :: "technique option"
  in_class :: event_class
  in_agent :: string
  in_stages :: "wire_stage list"
  in_group :: "wire_grouping list"
  in_window :: "wire_duration option"
  in_clock_spread :: "wire_duration option"
  in_first :: "timestamp option"
  in_last :: "timestamp option"
  in_raised_at :: "timestamp option"
  in_state :: incidentv1_state
  in_assignee :: string
  in_changed_by :: string
  in_changed_at :: "timestamp option"
  in_revision :: revision
  in_closure :: "incident_closure option"

record incident_transition =
  it_id :: string
  it_revision :: revision
  it_from :: incidentv1_state
  it_to :: incidentv1_state
  it_assignee :: string
  it_actor :: string
  it_at :: "timestamp option"
  it_note :: string

record incident_move =
  im_to :: incident_state
  im_assignee :: "string option"
  im_note :: string
  im_actor :: string
  im_at :: instant
  im_expected :: revision

datatype incident_error =
    I_ErrStoredState incidentv1_state
  | I_ErrNoActor
  | I_ErrMoved revision revision
  | I_ErrUnknownState incident_state
  | I_ErrNothingAsked
  | I_ErrIllegalMove incident_illegal_move
  | I_ErrNeedsReason incident_state incident_state

definition incident_refused :: "incident_error \<Rightarrow> bool" where
  "incident_refused e =
     (case e of I_ErrIllegalMove _ \<Rightarrow> True | I_ErrNothingAsked \<Rightarrow> True | I_ErrNeedsReason _ _ \<Rightarrow> True
      | I_ErrUnknownState _ \<Rightarrow> True | I_ErrNoActor \<Rightarrow> True | _ \<Rightarrow> False)"

definition incident_closure_of :: "incident_move \<Rightarrow> timestamp \<Rightarrow> incident_closure option" where
  "incident_closure_of m stamp =
     (if \<not> incident_closed (im_to m) then None
      else Some \<lparr>ic_state = incident_Wire (im_to m), ic_reason = im_note m, ic_closed_by = im_actor m, ic_closed_at = Some stamp\<rparr>)"

definition incident_changing :: "incident_state \<Rightarrow> incident_move \<Rightarrow> bool" where
  "incident_changing s m = (im_to m \<noteq> I_OtherState [] \<and> im_to m \<noteq> s)"

definition incident_reassigning :: "incident \<Rightarrow> incident_move \<Rightarrow> bool" where
  "incident_reassigning a m = (case im_assignee m of None \<Rightarrow> False | Some who \<Rightarrow> who \<noteq> in_assignee a)"

definition incident_moved :: "incident \<Rightarrow> incident_state \<Rightarrow> incident_move \<Rightarrow> incident" where
  "incident_moved current s m =
     (let stamp = new_timestamp (im_at m);
          a = current\<lparr>in_revision := in_revision current + 1, in_changed_by := im_actor m, in_changed_at := Some stamp\<rparr>;
          a = (if incident_reassigning current m then a\<lparr>in_assignee := the (im_assignee m)\<rparr> else a)
      in if incident_changing s m then a\<lparr>in_state := incident_Wire (im_to m), in_closure := incident_closure_of m stamp\<rparr> else a)"

definition incident_Apply :: "incident \<Rightarrow> incident_move \<Rightarrow> incident_error + incident \<times> incident_transition" where
  "incident_Apply current m =
     (case incident_FromWire (in_state current) of
        None \<Rightarrow> Inl (I_ErrStoredState (in_state current))
      | Some s \<Rightarrow>
          if im_actor m = [] then Inl I_ErrNoActor
          else if im_expected m \<noteq> 0 \<and> im_expected m \<noteq> in_revision current
          then Inl (I_ErrMoved (in_revision current) (im_expected m))
          else if im_to m \<noteq> I_OtherState [] \<and> \<not> incident_valid (im_to m) then Inl (I_ErrUnknownState (im_to m))
          else if \<not> incident_changing s m \<and> \<not> incident_reassigning current m then Inl I_ErrNothingAsked
          else if incident_changing s m \<and> \<not> incident_legal s (im_to m)
          then Inl (I_ErrIllegalMove (incident_illegal s (im_to m)))
          else if incident_changing s m \<and> incident_explains s (im_to m) \<and> im_note m = []
          then Inl (I_ErrNeedsReason (im_to m) s)
          else let a = incident_moved current s m in
            Inr (a, \<lparr>it_id = in_id a, it_revision = in_revision a, it_from = in_state current, it_to = in_state a,
              it_assignee = in_assignee a, it_actor = im_actor m, it_at = Some (new_timestamp (im_at m)), it_note = im_note m\<rparr>))"

section \<open>How an incident begins\<close>

datatype incident_raise_error = I_ErrUnnamed | I_ErrNoTenant | I_ErrNoStory

definition detection_stages :: "detection \<Rightarrow> wire_stage list" where
  "detection_stages made = (case d_correlation made of None \<Rightarrow> [] | Some k \<Rightarrow> wc_stages k)"

definition incident_correlates :: "detection \<Rightarrow> bool" where
  "incident_correlates made = (0 < length (detection_stages made))"

definition incident_Raise :: "detection \<Rightarrow> instant \<Rightarrow> incident_raise_error + incident" where
  "incident_Raise made now =
     (if d_id made = [] then Inl I_ErrUnnamed
      else if detection_tenant made = [] then Inl I_ErrNoTenant
      else if \<not> incident_correlates made then Inl I_ErrNoStory
      else let k = the (d_correlation made); told = wc_stages k in
        Inr \<lparr>in_id = d_id made, in_schema_version = 1, in_tenant = detection_tenant made,
          in_detection = d_id made, in_rule = d_rule made, in_ruleset = d_ruleset made, in_severity = d_severity made,
          in_confidence = Confidence k, in_technique = d_technique made, in_class = d_class made,
          in_agent = detection_agent made, in_stages = told, in_group = wc_group k, in_window = wc_window k,
          in_clock_spread = wc_spread k, in_first = ws_time (hd told), in_last = ws_time (last told),
          in_raised_at = Some (new_timestamp now), in_state = incident_Wire I_Open, in_assignee = [],
          in_changed_by = ''platform'', in_changed_at = Some (new_timestamp now), in_revision = 1, in_closure = None\<rparr>)"

definition incident_Raised :: "incident \<Rightarrow> incident_transition" where
  "incident_Raised one =
     \<lparr>it_id = in_id one, it_revision = in_revision one, it_from = I_STATE_UNSPECIFIED, it_to = in_state one,
      it_assignee = [], it_actor = ''platform'', it_at = in_raised_at one,
      it_note = ''correlated by '' @ (case in_rule one of None \<Rightarrow> [] | Some r \<Rightarrow> wr_id r)\<rparr>"

section \<open>The machine\<close>

lemma incident_FromWire_Wire: "incident_FromWire (incident_Wire s) = Some s \<longleftrightarrow> incident_valid s"
  by (cases s)
     (auto simp: incident_FromWire_def incident_Wire_def incident_wire_def lookup_or_def incident_valid_def incident_states_def)

lemma incident_legal_valid: "incident_legal s t \<Longrightarrow> incident_valid s \<and> incident_valid t \<and> s \<noteq> t"
  by (cases s) (auto simp: incident_legal_def incident_valid_def incident_states_def)

definition incident_wire_legal :: "incidentv1_state \<Rightarrow> incidentv1_state \<Rightarrow> bool" where
  "incident_wire_legal w w' =
     (case (incident_FromWire w, incident_FromWire w') of (Some s, Some t) \<Rightarrow> incident_legal s t | _ \<Rightarrow> False)"

lemma incident_Apply_InrD:
  assumes "incident_Apply a m = Inr (a', t)"
  shows "\<exists>s. incident_FromWire (in_state a) = Some s \<and> im_actor m \<noteq> [] \<and>
    (im_expected m = 0 \<or> im_expected m = in_revision a) \<and>
    (incident_changing s m \<longrightarrow> incident_legal s (im_to m) \<and> (incident_explains s (im_to m) \<longrightarrow> im_note m \<noteq> [])) \<and>
    a' = incident_moved a s m \<and> it_revision t = in_revision a' \<and> it_from t = in_state a \<and> it_to t = in_state a' \<and>
    it_actor t = im_actor m \<and> it_note t = im_note m"
  using assms unfolding incident_Apply_def by (auto simp: Let_def split: option.splits if_splits)

lemma incident_moved_simps [simp]:
  "in_revision (incident_moved a s m) = in_revision a + 1"
  "in_state (incident_moved a s m) = (if incident_changing s m then incident_Wire (im_to m) else in_state a)"
  "in_closure (incident_moved a s m) =
     (if incident_changing s m then incident_closure_of m (new_timestamp (im_at m)) else in_closure a)"
  "in_stages (incident_moved a s m) = in_stages a"
  "in_confidence (incident_moved a s m) = in_confidence a"
  by (simp_all add: incident_moved_def Let_def)

lemma incident_wire_legal_changed:
  "incident_FromWire w = Some s \<Longrightarrow> incident_legal s t \<Longrightarrow> incident_wire_legal w (incident_Wire t)"
  using incident_legal_valid [of s t] incident_FromWire_Wire [of t] by (simp add: incident_wire_legal_def)

interpretation story: lifecycle incident_Apply in_revision in_state it_revision it_from it_to im_expected incident_wire_legal
proof (unfold_locales, goal_cases)
  case (1 a m a' t)
  then show ?case using incident_Apply_InrD by fastforce
next
  case (2 a m a' t)
  then show ?case using incident_Apply_InrD by fastforce
next
  case (3 a m a' t)
  then show ?case using incident_Apply_InrD [OF 3] incident_wire_legal_changed by auto
next
  case (4 a m a' t)
  then show ?case using incident_Apply_InrD by fastforce
qed

text \<open>
  A well-formed incident: it tells the stages it was raised with, grades them as \<^verbatim>\<open>Confidence\<close> does, and
  carries a closure exactly when it is closed.
\<close>

definition incident_wf :: "incident \<Rightarrow> bool" where
  "incident_wf a \<longleftrightarrow>
     in_stages a \<noteq> [] \<and> in_confidence a \<noteq> CONFIDENCE_UNSPECIFIED \<and>
     (case incident_FromWire (in_state a) of
        None \<Rightarrow> False
      | Some s \<Rightarrow>
          (case in_closure a of
             None \<Rightarrow> \<not> incident_closed s
           | Some c \<Rightarrow> incident_closed s \<and> ic_state c = in_state a \<and> ic_closed_by c \<noteq> [] \<and>
               (s = I_FalsePositive \<longrightarrow> ic_reason c \<noteq> [])))"

lemma incident_wf_Apply [inv_intros]:
  assumes "incident_wf a" "incident_Apply a m = Inr (a', t)"
  shows "incident_wf a'"
proof -
  obtain s where s: "incident_FromWire (in_state a) = Some s" "im_actor m \<noteq> []"
    "incident_changing s m \<Longrightarrow> incident_legal s (im_to m)"
    "incident_changing s m \<Longrightarrow> incident_explains s (im_to m) \<Longrightarrow> im_note m \<noteq> []" "a' = incident_moved a s m"
    using incident_Apply_InrD [OF assms(2)] by blast
  show ?thesis
  proof (cases "incident_changing s m")
    case True
    then have "incident_FromWire (incident_Wire (im_to m)) = Some (im_to m)"
      using s(3) incident_legal_valid incident_FromWire_Wire by blast
    then show ?thesis
      using True s assms(1) by (auto simp: incident_wf_def incident_closure_of_def incident_explains_def)
  next
    case False
    then show ?thesis using assms(1) s(1,5) by (simp add: incident_wf_def split: option.splits)
  qed
qed

lemma incident_wf_Raise:
  "incident_Raise made now = Inr a \<Longrightarrow> incident_wf a \<and> in_revision a = 1 \<and> in_state a = I_STATE_OPEN"
  by (auto simp: incident_Raise_def Let_def incident_wf_def incident_FromWire_def incident_Wire_def incident_wire_def
      lookup_or_def incident_closed_def incident_correlates_def detection_stages_def Confidence_def
      split: if_splits option.splits)

text \<open>
  C32. An incident is raised only from a detection that tells a story, and keeps telling it: whatever
  moves follow, the trail leads from open to the state it is in by legal changes numbered revision by
  revision, the stages and the confidence are the ones it was raised with, and a closure is on the
  record exactly when it is closed.
\<close>

theorem incident_history:
  assumes "incident_Raise made now = Inr a" "run_moves incident_Apply a ms = (a', ts)"
  shows "linked it_from it_to incident_wire_legal I_STATE_OPEN ts (in_state a') \<and> numbered it_revision 1 ts \<and>
         in_revision a' = 1 + of_nat (length ts) \<and> incident_wf a' \<and>
         in_stages a' = detection_stages made \<and> in_confidence a' = Confidence (the (d_correlation made))"
proof -
  have "in_stages a = detection_stages made \<and> in_confidence a = Confidence (the (d_correlation made))"
    using assms(1) by (auto simp: incident_Raise_def Let_def detection_stages_def incident_correlates_def split: if_splits option.splits)
  moreover have "in_stages a' = in_stages a \<and> in_confidence a' = in_confidence a"
    by (rule story.run_invariant [OF _ _ assms(2), of "\<lambda>b. in_stages b = in_stages a \<and> in_confidence b = in_confidence a"])
       (auto dest: incident_Apply_InrD)
  ultimately show ?thesis
    using story.trail_leads [OF assms(2)] incident_wf_Raise [OF assms(1)]
      story.run_invariant [of incident_wf, OF incident_wf_Apply, OF _ _ _ assms(2)]
    by simp
qed

definition sample_story :: detection where
  "sample_story =
     \<lparr>d_id = ''d2'', d_schema_version = 1, d_rule = None, d_ruleset = ''r'', d_severity = 4, d_technique = None, d_class = 1,
      d_origin = Some [(''tenant_id'', VString ''acme'')],
      d_source_events = [''e1'', ''e2''], d_event_time = Some \<lparr>ts_seconds = 160, ts_nanos = 0\<rparr>,
      d_detected_time = None, d_evidence = [], d_aggregation = None,
      d_correlation = Some
        \<lparr>wc_window = Some \<lparr>du_seconds = 300, du_nanos = 0\<rparr>, wc_spread = Some \<lparr>du_seconds = 2, du_nanos = 0\<rparr>,
         wc_stages =
           [\<lparr>ws_name = ''in'', ws_event = ''e1'', ws_time = Some \<lparr>ts_seconds = 100, ts_nanos = 0\<rparr>, ws_agent = ''a1''\<rparr>,
            \<lparr>ws_name = ''out'', ws_event = ''e2'', ws_time = Some \<lparr>ts_seconds = 160, ts_nanos = 0\<rparr>, ws_agent = ''a1''\<rparr>],
         wc_group = []\<rparr>\<rparr>"

definition sample_incident_moves :: "incident_move list" where
  "sample_incident_moves =
     [\<lparr>im_to = I_Resolved, im_assignee = None, im_note = [], im_actor = ''ana'', im_at = 0, im_expected = 1\<rparr>,
      \<lparr>im_to = I_Open, im_assignee = None, im_note = [], im_actor = ''bo'', im_at = 0, im_expected = 0\<rparr>,
      \<lparr>im_to = I_OtherState [], im_assignee = Some ''bo'', im_note = [], im_actor = ''bo'', im_at = 0, im_expected = 0\<rparr>]"

definition sample_incident :: incident where
  "sample_incident = (case incident_Raise sample_story 0 of Inr a \<Rightarrow> a)"

lemma sample_incident_run:
  "length (snd (run_moves incident_Apply sample_incident sample_incident_moves)) = 2"
  "Confidence (the (d_correlation sample_story)) = CONFIDENCE_HIGH"
  by code_simp+

theorem incident_history_witness:
  "\<exists>a a' ts. incident_Raise sample_story 0 = Inr a \<and> run_moves incident_Apply a sample_incident_moves = (a', ts) \<and>
     length ts = 2 \<and> incident_wf a' \<and> in_confidence a' = CONFIDENCE_HIGH"
proof -
  have r: "incident_Raise sample_story 0 = Inr sample_incident"
    by (simp add: sample_incident_def incident_Raise_def Let_def sample_story_def detection_tenant_def or_empty_def
        get_string_def incident_correlates_def detection_stages_def)
  obtain a' ts where run: "run_moves incident_Apply sample_incident sample_incident_moves = (a', ts)"
    by (cases "run_moves incident_Apply sample_incident sample_incident_moves")
  with incident_history [OF r run] sample_incident_run r show ?thesis by fastforce
qed

end
