(* ===== verification/Agent_Lifecycle.thy ===== *)
theory Agent_Lifecycle
  imports Lifecycle Event_Validate
begin

text \<open>
  \<^verbatim>\<open>internal/agent\<close>: what the platform decided about a machine it takes telemetry from. A move changes
  a registered agent's state, binds a certificate identity to it, or both (\<^verbatim>\<open>state.go\<close>, \<^verbatim>\<open>move.go\<close>,
  \<^verbatim>\<open>identity.go\<close>, \<^verbatim>\<open>register.go\<close>, \<^verbatim>\<open>certificate.go\<close>). \<open>A_OtherState\<close> holds a string that names no state.
\<close>

section \<open>States\<close>

datatype agent_state = A_Pending | A_Active | A_Disabled | A_Revoked | A_Decommissioned | A_OtherState string

definition agent_states :: "agent_state list" where
  "agent_states = [A_Pending, A_Active, A_Disabled, A_Revoked, A_Decommissioned]"

definition agent_valid :: "agent_state \<Rightarrow> bool" where
  "agent_valid s = (s \<in> set agent_states)"

definition Final :: "agent_state \<Rightarrow> bool" where
  "Final s = (s = A_Revoked \<or> s = A_Decommissioned)"

definition Admits :: "agent_state \<Rightarrow> bool" where
  "Admits s = (s = A_Pending \<or> s = A_Active)"

fun agent_moves :: "agent_state \<Rightarrow> agent_state list" where
  "agent_moves A_Pending = [A_Disabled, A_Revoked, A_Decommissioned]"
| "agent_moves A_Active = [A_Disabled, A_Revoked, A_Decommissioned]"
| "agent_moves A_Disabled = [A_Active, A_Revoked, A_Decommissioned]"
| "agent_moves _ = []"

definition agent_legal :: "agent_state \<Rightarrow> agent_state \<Rightarrow> bool" where
  "agent_legal s t = (t \<in> set (agent_moves s))"

definition agent_reachable :: "agent_state \<Rightarrow> agent_state list" where
  "agent_reachable s = agent_moves s"

datatype agent_illegal_move =
    A_NamesNoState agent_state
  | A_AlreadyIs agent_state
  | A_GoesNowhere agent_state
  | A_DoesNotBecome agent_state agent_state "agent_state list"

definition agent_illegal :: "agent_state \<Rightarrow> agent_state \<Rightarrow> agent_illegal_move" where
  "agent_illegal s t =
     (if \<not> agent_valid t then A_NamesNoState t
      else if s = t then A_AlreadyIs t
      else if agent_reachable s = [] then A_GoesNowhere s
      else A_DoesNotBecome s t (agent_reachable s))"

datatype agentv1_state =
    A_STATE_UNSPECIFIED | A_STATE_PENDING | A_STATE_ACTIVE | A_STATE_DISABLED
  | A_STATE_REVOKED | A_STATE_DECOMMISSIONED | A_STATE_OTHER int

definition agent_wire :: "(agent_state, agentv1_state) go_map" where
  "agent_wire =
     [(A_Pending, A_STATE_PENDING), (A_Active, A_STATE_ACTIVE), (A_Disabled, A_STATE_DISABLED),
      (A_Revoked, A_STATE_REVOKED), (A_Decommissioned, A_STATE_DECOMMISSIONED)]"

definition agent_Wire :: "agent_state \<Rightarrow> agentv1_state" where
  "agent_Wire s = lookup_or A_STATE_UNSPECIFIED agent_wire s"

definition agent_FromWire :: "agentv1_state \<Rightarrow> agent_state option" where
  "agent_FromWire w = map_option fst (List.find (\<lambda>e. snd e = w) agent_wire)"

section \<open>Records\<close>

record identity =
  id_subject :: string
  id_serial :: string
  id_fingerprint :: string
  id_issued :: "timestamp option"
  id_expires :: "timestamp option"

record agent_platform =
  pl_os :: string
  pl_architecture :: string
  pl_hostname :: string

record agent =
  ag_id :: string
  ag_schema_version :: int
  ag_tenant :: string
  ag_state :: agentv1_state
  ag_platform :: "agent_platform option"
  ag_version :: string
  ag_identity :: "identity option"
  ag_registered_at :: "timestamp option"
  ag_changed_by :: string
  ag_changed_at :: "timestamp option"
  ag_revision :: revision

record agent_transition =
  at_id :: string
  at_revision :: revision
  at_from :: agentv1_state
  at_to :: agentv1_state
  at_actor :: string
  at_at :: "timestamp option"
  at_note :: string

record asked_with =
  as_presented :: string
  as_request :: string

record agent_move =
  am_to :: agent_state
  am_identity :: "identity option"
  am_note :: string
  am_actor :: string
  am_at :: instant
  am_authority :: string
  am_presented :: string
  am_request :: string
  am_bound :: asked_with
  am_renewal :: bool
  am_expected :: revision

datatype agent_error =
    A_ErrStoredState agentv1_state
  | A_ErrNoActor
  | A_ErrMoved revision revision
  | A_ErrMalformed string
  | A_ErrUnknownState agent_state
  | A_ErrNothingAsked
  | A_ErrMalformedIdentity string
  | A_ErrDoesNotRenew agent_state
  | A_ErrCertificateReplaced
  | A_ErrIllegalMove agent_illegal_move
  | A_ErrNeedsReason agent_state agent_state

text \<open>A renewal in a state that does not renew wraps \<^verbatim>\<open>ErrIllegalMove\<close>, so it is refused as one.\<close>

definition agent_refused :: "agent_error \<Rightarrow> bool" where
  "agent_refused e =
     (case e of A_ErrIllegalMove _ \<Rightarrow> True | A_ErrDoesNotRenew _ \<Rightarrow> True | A_ErrNothingAsked \<Rightarrow> True
      | A_ErrNeedsReason _ _ \<Rightarrow> True | A_ErrUnknownState _ \<Rightarrow> True | A_ErrNoActor \<Rightarrow> True
      | A_ErrMalformedIdentity _ \<Rightarrow> True | A_ErrMalformed _ \<Rightarrow> True | A_ErrCertificateReplaced \<Rightarrow> True
      | _ \<Rightarrow> False)"

section \<open>Identities\<close>

definition MaxSubjectLength :: nat where "MaxSubjectLength = 256"
definition MaxSerialLength :: nat where "MaxSerialLength = 64"
definition FingerprintLength :: nat where "FingerprintLength = 64"
definition MaxNoteLength :: nat where "MaxNoteLength = 512"
definition MaxVersionLength :: nat where "MaxVersionLength = 64"

definition hexadecimal :: "string \<Rightarrow> bool" where
  "hexadecimal value = (list_all (\<lambda>c. unhex c \<noteq> None) value \<and> value \<noteq> [])"

definition serial :: "string \<Rightarrow> agent_error option" where
  "serial value =
     (if value = [] then Some (A_ErrMalformedIdentity ''it carries no serial'')
      else if MaxSerialLength < length value then Some (A_ErrMalformedIdentity ''the serial is longer than 64 bytes'')
      else if \<not> hexadecimal value then Some (A_ErrMalformedIdentity ''the serial is not hexadecimal'')
      else None)"

definition fingerprint :: "string \<Rightarrow> agent_error option" where
  "fingerprint value =
     (if length value \<noteq> FingerprintLength \<or> \<not> hexadecimal value
      then Some (A_ErrMalformedIdentity ''the fingerprint is not 64 hexadecimal characters of SHA-256'')
      else if ToLower value \<noteq> value then Some (A_ErrMalformedIdentity ''the fingerprint is written in lower case'')
      else None)"

definition usable_instant :: "timestamp option \<Rightarrow> bool" where
  "usable_instant t = (case t of None \<Rightarrow> False | Some x \<Rightarrow> timestamp_valid x \<and> AsTime x \<noteq> 0)"

definition validity :: "identity \<Rightarrow> instant \<Rightarrow> agent_error option" where
  "validity i now =
     (if \<not> usable_instant (id_expires i) then Some (A_ErrMalformedIdentity ''it says when it expires or it is not bound'')
      else if usable_instant (id_issued i) \<and> \<not> time_of (id_issued i) < time_of (id_expires i)
      then Some (A_ErrMalformedIdentity ''it expires at or before it was issued'')
      else if \<not> now < time_of (id_expires i) then Some (A_ErrMalformedIdentity ''it expired'')
      else None)"

definition Bindable :: "string \<Rightarrow> identity option \<Rightarrow> instant \<Rightarrow> agent_error option" where
  "Bindable agent_id bound now =
     (case bound of None \<Rightarrow> Some (A_ErrMalformedIdentity ''no certificate identity was given'')
      | Some i \<Rightarrow>
          if id_subject i \<noteq> agent_id then Some (A_ErrMalformedIdentity ''it names another agent'')
          else if MaxSubjectLength < length (id_subject i)
          then Some (A_ErrMalformedIdentity ''the subject is longer than 256 bytes'')
          else or_else (serial (id_serial i)) (or_else (fingerprint (id_fingerprint i)) (validity i now)))"

section \<open>Moves\<close>

definition within_length :: "string \<Rightarrow> string \<Rightarrow> nat \<Rightarrow> agent_error option" where
  "within_length f value maximum = (if maximum < length value then Some (A_ErrMalformed f) else None)"

definition asksAgain :: "agent_move \<Rightarrow> bool" where
  "asksAgain m = (am_request m \<noteq> [] \<and> am_request m = as_request (am_bound m) \<and> am_presented m = as_presented (am_bound m))"

definition current_fingerprint :: "agent \<Rightarrow> string" where
  "current_fingerprint a = (case ag_identity a of None \<Rightarrow> [] | Some i \<Rightarrow> id_fingerprint i)"

definition agent_changing :: "agent_state \<Rightarrow> agent_move \<Rightarrow> bool" where
  "agent_changing s m = (am_to m \<noteq> A_OtherState [] \<and> am_to m \<noteq> s)"

definition agent_moved :: "agent \<Rightarrow> agent_state \<Rightarrow> agent_move \<Rightarrow> agent" where
  "agent_moved current s m =
     (let a = current\<lparr>ag_revision := ag_revision current + 1, ag_changed_by := am_actor m,
                ag_changed_at := Some (new_timestamp (am_at m))\<rparr>;
          a = (if am_identity m \<noteq> None
               then (let b = a\<lparr>ag_identity := am_identity m\<rparr>
                     in if s = A_Pending then b\<lparr>ag_state := agent_Wire A_Active\<rparr> else b)
               else a)
      in if agent_changing s m then a\<lparr>ag_state := agent_Wire (am_to m)\<rparr> else a)"

definition agent_refusal :: "agent \<Rightarrow> agent_state \<Rightarrow> agent_move \<Rightarrow> agent_error option" where
  "agent_refusal current s m =
     (let binding = (am_identity m \<noteq> None) in
      if am_to m \<noteq> A_OtherState [] \<and> \<not> agent_valid (am_to m) then Some (A_ErrUnknownState (am_to m))
      else if \<not> agent_changing s m \<and> \<not> binding then Some A_ErrNothingAsked
      else if binding \<and> Final s then Some (A_ErrMalformedIdentity ''takes no further identity'')
      else if binding \<and> am_renewal m \<and> \<not> Admits s then Some (A_ErrDoesNotRenew s)
      else if binding \<and> am_renewal m \<and> am_presented m \<noteq> current_fingerprint current \<and> \<not> asksAgain m
      then Some A_ErrCertificateReplaced
      else if agent_changing s m \<and> \<not> agent_legal s (am_to m) then Some (A_ErrIllegalMove (agent_illegal s (am_to m)))
      else if agent_changing s m \<and> am_note m = [] then Some (A_ErrNeedsReason (am_to m) s)
      else if binding then Bindable (ag_id current) (am_identity m) (am_at m)
      else None)"

definition agent_Apply :: "agent \<Rightarrow> agent_move \<Rightarrow> agent_error + agent \<times> agent_transition" where
  "agent_Apply current m =
     (case agent_FromWire (ag_state current) of
        None \<Rightarrow> Inl (A_ErrStoredState (ag_state current))
      | Some s \<Rightarrow>
          if am_actor m = [] then Inl A_ErrNoActor
          else if am_expected m \<noteq> 0 \<and> am_expected m \<noteq> ag_revision current
          then Inl (A_ErrMoved (ag_revision current) (am_expected m))
          else case or_else (within_length ''note'' (am_note m) MaxNoteLength) (agent_refusal current s m) of
            Some e \<Rightarrow> Inl e
          | None \<Rightarrow>
              let a = agent_moved current s m in
              Inr (a, \<lparr>at_id = ag_id a, at_revision = ag_revision a, at_from = ag_state current, at_to = ag_state a,
                at_actor = am_actor m, at_at = Some (new_timestamp (am_at m)), at_note = am_note m\<rparr>))"

record admission =
  ad_agent :: string
  ad_tenant :: string
  ad_state :: agentv1_state
  ad_revision :: revision
  ad_changed_at :: "timestamp option"

definition Admission :: "agent \<Rightarrow> admission" where
  "Admission a =
     \<lparr>ad_agent = ag_id a, ad_tenant = ag_tenant a, ad_state = ag_state a, ad_revision = ag_revision a,
      ad_changed_at = ag_changed_at a\<rparr>"

section \<open>Registration and the certificate trail\<close>

record registration =
  re_agent :: string
  re_tenant :: string
  re_version :: string
  re_note :: string
  re_platform :: "agent_platform option"

definition tenant_check :: "string \<Rightarrow> agent_error option" where
  "tenant_check value =
     (if value = [] then Some (A_ErrMalformed ''an agent belongs to a tenant'')
      else if MaxTenantIDLength < length value \<or> \<not> ValidIdentifier value
      then Some (A_ErrMalformed ''is not a usable tenant identifier'')
      else None)"

definition platform_check :: "agent_platform option \<Rightarrow> agent_error option" where
  "platform_check declared =
     (case declared of None \<Rightarrow> None
      | Some p \<Rightarrow>
          or_else (within_length ''platform.os'' (pl_os p) MaxOperatingSystem)
            (or_else (within_length ''platform.architecture'' (pl_architecture p) MaxArchitectureLen)
              (within_length ''platform.hostname'' (pl_hostname p) MaxHostnameLength)))"

definition Register :: "registration \<Rightarrow> string \<Rightarrow> instant \<Rightarrow> agent_error + agent \<times> agent_transition" where
  "Register asked actor now =
     (if actor = [] then Inl A_ErrNoActor
      else if \<not> agentidentity_Valid (re_agent asked) then Inl (A_ErrMalformed ''is not a usable agent identifier'')
      else case or_else (tenant_check (re_tenant asked))
             (or_else (within_length ''agent_version'' (re_version asked) MaxVersionLength)
               (or_else (within_length ''note'' (re_note asked) MaxNoteLength) (platform_check (re_platform asked)))) of
        Some e \<Rightarrow> Inl e
      | None \<Rightarrow>
          let stamp = Some (new_timestamp now);
              a = \<lparr>ag_id = re_agent asked, ag_schema_version = 1, ag_tenant = re_tenant asked,
                   ag_state = agent_Wire A_Pending, ag_platform = re_platform asked, ag_version = re_version asked,
                   ag_identity = None, ag_registered_at = stamp, ag_changed_by = actor, ag_changed_at = stamp,
                   ag_revision = 1\<rparr>
          in Inr (a, \<lparr>at_id = ag_id a, at_revision = ag_revision a, at_from = A_STATE_UNSPECIFIED, at_to = ag_state a,
               at_actor = actor, at_at = stamp, at_note = re_note asked\<rparr>))"

record certificate_record =
  ce_agent :: string
  ce_identity :: "identity option"
  ce_authority :: string
  ce_issued_by :: string

definition Certificate :: "agent \<Rightarrow> agent_move \<Rightarrow> certificate_record option" where
  "Certificate a m =
     (case am_identity m of None \<Rightarrow> None
      | Some _ \<Rightarrow> Some \<lparr>ce_agent = ag_id a, ce_identity = ag_identity a, ce_authority = am_authority m, ce_issued_by = am_actor m\<rparr>)"

definition Answering :: "agent_move \<Rightarrow> asked_with" where
  "Answering m =
     (if \<not> am_renewal m then \<lparr>as_presented = [], as_request = []\<rparr>
      else \<lparr>as_presented = am_presented m, as_request = am_request m\<rparr>)"

section \<open>The machine\<close>

lemma agent_FromWire_Wire [simp]: "agent_valid s \<Longrightarrow> agent_FromWire (agent_Wire s) = Some s"
  by (cases s) (auto simp: agent_FromWire_def agent_Wire_def agent_wire_def lookup_or_def agent_valid_def agent_states_def)

lemma agent_Wire_FromWire: "agent_FromWire w = Some s \<Longrightarrow> agent_Wire s = w \<and> agent_valid s"
  by (auto simp: agent_FromWire_def agent_Wire_def agent_wire_def lookup_or_def agent_valid_def agent_states_def
      split: if_splits)

lemma agent_legal_valid: "agent_legal s t \<Longrightarrow> agent_valid s \<and> agent_valid t"
  by (cases s) (auto simp: agent_legal_def agent_valid_def agent_states_def)

lemma agent_valid_Active [simp]: "agent_valid A_Active"
  by (simp add: agent_valid_def agent_states_def)

lemma Final_goes_nowhere: "Final s \<Longrightarrow> \<not> agent_legal s t"
  by (auto simp: Final_def agent_legal_def)

lemma Final_not_Admits: "Final s \<Longrightarrow> \<not> Admits s"
  by (auto simp: Final_def Admits_def)

text \<open>A change of state is one the table allows, or the activation that binding an identity is.\<close>

definition agent_changes :: "agentv1_state \<Rightarrow> agentv1_state \<Rightarrow> bool" where
  "agent_changes w w' =
     (case (agent_FromWire w, agent_FromWire w') of
        (Some s, Some t) \<Rightarrow> agent_legal s t \<or> s = A_Pending \<and> t = A_Active
      | _ \<Rightarrow> False)"

lemma agent_moved_simps [simp]:
  "ag_revision (agent_moved a s m) = ag_revision a + 1"
  "ag_id (agent_moved a s m) = ag_id a"
  "ag_tenant (agent_moved a s m) = ag_tenant a"
  "ag_identity (agent_moved a s m) = (if am_identity m \<noteq> None then am_identity m else ag_identity a)"
  "ag_state (agent_moved a s m) =
     (if agent_changing s m then agent_Wire (am_to m)
      else if am_identity m \<noteq> None \<and> s = A_Pending then agent_Wire A_Active else ag_state a)"
  by (simp_all add: agent_moved_def Let_def)

lemma agent_Apply_InrD:
  assumes "agent_Apply a m = Inr (a', t)"
  shows "\<exists>s. agent_FromWire (ag_state a) = Some s \<and> am_actor m \<noteq> [] \<and>
    (am_expected m = 0 \<or> am_expected m = ag_revision a) \<and> agent_refusal a s m = None \<and>
    a' = agent_moved a s m \<and> at_revision t = ag_revision a' \<and> at_from t = ag_state a \<and> at_to t = ag_state a' \<and>
    at_actor t = am_actor m \<and> at_note t = am_note m"
  using assms unfolding agent_Apply_def by (auto simp: Let_def split: option.splits if_splits)

lemma agent_refusal_None:
  assumes "agent_refusal a s m = None"
  shows "\<not> Final s" "agent_changing s m \<Longrightarrow> agent_legal s (am_to m) \<and> am_note m \<noteq> []"
    "am_identity m = Some i \<Longrightarrow> Bindable (ag_id a) (Some i) (am_at m) = None"
    "am_identity m \<noteq> None \<Longrightarrow> am_renewal m \<Longrightarrow> Admits s \<and> (am_presented m = current_fingerprint a \<or> asksAgain m)"
  using assms Final_goes_nowhere [of s "am_to m"]
  by (auto simp: agent_refusal_def Let_def split: if_splits)

interpretation agents: lifecycle agent_Apply ag_revision ag_state at_revision at_from at_to am_expected agent_changes
proof (unfold_locales, goal_cases)
  case (1 a m a' t)
  then show ?case using agent_Apply_InrD by fastforce
next
  case (2 a m a' t)
  then show ?case using agent_Apply_InrD by fastforce
next
  case (3 a m a' t)
  then obtain s where s: "agent_FromWire (ag_state a) = Some s" "agent_refusal a s m = None" "a' = agent_moved a s m"
    using agent_Apply_InrD by blast
  have "agent_changing s m \<Longrightarrow> agent_valid (am_to m) \<and> agent_legal s (am_to m)"
    using agent_refusal_None(2) [OF s(2)] agent_legal_valid by blast
  then show ?case using s(1,3) by (auto simp: agent_changes_def)
next
  case (4 a m a' t)
  then show ?case using agent_Apply_InrD by fastforce
qed

text \<open>
  What holds of every registered agent: it is in a state, keeps the identifier and tenant it was
  registered with, and an identity bound to it names it and is well formed.
\<close>

definition agent_wf :: "agent \<Rightarrow> bool" where
  "agent_wf a \<longleftrightarrow>
     agent_FromWire (ag_state a) \<noteq> None \<and> agentidentity_Valid (ag_id a) \<and> tenant_check (ag_tenant a) = None \<and>
     (\<forall>i. ag_identity a = Some i \<longrightarrow>
        id_subject i = ag_id a \<and> serial (id_serial i) = None \<and> fingerprint (id_fingerprint i) = None) \<and>
     (agent_FromWire (ag_state a) = Some A_Pending \<longrightarrow> ag_identity a = None)"

lemma Bindable_None:
  "Bindable agent (Some i) now = None \<Longrightarrow>
   id_subject i = agent \<and> serial (id_serial i) = None \<and> fingerprint (id_fingerprint i) = None \<and>
   now < time_of (id_expires i)"
  by (auto simp: Bindable_def validity_def split: if_splits)

lemma agent_moved_not_pending:
  assumes "agent_FromWire (ag_state (agent_moved a s m)) = Some A_Pending" "agent_refusal a s m = None"
    "agent_FromWire (ag_state a) = Some s"
  shows "s = A_Pending \<and> am_identity m = None"
proof (cases "agent_changing s m")
  case True
  then have l: "agent_legal s (am_to m)" using agent_refusal_None(2) [OF assms(2)] by simp
  then have "am_to m \<noteq> A_Pending" by (cases s) (auto simp: agent_legal_def)
  moreover have "agent_FromWire (agent_Wire (am_to m)) = Some (am_to m)" using agent_legal_valid [OF l] by simp
  ultimately show ?thesis using assms(1) True by simp
next
  case False
  have "agent_FromWire (agent_Wire A_Active) = Some A_Active" by simp
  with False show ?thesis using assms(1,3) by (auto split: if_splits)
qed

lemma agent_wf_Apply [inv_intros]:
  assumes "agent_wf a" "agent_Apply a m = Inr (a', t)"
  shows "agent_wf a'"
proof -
  obtain s where s: "agent_FromWire (ag_state a) = Some s" "agent_refusal a s m = None" "a' = agent_moved a s m"
    using agent_Apply_InrD [OF assms(2)] by blast
  have "ag_state a' = ag_state a \<or> agent_changes (ag_state a) (ag_state a')" by (rule agents.state_step [OF assms(2)])
  then have "agent_FromWire (ag_state a') \<noteq> None" using s(1) by (auto simp: agent_changes_def split: option.splits)
  moreover have "ag_identity a' = Some i \<Longrightarrow>
      id_subject i = ag_id a \<and> serial (id_serial i) = None \<and> fingerprint (id_fingerprint i) = None" for i
    using assms(1) s(3) Bindable_None [OF agent_refusal_None(3) [OF s(2), of i]]
    by (auto simp: agent_wf_def split: if_splits)
  moreover have "agent_FromWire (ag_state a') = Some A_Pending \<Longrightarrow> ag_identity a' = None"
    using agent_moved_not_pending [of a s m] s assms(1) by (auto simp: agent_wf_def)
  ultimately show ?thesis using assms(1) s(3) by (simp add: agent_wf_def)
qed

lemma agent_wf_Register:
  assumes "Register asked actor now = Inr (a, t)"
  shows "agent_wf a \<and> ag_revision a = 1 \<and> ag_state a = A_STATE_PENDING \<and> ag_tenant a = re_tenant asked"
  using assms
  by (auto simp: Register_def Let_def agent_wf_def agent_FromWire_def agent_Wire_def agent_wire_def lookup_or_def
      split: if_splits option.splits)

text \<open>
  C30. From registration on, whatever moves are asked: the trail leads from pending to the state the
  agent is in, by the changes the table allows and the activation a binding is, numbered revision by
  revision; the agent keeps its identifier and its tenant, and an identity on the record names it.
\<close>

theorem agent_history:
  assumes "Register asked actor now = Inr (a, t)" "run_moves agent_Apply a ms = (a', ts)"
  shows "linked at_from at_to agent_changes A_STATE_PENDING ts (ag_state a') \<and> numbered at_revision 1 ts \<and>
         ag_revision a' = 1 + of_nat (length ts) \<and> agent_wf a' \<and> ag_tenant a' = re_tenant asked"
proof -
  have "ag_tenant a' = ag_tenant a"
    by (rule agents.run_invariant [OF _ _ assms(2), of "\<lambda>b. ag_tenant b = ag_tenant a"]) (auto dest: agent_Apply_InrD)
  then show ?thesis
    using agents.trail_leads [OF assms(2)] agent_wf_Register [OF assms(1)]
      agents.run_invariant [of agent_wf, OF agent_wf_Apply, OF _ _ _ assms(2)]
    by simp
qed

text \<open>
  C31. A machine renews its own certificate only while telemetry of it would be taken, and only by
  presenting the certificate it is bound to, or by asking the renewal that replaced it again; what is
  bound names the agent and has not expired.
\<close>

theorem renewal_by_holder:
  assumes "agent_Apply a m = Inr (a', t)" "am_renewal m" "am_identity m = Some i"
  shows "\<exists>s. agent_FromWire (ag_state a) = Some s \<and> Admits s \<and>
           (am_presented m = current_fingerprint a \<or> asksAgain m) \<and>
           ag_identity a' = Some i \<and> id_subject i = ag_id a \<and> am_at m < time_of (id_expires i)"
proof -
  obtain s where s: "agent_FromWire (ag_state a) = Some s" "agent_refusal a s m = None" "a' = agent_moved a s m"
    using agent_Apply_InrD [OF assms(1)] by blast
  then show ?thesis
    using agent_refusal_None(3,4) [OF s(2)] Bindable_None assms(2,3) by fastforce
qed

section \<open>Examples\<close>

definition sample_registration :: registration where
  "sample_registration =
     \<lparr>re_agent = ''web-01'', re_tenant = ''acme'', re_version = ''1.2.0'', re_note = ''rack 4'', re_platform = None\<rparr>"

definition sample_agent :: agent where
  "sample_agent = (case Register sample_registration ''ana'' 0 of Inr (a, _) \<Rightarrow> a)"

definition sample_identity :: identity where
  "sample_identity =
     \<lparr>id_subject = ''web-01'', id_serial = ''0a1f'', id_fingerprint = replicate 64 CHR ''a'', id_issued = None,
      id_expires = Some \<lparr>ts_seconds = 5000, ts_nanos = 0\<rparr>\<rparr>"

definition agent_asks :: "agent_state \<Rightarrow> identity option \<Rightarrow> string \<Rightarrow> bool \<Rightarrow> string \<Rightarrow> agent_move" where
  "agent_asks to bound note renewal presented =
     \<lparr>am_to = to, am_identity = bound, am_note = note, am_actor = ''ana'', am_at = unix_epoch, am_authority = ''ca'',
      am_presented = presented, am_request = [], am_bound = \<lparr>as_presented = [], as_request = []\<rparr>,
      am_renewal = renewal, am_expected = 0\<rparr>"

definition sample_agent_moves :: "agent_move list" where
  "sample_agent_moves =
     [agent_asks (A_OtherState []) (Some sample_identity) [] False [],
      agent_asks A_Disabled None ''maintenance'' False [],
      agent_asks (A_OtherState []) (Some sample_identity) [] True (replicate 64 CHR ''a''),
      agent_asks A_Active None ''done'' False [],
      agent_asks A_Revoked None ''lost'' False [],
      agent_asks A_Active None ''found'' False []]"

lemma sample_agent_facts:
  "Register sample_registration ''ana'' 0 = Inr (sample_agent, snd (projr (Register sample_registration ''ana'' 0)))"
  "map at_to (snd (run_moves agent_Apply sample_agent sample_agent_moves)) =
     [A_STATE_ACTIVE, A_STATE_DISABLED, A_STATE_ACTIVE, A_STATE_REVOKED]"
  by code_simp+

theorem agent_history_witness:
  "\<exists>a t a' ts. Register sample_registration ''ana'' 0 = Inr (a, t) \<and>
     run_moves agent_Apply a sample_agent_moves = (a', ts) \<and> length ts = 4 \<and> agent_wf a' \<and> ag_tenant a' = ''acme''"
proof -
  obtain a' ts where run: "run_moves agent_Apply sample_agent sample_agent_moves = (a', ts)"
    by (cases "run_moves agent_Apply sample_agent sample_agent_moves")
  have "length ts = 4" using arg_cong [OF sample_agent_facts(2), of length] run by simp
  with agent_history [OF sample_agent_facts(1) run] run sample_agent_facts(1) show ?thesis
    by (metis sample_registration_def registration.select_convs(2))
qed

definition sample_bound :: agent where
  "sample_bound = fst (run_moves agent_Apply sample_agent (take 1 sample_agent_moves))"

theorem renewal_by_holder_witness:
  "\<exists>a' t. agent_Apply sample_bound (agent_asks (A_OtherState []) (Some sample_identity) [] True (replicate 64 CHR ''a'')) = Inr (a', t) \<and>
     ag_identity a' = Some sample_identity \<and> id_subject sample_identity = ag_id sample_bound"
proof -
  let ?m = "agent_asks (A_OtherState []) (Some sample_identity) [] True (replicate 64 CHR ''a'')"
  have "\<not> isl (agent_Apply sample_bound ?m)" by code_simp
  then obtain a' t where r: "agent_Apply sample_bound ?m = Inr (a', t)"
    by (cases "agent_Apply sample_bound ?m") auto
  show ?thesis using renewal_by_holder [OF r] r by (auto simp: agent_asks_def)
qed

text \<open>
  Disabling a pending agent and enabling it again makes it active although no identity was ever
  bound to it, so being active does not say that it holds something to authenticate with.
\<close>

theorem active_without_identity:
  "\<exists>a. fst (run_moves agent_Apply sample_agent
          [agent_asks A_Disabled None ''paused'' False [], agent_asks A_Active None ''resumed'' False []]) = a \<and>
       ag_state sample_agent = A_STATE_PENDING \<and> ag_state a = A_STATE_ACTIVE \<and> ag_identity a = None"
  by (rule exI, rule conjI, rule refl) code_simp

end
