(* ===== verification/Agent_Roster.thy ===== *)
theory Agent_Roster
  imports Agent_Lifecycle
begin

text \<open>
  \<^verbatim>\<open>internal/agent/roster.go\<close>: which identities a data-plane process still honours, built from the
  admission records of a compacted log in whatever order they are delivered. Each call holds the
  roster's lock from its first read to its last write, so a call is one step on the map.
\<close>

record decided =
  de_admits :: bool
  de_tenant :: string
  de_revision :: revision

type_synonym roster = "(string, decided) go_map"

datatype roster_error = R_ErrMalformed string | R_ErrConflict string

definition NewRoster :: roster where "NewRoster = []"

definition roster_Apply :: "roster \<Rightarrow> admission \<Rightarrow> roster_error option \<times> roster" where
  "roster_Apply r rec =
     (if ad_agent rec = [] then (Some (R_ErrMalformed ''the admission record names no agent''), r)
      else case agent_FromWire (ad_state rec) of
        None \<Rightarrow> (Some (R_ErrMalformed ''names no agent state this build knows''), r)
      | Some s \<Rightarrow>
          if tenant_check (ad_tenant rec) \<noteq> None then (Some (R_ErrMalformed ''tenant''), r)
          else
            let taken = AList.update (ad_agent rec)
                  \<lparr>de_admits = Admits s, de_tenant = ad_tenant rec, de_revision = ad_revision rec\<rparr> r
            in case lookup r (ad_agent rec) of
              None \<Rightarrow> (None, taken)
            | Some d \<Rightarrow>
                let neither = AList.update (ad_agent rec) \<lparr>de_admits = False, de_tenant = [], de_revision = de_revision d\<rparr> r in
                if ad_revision rec < de_revision d then (None, r)
                else if ad_revision rec = de_revision d \<and> de_admits d \<noteq> Admits s
                then (Some (R_ErrConflict ''decides both ways''), neither)
                else if ad_revision rec = de_revision d \<and> de_tenant d \<noteq> ad_tenant rec
                then (Some (R_ErrConflict ''places it in two tenants''), neither)
                else (None, taken))"

definition Refuse :: "roster \<Rightarrow> string \<Rightarrow> roster" where
  "Refuse r agent =
     (if agent = [] then r
      else AList.update agent
        ((lookup_or \<lparr>de_admits = False, de_tenant = [], de_revision = 0\<rparr> r agent)\<lparr>de_admits := False\<rparr>) r)"

definition Tenant :: "roster \<Rightarrow> string \<Rightarrow> string option" where
  "Tenant r agent =
     (case lookup r agent of None \<Rightarrow> None | Some d \<Rightarrow> if de_admits d then Some (de_tenant d) else None)"

definition Knows :: "roster \<Rightarrow> string \<Rightarrow> bool" where
  "Knows r agent = (lookup r agent \<noteq> None)"

definition Known :: "roster \<Rightarrow> nat" where
  "Known r = length r"

definition roster_refused :: "roster \<Rightarrow> nat" where
  "roster_refused r = length (filter (\<lambda>e. \<not> de_admits (snd e)) r)"

text \<open>A log delivered record by record; what a record came to is reported and the reading goes on.\<close>

definition deliver :: "roster \<Rightarrow> admission list \<Rightarrow> roster" where
  "deliver r recs = foldl (\<lambda>r rec. snd (roster_Apply r rec)) r recs"

section \<open>What a log decides\<close>

definition usable :: "admission \<Rightarrow> bool" where
  "usable rec \<longleftrightarrow>
     ad_agent rec \<noteq> [] \<and> agent_FromWire (ad_state rec) \<noteq> None \<and> tenant_check (ad_tenant rec) = None"

definition verdict :: "admission \<Rightarrow> bool \<times> string" where
  "verdict rec = ((case agent_FromWire (ad_state rec) of Some s \<Rightarrow> Admits s | None \<Rightarrow> False), ad_tenant rec)"

definition about :: "admission list \<Rightarrow> string \<Rightarrow> admission set" where
  "about recs agent = {rec \<in> set recs. usable rec \<and> ad_agent rec = agent}"

text \<open>The records that decide about an agent: the usable ones of its highest revision.\<close>

definition decisive :: "admission list \<Rightarrow> string \<Rightarrow> admission set" where
  "decisive recs agent = {rec \<in> about recs agent. \<forall>other \<in> about recs agent. ad_revision other \<le> ad_revision rec}"

definition settled :: "decided option \<Rightarrow> admission set \<Rightarrow> bool" where
  "settled entry W \<longleftrightarrow>
     (case entry of
        None \<Rightarrow> W = {}
      | Some d \<Rightarrow>
          (\<exists>rec \<in> W. ad_revision rec = de_revision d) \<and> (\<forall>rec \<in> W. ad_revision rec \<le> de_revision d) \<and>
          (let vs = verdict ` {rec \<in> W. ad_revision rec = de_revision d} in
           vs = {(de_admits d, de_tenant d)} \<or>
           (\<exists>v \<in> vs. \<exists>v' \<in> vs. v \<noteq> v') \<and> \<not> de_admits d \<and> de_tenant d = []))"

lemma roster_Apply_other: "agent \<noteq> ad_agent rec \<Longrightarrow> lookup (snd (roster_Apply r rec)) agent = lookup r agent"
  by (simp add: roster_Apply_def Let_def split: option.split)

lemma roster_Apply_unusable: "\<not> usable rec \<Longrightarrow> snd (roster_Apply r rec) = r"
  by (auto simp: roster_Apply_def usable_def split: option.split)

lemma tenant_nonempty: "tenant_check t = None \<Longrightarrow> t \<noteq> []"
  by (auto simp: tenant_check_def)

text \<open>The four ways a usable record is taken.\<close>

lemma roster_Apply_usable:
  assumes "usable rec"
  shows "lookup (snd (roster_Apply r rec)) (ad_agent rec) =
    (case lookup r (ad_agent rec) of
       None \<Rightarrow> Some \<lparr>de_admits = fst (verdict rec), de_tenant = snd (verdict rec), de_revision = ad_revision rec\<rparr>
     | Some d \<Rightarrow>
         if ad_revision rec < de_revision d then Some d
         else if ad_revision rec = de_revision d \<and> (de_admits d, de_tenant d) \<noteq> verdict rec
         then Some \<lparr>de_admits = False, de_tenant = [], de_revision = de_revision d\<rparr>
         else Some \<lparr>de_admits = fst (verdict rec), de_tenant = snd (verdict rec), de_revision = ad_revision rec\<rparr>)"
  using assms by (auto simp: roster_Apply_def usable_def verdict_def Let_def split: option.split)

lemma settled_step:
  assumes "settled (lookup r (ad_agent rec)) W" "usable rec"
  shows "settled (lookup (snd (roster_Apply r rec)) (ad_agent rec)) (insert rec W)"
proof (cases "lookup r (ad_agent rec)")
  case None
  with assms show ?thesis by (auto simp: roster_Apply_usable settled_def Let_def)
next
  case (Some d)
  let ?T = "{x \<in> W. ad_revision x = de_revision d}"
  from assms(1) Some obtain w where w: "w \<in> W" "ad_revision w = de_revision d"
    and le: "\<forall>x \<in> W. ad_revision x \<le> de_revision d"
    and v: "verdict ` ?T = {(de_admits d, de_tenant d)} \<or>
      (\<exists>v \<in> verdict ` ?T. \<exists>v' \<in> verdict ` ?T. v \<noteq> v') \<and> \<not> de_admits d \<and> de_tenant d = []"
    by (auto simp: settled_def Let_def)
  have ne: "snd (verdict rec) \<noteq> []" using assms(2) tenant_nonempty by (auto simp: usable_def verdict_def)
  consider "ad_revision rec < de_revision d" | "ad_revision rec = de_revision d" | "de_revision d < ad_revision rec"
    by fastforce
  then show ?thesis
  proof cases
    case 1
    then have "{x \<in> insert rec W. ad_revision x = de_revision d} = ?T" by auto
    then show ?thesis using 1 Some w le v assms(2) by (auto simp: roster_Apply_usable settled_def Let_def)
  next
    case 2
    then have T: "verdict ` {x \<in> insert rec W. ad_revision x = de_revision d} = insert (verdict rec) (verdict ` ?T)" by auto
    show ?thesis
    proof (cases "(de_admits d, de_tenant d) = verdict rec")
      case True
      then have "de_tenant d \<noteq> []" using ne by (metis snd_conv)
      then have "verdict ` ?T = {verdict rec}" using v True by simp
      then show ?thesis
        using 2 True Some w le assms(2) T by (auto simp: roster_Apply_usable settled_def Let_def)
    next
      case False
      have "\<exists>x \<in> insert (verdict rec) (verdict ` ?T). \<exists>y \<in> insert (verdict rec) (verdict ` ?T). x \<noteq> y"
        using v False by blast
      then show ?thesis
        using 2 False Some w le assms(2) T by (simp add: roster_Apply_usable settled_def Let_def)
    qed
  next
    case 3
    then have "{x \<in> insert rec W. ad_revision x = ad_revision rec} = {rec}" using le by force
    then show ?thesis using 3 Some le assms(2) by (fastforce simp: roster_Apply_usable settled_def Let_def)
  qed
qed

lemma about_snoc:
  "about (recs @ [rec]) agent = (if usable rec \<and> ad_agent rec = agent then insert rec (about recs agent) else about recs agent)"
  by (auto simp: about_def)

lemma settled_deliver: "settled (lookup (deliver NewRoster recs) agent) (about recs agent)"
proof (induction recs rule: rev_induct)
  case Nil
  then show ?case by (simp add: deliver_def NewRoster_def about_def settled_def)
next
  case (snoc rec recs)
  have d: "deliver NewRoster (recs @ [rec]) = snd (roster_Apply (deliver NewRoster recs) rec)" by (simp add: deliver_def)
  show ?case
  proof (cases "usable rec \<and> ad_agent rec = agent")
    case True
    then show ?thesis using settled_step [of "deliver NewRoster recs" rec] snoc d by (auto simp: about_snoc)
  next
    case False
    then show ?thesis using snoc d roster_Apply_other roster_Apply_unusable by (metis about_snoc)
  qed
qed

lemma decisive_settled:
  assumes "settled (Some d) (about recs agent)"
  shows "decisive recs agent = {rec \<in> about recs agent. ad_revision rec = de_revision d}"
  using assms by (force simp: settled_def decisive_def Let_def)

lemma roster_decides_iff:
  "Tenant (deliver NewRoster recs) agent = Some t \<longleftrightarrow> verdict ` decisive recs agent = {(True, t)}"
proof (cases "lookup (deliver NewRoster recs) agent")
  case None
  then have "about recs agent = {}" using settled_deliver [of recs agent] by (simp add: settled_def)
  with None show ?thesis by (simp add: Tenant_def decisive_def)
next
  case (Some d)
  then have s: "settled (Some d) (about recs agent)" using settled_deliver [of recs agent] by simp
  define vs where "vs = verdict ` decisive recs agent"
  have "vs = {(de_admits d, de_tenant d)} \<or> (\<exists>v \<in> vs. \<exists>v' \<in> vs. v \<noteq> v') \<and> \<not> de_admits d"
    using s unfolding vs_def decisive_settled [OF s] settled_def by (simp add: Let_def) blast
  then have "de_admits d \<and> de_tenant d = t \<longleftrightarrow> vs = {(True, t)}" by fastforce
  then show ?thesis using Some by (auto simp: Tenant_def vs_def)
qed


section \<open>An agent that was ended stays refused\<close>

text \<open>Every revision of an agent as the control plane publishes it, the first one included.\<close>

fun published :: "agent \<Rightarrow> agent_move list \<Rightarrow> admission list" where
  "published a [] = [Admission a]"
| "published a (m # ms) =
     (case agent_Apply a m of
        Inl _ \<Rightarrow> published a ms
      | Inr (a', _) \<Rightarrow> Admission a # published a' ms)"

lemma published_last: "run_moves agent_Apply a ms = (a', ts) \<Longrightarrow> Admission a' \<in> set (published a ms)"
proof (induction ms arbitrary: a ts)
  case (Cons m ms)
  then show ?case by (fastforce split: sum.splits prod.splits)
qed simp

lemma published_revisions:
  assumes "run_moves agent_Apply a ms = (a', ts)" "unat (ag_revision a) + length ms < 2 ^ 64" "rec \<in> set (published a ms)"
  shows "ad_agent rec = ag_id a \<and> ag_id a' = ag_id a \<and> ag_revision a \<le> ad_revision rec \<and>
    (ad_revision rec < ag_revision a' \<or> rec = Admission a')"
  using assms
proof (induction ms arbitrary: a ts rec)
  case Nil
  then show ?case by (simp add: Admission_def)
next
  case (Cons m ms)
  show ?case
  proof (cases "agent_Apply a m")
    case (Inl e)
    with Cons show ?thesis by simp
  next
    case (Inr p)
    obtain b t where p: "p = (b, t)" by (cases p)
    then have step: "agent_Apply a m = Inr (b, t)" using Inr by simp
    obtain ts' where run: "run_moves agent_Apply b ms = (a', ts')"
      using Cons.prems(1) step by (auto split: prod.splits)
    have ids: "ag_id b = ag_id a" using agent_Apply_InrD [OF step] by auto
    have rv: "ag_revision b = ag_revision a + 1" by (rule agents.revision_step [OF step])
    have "unat (ag_revision a + 1) = unat (ag_revision a) + 1"
      using Cons.prems(2) by (intro unat_add_lem [THEN iffD1, THEN trans]) auto
    then have up: "unat (ag_revision b) = unat (ag_revision a) + 1" "ag_revision a < ag_revision b"
      by (simp_all add: rv word_less_nat_alt)
    have IH: "r \<in> set (published b ms) \<Longrightarrow> ad_agent r = ag_id b \<and> ag_id a' = ag_id b \<and> ag_revision b \<le> ad_revision r \<and>
        (ad_revision r < ag_revision a' \<or> r = Admission a')" for r
      using Cons.IH [OF run] Cons.prems(2) up(1) by simp
    note last = published_last [OF run]
    have "ag_revision b \<le> ag_revision a'" using IH [OF last] by (auto simp: Admission_def)
    then have first: "ag_revision a < ag_revision a'" using up(2) by order
    from Cons.prems(3) step have "rec = Admission a \<or> rec \<in> set (published b ms)" by auto
    then show ?thesis
    proof
      assume "rec = Admission a"
      then show ?thesis using first ids IH [OF last] by (simp add: Admission_def)
    next
      assume "rec \<in> set (published b ms)"
      then have r: "ad_agent rec = ag_id b" "ag_id a' = ag_id b" "ag_revision b \<le> ad_revision rec"
        "ad_revision rec < ag_revision a' \<or> rec = Admission a'"
        using IH by auto
      have "ag_revision a \<le> ad_revision rec" using up(2) r(3) by order
      with r ids show ?thesis by simp
    qed
  qed
qed

text \<open>
  C24. Once an agent was revoked or decommissioned, no move is accepted any more, and a roster that has
  been delivered that decision refuses the agent whatever else of its history it is delivered, in any
  order and any number of times.
\<close>

theorem ended_stays_refused:
  assumes "Register asked actor now = Inr (a, t)" "run_moves agent_Apply a ms = (a', ts)" "length ms < 2 ^ 64 - 1"
    and "agent_FromWire (ag_state a') = Some s" "Final s"
    and "set recs \<subseteq> set (published a ms)" "Admission a' \<in> set recs"
  shows "Tenant (deliver NewRoster recs) (ag_id a) = None \<and> (\<forall>m. \<exists>e. agent_Apply a' m = Inl e)"
proof -
  have reg: "agent_wf a" "ag_revision a = 1" using agent_wf_Register [OF assms(1)] by auto
  have wf: "agent_wf a'" by (rule agents.run_invariant [of agent_wf, OF agent_wf_Apply, OF _ _ reg(1) assms(2)])
  have pub: "ad_agent r = ag_id a \<and> ag_id a' = ag_id a \<and> (ad_revision r < ag_revision a' \<or> r = Admission a')"
    if "r \<in> set recs" for r
    using published_revisions [OF assms(2)] reg(2) assms(3,6) that by auto
  have id: "ag_id a' = ag_id a" using pub [OF assms(7)] by simp
  have "usable (Admission a')"
    using wf assms(4) agentIDPattern_length by (auto simp: usable_def Admission_def agent_wf_def agentidentity_Valid_def)
  then have "Admission a' \<in> about recs (ag_id a)" using assms(7) id by (simp add: about_def Admission_def)
  then have "decisive recs (ag_id a) = {Admission a'}"
    using pub by (fastforce simp: decisive_def about_def Admission_def)
  moreover have "verdict (Admission a') = (False, ag_tenant a')"
    using assms(4) Final_not_Admits [OF assms(5)] by (simp add: verdict_def Admission_def)
  ultimately have "Tenant (deliver NewRoster recs) (ag_id a) \<noteq> Some u" for u
    using roster_decides_iff [of recs "ag_id a" u] by simp
  moreover have "\<exists>e. agent_Apply a' m = Inl e" for m
    using agent_Apply_InrD agent_refusal_None(1) assms(4,5) by (cases "agent_Apply a' m") fastforce+
  ultimately show ?thesis by (meson option.exhaust)
qed

lemma sample_short: "length sample_agent_moves < 2 ^ 64 - 1"
  by (simp add: sample_agent_moves_def)

lemma sample_ended:
  "agent_FromWire (ag_state (fst (run_moves agent_Apply sample_agent sample_agent_moves))) = Some A_Revoked"
  "Admission (fst (run_moves agent_Apply sample_agent sample_agent_moves)) \<in> set (published sample_agent sample_agent_moves)"
  "Tenant (deliver NewRoster (take 2 (published sample_agent sample_agent_moves))) ''web-01'' = Some ''acme''"
  by code_simp+

theorem ended_stays_refused_witness:
  "Tenant (deliver NewRoster (take 2 (published sample_agent sample_agent_moves))) ''web-01'' = Some ''acme'' \<and>
   Tenant (deliver NewRoster (rev (published sample_agent sample_agent_moves))) (ag_id sample_agent) = None"
proof -
  obtain a' ts where run: "run_moves agent_Apply sample_agent sample_agent_moves = (a', ts)"
    by (cases "run_moves agent_Apply sample_agent sample_agent_moves")
  have "Final A_Revoked" by (simp add: Final_def)
  then show ?thesis
    using ended_stays_refused [OF sample_agent_facts(1) run, of A_Revoked "rev (published sample_agent sample_agent_moves)"]
      sample_short sample_ended run
    by simp
qed

section \<open>A record nothing can read\<close>

text \<open>The entry refuses the agent and stands at a revision.\<close>

definition refused_at :: "roster \<Rightarrow> string \<Rightarrow> revision \<Rightarrow> bool" where
  "refused_at r agent n \<longleftrightarrow> (\<exists>d. lookup r agent = Some d \<and> \<not> de_admits d \<and> de_revision d = n)"

lemma refused_at_step:
  assumes "refused_at r agent n" "usable rec \<Longrightarrow> ad_agent rec = agent \<Longrightarrow> ad_revision rec \<le> n"
  shows "refused_at (snd (roster_Apply r rec)) agent n"
proof (cases "usable rec \<and> ad_agent rec = agent")
  case True
  then show ?thesis
    using assms roster_Apply_usable [of rec r] by (cases "verdict rec") (auto simp: refused_at_def split: if_splits)
next
  case False
  then show ?thesis
    using assms(1) roster_Apply_other [of agent rec r] roster_Apply_unusable [of rec r]
    unfolding refused_at_def by (cases "usable rec") auto
qed

lemma refused_at_deliver:
  assumes "refused_at r agent n" "\<And>rec. rec \<in> about recs agent \<Longrightarrow> ad_revision rec \<le> n"
  shows "refused_at (deliver r recs) agent n"
  using assms
proof (induction recs arbitrary: r)
  case (Cons rec recs)
  have "refused_at (snd (roster_Apply r rec)) agent n"
    using refused_at_step Cons.prems by (simp add: about_def)
  then show ?case using Cons.IH Cons.prems(2) by (simp add: deliver_def about_def)
qed (simp add: deliver_def)



end
