(* ===== verification/Go_Format.thy ===== *)
theory Go_Format
  imports Go_Float Go_Strings "HOL-Library.Log_Nat"
begin

text \<open>
  How Go writes the scalars a rule compares: \<^verbatim>\<open>strconv.FormatBool\<close>, \<^verbatim>\<open>strconv.FormatFloat\<close> in its
  shortest \<^verbatim>\<open>'g'\<close> form, which is also what \<^verbatim>\<open>%v\<close> writes, and the conversions between integers and
  floating-point numbers, which round to the nearest and to the even one of two. A finite value is the
  rational number it denotes, so the sign of a zero is not kept. The proofs need only that small
  integers convert exactly.
\<close>

definition FormatBool :: "bool \<Rightarrow> string" where
  "FormatBool b = (if b then ''true'' else ''false'')"

section \<open>Rounding\<close>

text \<open>The width of the fraction and the least exponent of the two formats.\<close>

definition float_shape :: "nat \<Rightarrow> int \<times> int" where
  "float_shape bits = (if bits = 32 then (23, - 126) else (52, - 1022))"

definition pow2 :: "int \<Rightarrow> rat" where
  "pow2 e = (if 0 \<le> e then 2 ^ nat e else 1 / 2 ^ nat (- e))"

definition exponent2 :: "rat \<Rightarrow> int" where
  "exponent2 q = (case quotient_of q of (n, d) \<Rightarrow> let e = bitlen n - bitlen d in if pow2 e \<le> q then e else e - 1)"

definition ulp :: "nat \<Rightarrow> rat \<Rightarrow> rat" where
  "ulp bits q = (case float_shape bits of (p, least) \<Rightarrow> pow2 (max (exponent2 q) least - p))"

definition round_even :: "rat \<Rightarrow> int" where
  "round_even q =
     (let f = \<lfloor>q\<rfloor>; r = q - of_int f in
      if r < 1 / 2 then f else if 1 / 2 < r then f + 1 else if even f then f else f + 1)"

definition float_round :: "nat \<Rightarrow> rat \<Rightarrow> rat" where
  "float_round bits q =
     (if q = 0 then 0 else let u = ulp bits \<bar>q\<bar> in sgn q * of_int (round_even (\<bar>q\<bar> / u)) * u)"

text \<open>\<^verbatim>\<open>float64(n)\<close>: up to \<open>2\<^sup>53\<close> nothing is lost.\<close>

definition float_of_int :: "int \<Rightarrow> float64" where
  "float_of_int n = Finite (if \<bar>n\<bar> \<le> 2 ^ 53 then of_int n else float_round 64 (of_int n))"

text \<open>\<^verbatim>\<open>float32(x)\<close> within the range of the narrower format.\<close>

fun to_float32 :: "float64 \<Rightarrow> float64" where
  "to_float32 (Finite q) = Finite (float_round 32 q)"
| "to_float32 x = x"

lemma float_of_int_exact [simp]: "\<bar>n\<bar> \<le> 2 ^ 53 \<Longrightarrow> float_of_int n = Finite (of_int n)"
  by (simp add: float_of_int_def)

lemma float_of_int_not_NaN [simp]: "float_of_int n \<noteq> NaN"
  by (simp add: float_of_int_def)

section \<open>The shortest decimal\<close>

definition pow10 :: "int \<Rightarrow> rat" where
  "pow10 e = (if 0 \<le> e then 10 ^ nat e else 1 / 10 ^ nat (- e))"

text \<open>Where the decimal point stands: the least \<open>d\<close> with \<open>q < 10\<^sup>d\<close>, estimated from the binary exponent.\<close>

definition dec_point :: "rat \<Rightarrow> int" where
  "dec_point q =
     (let d = (exponent2 q * 30103) div 100000 in
      if q < pow10 d then d else if q < pow10 (d + 1) then d + 1 else d + 2)"

text \<open>The decimals that are read back as \<open>q\<close>.\<close>

definition reads_as :: "nat \<Rightarrow> rat \<Rightarrow> rat \<Rightarrow> bool" where
  "reads_as bits q x =
     (let u = ulp bits q; m = q / u; least = snd (float_shape bits);
          low = q - (if m = pow2 (fst (float_shape bits)) \<and> least < exponent2 q then u / 4 else u / 2);
          high = q + u / 2
      in if even \<lfloor>m\<rfloor> then low \<le> x \<and> x \<le> high else low < x \<and> x < high)"

text \<open>The first length at which rounding down or up is read back, at most 17 digits.\<close>

fun shortest_from :: "nat \<Rightarrow> nat \<Rightarrow> rat \<Rightarrow> int \<Rightarrow> int \<Rightarrow> int \<times> int" where
  "shortest_from 0 bits q d n = (\<lfloor>q / pow10 (d - n)\<rfloor>, d - n)"
| "shortest_from (Suc left) bits q d n =
     (let s = pow10 (d - n); f = \<lfloor>q / s\<rfloor>;
          down = reads_as bits q (of_int f * s); up = reads_as bits q (of_int (f + 1) * s)
      in if down \<and> up then (round_even (q / s), d - n)
         else if down then (f, d - n)
         else if up then (f + 1, d - n)
         else shortest_from left bits q d (n + 1))"

definition strip_zeros :: "string \<Rightarrow> string" where
  "strip_zeros s = rev (dropWhile (\<lambda>c. c = CHR ''0'') (rev s))"

text \<open>The digits and the position of the point before them.\<close>

definition shortest_digits :: "nat \<Rightarrow> rat \<Rightarrow> string \<times> int" where
  "shortest_digits bits q =
     (case shortest_from 17 bits q (dec_point q) 1 of (m, scale) \<Rightarrow>
        let s = dec_of_nat (nat m) in (strip_zeros s, scale + int (length s)))"

definition two_digits :: "int \<Rightarrow> string" where
  "two_digits e = (if e < 10 then CHR ''0'' # dec_of_nat (nat e) else dec_of_nat (nat e))"

definition format_e :: "string \<Rightarrow> int \<Rightarrow> string" where
  "format_e s point =
     (let e = point - 1 in
      take 1 s @ (if 1 < length s then CHR ''.'' # drop 1 s else []) @
      ''e'' @ (if e < 0 then ''-'' else ''+'') @ two_digits \<bar>e\<bar>)"

definition format_f :: "string \<Rightarrow> int \<Rightarrow> string" where
  "format_f s point =
     (if point \<le> 0 then ''0.'' @ replicate (nat (- point)) CHR ''0'' @ s
      else if int (length s) \<le> point then s @ replicate (nat point - length s) CHR ''0''
      else take (nat point) s @ CHR ''.'' # drop (nat point) s)"

fun FormatFloat :: "nat \<Rightarrow> float64 \<Rightarrow> string" where
  "FormatFloat bits NaN = ''NaN''"
| "FormatFloat bits PosInf = ''+Inf''"
| "FormatFloat bits NegInf = ''-Inf''"
| "FormatFloat bits (Finite q) =
     (if q = 0 then ''0''
      else case shortest_digits bits \<bar>q\<bar> of (s, point) \<Rightarrow>
        (if q < 0 then ''-'' else []) @
        (if point - 1 < - 4 \<or> 6 \<le> point - 1 then format_e s point else format_f s point))"

end
