(* ===== verification/Detection_Validate.thy ===== *)
theory Detection_Validate
  imports Event_Validate Go_Format State_Bounds
begin

text \<open>
  Whether the platform can run a rule at all (\<^verbatim>\<open>internal/detection/validate.go\<close>): every check of
  \<^verbatim>\<open>Validate\<close> in its order, with the part it names and the reason it gives. The results say what an
  accepted rule is sure to be: how deep and how wide its expression is, what its predicates compare, and
  what its count or its sequence asks of the state.
\<close>

section \<open>Bounds\<close>

definition MaxIDLength :: nat where "MaxIDLength = 120"
definition MaxNameLength :: nat where "MaxNameLength = 200"
definition MaxDescriptionLength :: nat where "MaxDescriptionLength = 2000"
definition MaxGuidanceLength :: nat where "MaxGuidanceLength = 2000"
definition MaxCases :: nat where "MaxCases = 64"
definition MaxCaseFields :: nat where "MaxCaseFields = 64"
definition MaxTags :: nat where "MaxTags = 32"
definition MaxReferences :: nat where "MaxReferences = 16"
definition MaxReferenceLength :: nat where "MaxReferenceLength = 500"
definition MaxValues :: nat where "MaxValues = 4096"
definition MaxDepth :: nat where "MaxDepth = 16"
definition MaxStageLength :: nat where "MaxStageLength = 80"

lemmas rule_bounds =
  MaxIDLength_def MaxNameLength_def MaxDescriptionLength_def MaxGuidanceLength_def MaxCaseFields_def MaxTags_def
  MaxReferences_def MaxReferenceLength_def MaxValues_def MaxDepth_def MaxStageLength_def

section \<open>Names\<close>

definition is_lower :: "char \<Rightarrow> bool" where
  "is_lower c = (97 \<le> byte c \<and> byte c \<le> 122)"

text \<open>
  \<^verbatim>\<open>^[a-z][a-z0-9]*([._][a-z0-9]+)*$\<close>: a lower-case letter, then letters and digits, with a single
  separator allowed between two of them. The first argument says whether the last character may be
  followed by a separator or by the end.
\<close>

fun words_from :: "bool \<Rightarrow> string \<Rightarrow> bool" where
  "words_from inside [] = inside"
| "words_from inside (c # s) =
     (if is_lower c \<or> is_digit c then words_from True s
      else if c \<in> set ''._'' then inside \<and> words_from False s
      else False)"

definition rule_identifier :: "string \<Rightarrow> bool" where
  "rule_identifier s = (case s of [] \<Rightarrow> False | c # t \<Rightarrow> is_lower c \<and> words_from True t)"

text \<open>\<^verbatim>\<open>[._]v\d+$\<close>, found anywhere: the digits at the end are preceded by a separator and a \<^verbatim>\<open>v\<close>.\<close>

definition versioned :: "string \<Rightarrow> bool" where
  "versioned s =
     (let r = rev s; rest = dropWhile is_digit r in
      r \<noteq> rest \<and> (case rest of v # sep # _ \<Rightarrow> v = CHR ''v'' \<and> sep \<in> set ''._'' | _ \<Rightarrow> False))"

text \<open>\<^verbatim>\<open>^T\d{4}(\.\d{3})?$\<close>.\<close>

definition technique_id :: "string \<Rightarrow> bool" where
  "technique_id s =
     (case s of [] \<Rightarrow> False
      | t # r \<Rightarrow> t = CHR ''T'' \<and> 4 \<le> length r \<and> list_all is_digit (take 4 r) \<and>
          (let more = drop 4 r in
           more = [] \<or> (length more = 4 \<and> hd more = CHR ''.'' \<and> list_all is_digit (tl more))))"

definition tactics :: "string list" where
  "tactics =
     [''reconnaissance'', ''resource_development'', ''initial_access'', ''execution'', ''persistence'',
      ''privilege_escalation'', ''defense_evasion'', ''credential_access'', ''discovery'', ''lateral_movement'',
      ''collection'', ''command_and_control'', ''exfiltration'', ''impact'']"

fun severity_text :: "severity \<Rightarrow> string" where
  "severity_text Low = ''low''"
| "severity_text Medium = ''medium''"
| "severity_text High = ''high''"
| "severity_text Critical = ''critical''"
| "severity_text (OtherSeverity s) = s"

fun status_text :: "status \<Rightarrow> string" where
  "status_text Draft = ''draft''"
| "status_text Active = ''active''"
| "status_text Disabled = ''disabled''"
| "status_text Deprecated = ''deprecated''"
| "status_text (OtherStatus s) = s"

fun operator_text :: "operator \<Rightarrow> string" where
  "operator_text Equals = ''equals''"
| "operator_text OneOf = ''one_of''"
| "operator_text Contains = ''contains''"
| "operator_text StartsWith = ''starts_with''"
| "operator_text EndsWith = ''ends_with''"
| "operator_text Above = ''above''"
| "operator_text AtLeast = ''at_least''"
| "operator_text Below = ''below''"
| "operator_text AtMost = ''at_most''"
| "operator_text Present = ''present''"
| "operator_text (OtherOperator s) = s"

fun kind_text :: "kind \<Rightarrow> string" where
  "kind_text Text = ''text''"
| "kind_text Number = ''number''"
| "kind_text Truth = ''truth''"
| "kind_text Choice = ''choice''"

text \<open>The severities a rule may carry and what each is reported as, in the contract's numbering.\<close>

definition severities :: "contract \<Rightarrow> (severity, int) go_map" where
  "severities c =
     [(Low, enum_value (ct_severity_name c) ''SEVERITY_LOW''), (Medium, enum_value (ct_severity_name c) ''SEVERITY_MEDIUM''),
      (High, enum_value (ct_severity_name c) ''SEVERITY_HIGH''), (Critical, enum_value (ct_severity_name c) ''SEVERITY_CRITICAL'')]"

definition statuses :: "status list" where
  "statuses = [Draft, Active, Disabled, Deprecated]"

definition value_string :: "contract \<Rightarrow> literal_value \<Rightarrow> string" where
  "value_string c v =
     (case v_kind v of
        Number \<Rightarrow> FormatFloat 64 (v_number v)
      | Truth \<Rightarrow> FormatBool (v_truth v)
      | _ \<Rightarrow> Quote (ct_printable c) (v_text v))"

section \<open>Violations\<close>

record rule_violation =
  rv_rule :: rule_id
  rv_part :: string
  rv_reason :: string

definition rule_violation_of :: "rule \<Rightarrow> string \<Rightarrow> string \<Rightarrow> rule_violation" where
  "rule_violation_of r part reason = \<lparr>rv_rule = r_id r, rv_part = part, rv_reason = reason\<rparr>"

definition refuse :: "rule \<Rightarrow> string \<Rightarrow> string \<Rightarrow> rule_violation option" where
  "refuse r part reason = Some (rule_violation_of r part reason)"

lemma refuse_refuses [simp]: "refuse r part reason \<noteq> None" "\<exists>e. refuse r part reason = Some e"
  by (simp_all add: refuse_def)

definition rule_text :: "rule \<Rightarrow> string \<Rightarrow> string \<Rightarrow> nat \<Rightarrow> bool \<Rightarrow> rule_violation option" where
  "rule_text r part value most required =
     (if TrimSpace value = [] \<and> required then refuse r part ''is missing''
      else if most < length value
      then refuse r part (''is longer than '' @ dec_of_nat most @ '' characters'')
      else None)"

definition indexed :: "string \<Rightarrow> nat \<Rightarrow> string" where
  "indexed part i = part @ ''['' @ dec_of_nat i @ '']''"

definition names :: "string \<Rightarrow> string list \<Rightarrow> bool" where
  "names value choices = (value \<in> set choices)"

section \<open>Predicates and expressions\<close>

fun each_value :: "contract \<Rightarrow> rule \<Rightarrow> string \<Rightarrow> predicate \<Rightarrow> kind \<Rightarrow> literal_value list \<Rightarrow> rule_violation option" where
  "each_value c r w p k [] = None"
| "each_value c r w p k (v # vs) =
     (if \<not> fits v k then refuse r w (''holds '' @ kind_text k @ '' and is compared against '' @ value_string c v)
      else if v_kind v = Text \<and> TrimSpace (v_text v) = []
      then refuse r w ''is compared against nothing, which every event matches''
      else if k = Choice \<and> \<not> names (v_text v) (ChoicesOf c (p_field p))
      then refuse r w (''is compared against '' @ value_string c v @ '', and the contract declares '' @
             join_with '', '' (ChoicesOf c (p_field p)))
      else each_value c r w p k vs)"

definition validateValues :: "contract \<Rightarrow> rule \<Rightarrow> string \<Rightarrow> predicate \<Rightarrow> kind \<Rightarrow> rule_violation option" where
  "validateValues c r w p k =
     (case takes (p_operator p) of (minimum, maximum) \<Rightarrow>
        if length (p_values p) < minimum
        then refuse r w (''gives '' @ operator_text (p_operator p) @ '' nothing to compare against'')
        else if 0 < maximum \<and> maximum < length (p_values p)
        then refuse r w (''gives '' @ operator_text (p_operator p) @ '' '' @ dec_of_nat (length (p_values p)) @
               '' values and it reads '' @ dec_of_nat maximum)
        else if MaxValues < length (p_values p)
        then refuse r w (''lists '' @ dec_of_nat (length (p_values p)) @ '' values, above the ceiling of '' @ dec_of_nat MaxValues)
        else each_value c r w p k (p_values p))"

definition validatePredicate :: "contract \<Rightarrow> rule \<Rightarrow> string \<Rightarrow> predicate \<Rightarrow> rule_violation option" where
  "validatePredicate c r part p =
     (let w = part @ ''.'' @ p_field p in
      case KindOf c (p_field p) of
        None \<Rightarrow> refuse r w ''is not a field the contract declares''
      | Some k \<Rightarrow>
          if \<not> AddressableBy c (p_field p) (r_class r)
          then refuse r w (''belongs to another class, so a '' @ className c (r_class r) @ '' rule would never match it'')
          else if \<not> operator_known (p_operator p)
          then refuse r w (''asks '' @ Quote (ct_printable c) (operator_text (p_operator p)) @ '', which is not an operator'')
          else if \<not> operator_asks (p_operator p) k
          then refuse r w (''holds '' @ kind_text k @ '', and '' @ operator_text (p_operator p) @ '' does not ask that'')
          else validateValues c r w p k)"

fun validateExpression :: "contract \<Rightarrow> rule \<Rightarrow> string \<Rightarrow> expression \<Rightarrow> nat \<Rightarrow> rule_violation option"
and validateTerms :: "contract \<Rightarrow> rule \<Rightarrow> string \<Rightarrow> expression list \<Rightarrow> nat \<Rightarrow> rule_violation option"
and each_term :: "contract \<Rightarrow> rule \<Rightarrow> string \<Rightarrow> nat \<Rightarrow> expression list \<Rightarrow> nat \<Rightarrow> rule_violation option"
where
  "validateExpression c r part e depth =
     (if e = Missing then refuse r part ''is missing: a rule that asks nothing matches everything''
      else if MaxDepth < depth
      then refuse r part (''nests deeper than '' @ dec_of_nat MaxDepth @ '', which is deeper than a rule anybody can read'')
      else case e of
        Missing \<Rightarrow> None
      | Predicate p \<Rightarrow> validatePredicate c r part p
      | NotOf x \<Rightarrow> validateExpression c r (part @ ''.not'') x (depth + 1)
      | AllOf xs \<Rightarrow> validateTerms c r (part @ ''.all'') xs depth
      | AnyOf xs \<Rightarrow> validateTerms c r (part @ ''.any'') xs depth)"
| "validateTerms c r part xs depth =
     (if xs = [] then refuse r part ''has no terms: a rule that asks nothing matches everything''
      else each_term c r part 0 xs depth)"
| "each_term c r part i [] depth = None"
| "each_term c r part i (x # xs) depth =
     or_else (validateExpression c r (indexed part i) x (depth + 1)) (each_term c r part (Suc i) xs depth)"

declare validateExpression.simps [simp del] validateTerms.simps [simp del]

section \<open>The parts of a rule\<close>

definition validateClass :: "contract \<Rightarrow> rule \<Rightarrow> rule_violation option" where
  "validateClass c r =
     (if r_class r = 0 then refuse r ''class'' ''must name the class of event the rule reads''
      else if map_of (ct_class_name c) (r_class r) = None
      then refuse r ''class'' (''is '' @ itoa (r_class r) @ '', which the contract does not declare'')
      else None)"

definition validateTechnique :: "contract \<Rightarrow> rule \<Rightarrow> rule_violation option" where
  "validateTechnique c r =
     (let t = r_technique r in
      if technique_empty t then None
      else if t_tactic t = [] \<or> t_id t = [] \<or> t_name t = []
      then refuse r ''technique'' ''needs a tactic, an id and a name, or none of the three''
      else if t_tactic t \<notin> set tactics
      then refuse r ''technique.tactic'' (''is '' @ Quote (ct_printable c) (t_tactic t) @ '', which is not an ATT&CK enterprise tactic'')
      else if \<not> technique_id (t_id t)
      then refuse r ''technique.id'' (''is '' @ Quote (ct_printable c) (t_id t) @ '' and should read like T1110 or T1110.001'')
      else rule_text r ''technique.name'' (t_name t) MaxNameLength True)"

definition validateSource :: "contract \<Rightarrow> rule \<Rightarrow> rule_violation option" where
  "validateSource c r =
     (let s = r_source r in
      if source_empty s then None
      else if src_catalogue s = [] \<or> src_identifier s = []
      then refuse r ''source'' ''needs a catalogue and an identifier, or neither''
      else if \<not> rule_identifier (src_catalogue s) \<or> MaxIDLength < length (src_catalogue s)
      then refuse r ''source.catalogue'' (''is '' @ Quote (ct_printable c) (src_catalogue s) @
             '' and must be lowercase words joined by . or _, up to '' @ dec_of_nat MaxIDLength @ '' characters'')
      else rule_text r ''source.identifier'' (src_identifier s) MaxNameLength True)"

fun each_tag :: "contract \<Rightarrow> rule \<Rightarrow> nat \<Rightarrow> string list \<Rightarrow> string list \<Rightarrow> rule_violation option" where
  "each_tag c r i seen [] = None"
| "each_tag c r i seen (t # ts) =
     (if \<not> rule_identifier t \<or> MaxIDLength < length t
      then refuse r (indexed ''tags'' i) (''is '' @ Quote (ct_printable c) t @
             '' and must be lowercase words joined by . or _, up to '' @ dec_of_nat MaxIDLength @ '' characters'')
      else if t \<in> set seen
      then refuse r (indexed ''tags'' i) (''is '' @ Quote (ct_printable c) t @ '', which the rule already carries'')
      else each_tag c r (Suc i) (t # seen) ts)"

definition validateTags :: "contract \<Rightarrow> rule \<Rightarrow> rule_violation option" where
  "validateTags c r =
     (if MaxTags < length (r_tags r)
      then refuse r ''tags'' (''lists '' @ dec_of_nat (length (r_tags r)) @ '' tags, above the ceiling of '' @ dec_of_nat MaxTags)
      else each_tag c r 0 [] (r_tags r))"

definition reachable :: "contract \<Rightarrow> string \<Rightarrow> bool" where
  "reachable c reference =
     (case ct_parse_url c reference of
        None \<Rightarrow> False
      | Some (scheme, host) \<Rightarrow> if host = [] then False else scheme = ''http'' \<or> scheme = ''https'')"

fun each_reference :: "contract \<Rightarrow> rule \<Rightarrow> nat \<Rightarrow> string list \<Rightarrow> string list \<Rightarrow> rule_violation option" where
  "each_reference c r i seen [] = None"
| "each_reference c r i seen (t # ts) =
     (if MaxReferenceLength < length t
      then refuse r (indexed ''references'' i) (''is longer than '' @ dec_of_nat MaxReferenceLength @ '' characters'')
      else if \<not> reachable c t
      then refuse r (indexed ''references'' i) (''is '' @ Quote (ct_printable c) t @ '', and a reference is an http or https link'')
      else if t \<in> set seen
      then refuse r (indexed ''references'' i) (''is '' @ Quote (ct_printable c) t @ '', which the rule already carries'')
      else each_reference c r (Suc i) (t # seen) ts)"

definition validateReferences :: "contract \<Rightarrow> rule \<Rightarrow> rule_violation option" where
  "validateReferences c r =
     (if MaxReferences < length (r_references r)
      then refuse r ''references'' (''lists '' @ dec_of_nat (length (r_references r)) @ '' references, above the ceiling of '' @ dec_of_nat MaxReferences)
      else each_reference c r 0 [] (r_references r))"

definition classField :: field where "classField = ''event_class''"

fun each_grouped :: "contract \<Rightarrow> rule \<Rightarrow> string \<Rightarrow> nat \<Rightarrow> field list \<Rightarrow> field list \<Rightarrow> rule_violation option" where
  "each_grouped c r w i seen [] = None"
| "each_grouped c r w i seen (f # fs) =
     (let part = indexed w i in
      if f = classField then refuse r part ''is the class of the event, which every event the rule reads already shares''
      else if f = tenantField then refuse r part ''is the tenant, which is always part of a count and is never grouped by''
      else if f = identityField
      then refuse r part ''is the identifier of the event, so no two events could ever be grouped together''
      else if KindOf c f = None then refuse r part ''is not a field the contract declares''
      else if \<not> AddressableBy c f (r_class r)
      then refuse r part (''belongs to another class, so a '' @ className c (r_class r) @ '' rule would never group by it'')
      else if f \<in> set seen then refuse r part (''is '' @ Quote (ct_printable c) f @ '', which the rule already groups by'')
      else each_grouped c r w (Suc i) (f # seen) fs)"

definition validateGrouped :: "contract \<Rightarrow> rule \<Rightarrow> string \<Rightarrow> field list \<Rightarrow> rule_violation option" where
  "validateGrouped c r w fs = each_grouped c r w 0 [] fs"

definition validateCount :: "contract \<Rightarrow> rule \<Rightarrow> rule_violation option" where
  "validateCount c r =
     (let k = r_count r in
      if \<not> Counts k then None
      else if c_at_least k < MinCount
      then refuse r ''count.at_least'' (''is '' @ itoa (c_at_least k) @ '', and counting to fewer than '' @ itoa MinCount @
             '' is what a rule without a count already does'')
      else if c_at_least k > MaxCount
      then refuse r ''count.at_least'' (''is '' @ itoa (c_at_least k) @ '', above the '' @ itoa MaxCount @
             '' events a window may hold, so it could never be reached'')
      else if c_within k \<le> 0
      then refuse r ''count.within'' ''is missing: a count is how many events happened inside a window''
      else if c_within k > MaxWithin
      then refuse r ''count.within'' (''is '' @ Duration_String (c_within k) @ '', and a rule may not remember for longer than '' @
             Duration_String MaxWithin)
      else if length (c_group_by k) > MaxGroupBy
      then refuse r ''count.group_by'' (''names '' @ dec_of_nat (length (c_group_by k)) @ '' fields, above the ceiling of '' @ dec_of_nat MaxGroupBy)
      else validateGrouped c r ''count.group_by'' (c_group_by k))"

fun each_stage :: "contract \<Rightarrow> rule \<Rightarrow> nat \<Rightarrow> string list \<Rightarrow> stage list \<Rightarrow> rule_violation option" where
  "each_stage c r i seen [] = None"
| "each_stage c r i seen (s # ss) =
     (let part = indexed ''sequence.stages'' i in
      case rule_text r (part @ ''.name'') (st_name s) MaxStageLength True of
        Some e \<Rightarrow> Some e
      | None \<Rightarrow>
          if st_name s \<in> set seen
          then refuse r (part @ ''.name'') (''is '' @ Quote (ct_printable c) (st_name s) @
                 '', which another stage already carries, so a detection could not say which was satisfied'')
          else or_else (validateExpression c r (part @ ''.match'') (st_match s) 0) (each_stage c r (Suc i) (st_name s # seen) ss))"

definition validateStages :: "contract \<Rightarrow> rule \<Rightarrow> rule_violation option" where
  "validateStages c r = each_stage c r 0 [] (s_stages (r_sequence r))"

definition validateSequence :: "contract \<Rightarrow> rule \<Rightarrow> rule_violation option" where
  "validateSequence c r =
     (let s = r_sequence r in
      if \<not> Correlates s then None
      else if r_match r \<noteq> Missing
      then refuse r ''sequence'' ''is written beside a match, and the stages of a sequence are what it matches with''
      else if Counts (r_count r)
      then refuse r ''sequence'' ''is written beside a count, and a rule answers from state in one way or the other''
      else if length (s_stages s) < MinStages
      then refuse r ''sequence.stages'' (''names '' @ dec_of_nat (length (s_stages s)) @ '', and a story of fewer than '' @ dec_of_nat MinStages @
             '' stages is what a rule without a sequence already detects'')
      else if length (s_stages s) > MaxStages
      then refuse r ''sequence.stages'' (''names '' @ dec_of_nat (length (s_stages s)) @ '' stages, above the ceiling of '' @ dec_of_nat MaxStages)
      else if s_within s \<le> 0
      then refuse r ''sequence.within'' ''is missing: a sequence is stages that happened inside a window''
      else if s_within s > MaxWithin
      then refuse r ''sequence.within'' (''is '' @ Duration_String (s_within s) @ '', and a rule may not remember for longer than '' @
             Duration_String MaxWithin)
      else if length (s_group_by s) > MaxGroupBy
      then refuse r ''sequence.group_by'' (''names '' @ dec_of_nat (length (s_group_by s)) @ '' fields, above the ceiling of '' @ dec_of_nat MaxGroupBy)
      else or_else (validateStages c r) (validateGrouped c r ''sequence.group_by'' (s_group_by s)))"

definition validateRevision :: "rule \<Rightarrow> rule_violation option" where
  "validateRevision r =
     (if r_revision r < 1 then refuse r ''revision'' ''must be at least 1, and must go up when the rule changes''
      else if r_revision r > 2 ^ 32 - 1 then refuse r ''revision'' ''must fit the uint32 wire contract''
      else None)"

definition validateIdentity :: "rule \<Rightarrow> rule_violation option" where
  "validateIdentity r =
     (if \<not> rule_identifier (r_id r) \<or> MaxIDLength < length (r_id r)
      then refuse r ''id'' (''must be lowercase words joined by . or _, up to '' @ dec_of_nat MaxIDLength @ '' characters'')
      else if versioned (r_id r)
      then refuse r ''id'' ''ends in a version: the revision carries that, and an id that moves with it cannot say that two rules are the same rule''
      else None)"

definition validateLevels :: "contract \<Rightarrow> rule \<Rightarrow> rule_violation option" where
  "validateLevels c r =
     (if lookup (severities c) (r_severity r) = None
      then refuse r ''severity'' (''is '' @ Quote (ct_printable c) (severity_text (r_severity r)) @ '', which is not one of low, medium, high, critical'')
      else if r_status r \<notin> set statuses
      then refuse r ''status'' (''is '' @ Quote (ct_printable c) (status_text (r_status r)) @ '', which is not one of draft, active, disabled, deprecated'')
      else None)"

text \<open>The checks in the order they are made; the first that refuses is the answer.\<close>

fun first_violation :: "rule_violation option list \<Rightarrow> rule_violation option" where
  "first_violation [] = None"
| "first_violation (x # xs) = or_else x (first_violation xs)"

definition rule_Validate :: "contract \<Rightarrow> rule \<Rightarrow> rule_violation option" where
  "rule_Validate c r =
     first_violation
       [validateIdentity r, validateRevision r,
        rule_text r ''name'' (r_name r) MaxNameLength True,
        rule_text r ''description'' (r_description r) MaxDescriptionLength True,
        rule_text r ''false_positives'' (r_false_positives r) MaxGuidanceLength False,
        rule_text r ''response'' (r_response r) MaxGuidanceLength False,
        validateLevels c r, validateTechnique c r, validateSource c r, validateTags c r, validateReferences c r,
        validateClass c r, validateCount c r, validateSequence c r,
        if Correlates (r_sequence r) then None else validateExpression c r ''match'' (r_match r) 0]"

section \<open>What an accepted rule is\<close>

fun filled :: "expression \<Rightarrow> bool" where
  "filled Missing = False"
| "filled (Predicate p) = True"
| "filled (NotOf e) = filled e"
| "filled (AllOf es) = (es \<noteq> [] \<and> list_all filled es)"
| "filled (AnyOf es) = (es \<noteq> [] \<and> list_all filled es)"

fun nesting :: "expression \<Rightarrow> nat" where
  "nesting Missing = 0"
| "nesting (Predicate p) = 0"
| "nesting (NotOf e) = Suc (nesting e)"
| "nesting (AllOf es) = foldr (\<lambda>e n. max (Suc (nesting e)) n) es 0"
| "nesting (AnyOf es) = foldr (\<lambda>e n. max (Suc (nesting e)) n) es 0"

fun predicates :: "expression \<Rightarrow> predicate list" where
  "predicates Missing = []"
| "predicates (Predicate p) = [p]"
| "predicates (NotOf e) = predicates e"
| "predicates (AllOf es) = concat (map predicates es)"
| "predicates (AnyOf es) = concat (map predicates es)"

definition literal_ok :: "contract \<Rightarrow> field \<Rightarrow> kind \<Rightarrow> literal_value \<Rightarrow> bool" where
  "literal_ok c f k v \<longleftrightarrow>
     fits v k \<and> (v_kind v = Text \<longrightarrow> TrimSpace (v_text v) \<noteq> []) \<and> (k = Choice \<longrightarrow> v_text v \<in> set (ChoicesOf c f))"

definition arity_ok :: "operator \<Rightarrow> nat \<Rightarrow> bool" where
  "arity_ok op n \<longleftrightarrow>
     (case takes op of (minimum, maximum) \<Rightarrow> minimum \<le> n \<and> (0 < maximum \<longrightarrow> n \<le> maximum) \<and> n \<le> MaxValues)"

definition predicate_ok :: "contract \<Rightarrow> event_class \<Rightarrow> predicate \<Rightarrow> bool" where
  "predicate_ok c class p \<longleftrightarrow>
     (\<exists>k. KindOf c (p_field p) = Some k \<and> AddressableBy c (p_field p) class \<and> operator_asks (p_operator p) k \<and>
        arity_ok (p_operator p) (length (p_values p)) \<and> list_all (literal_ok c (p_field p) k) (p_values p))"

definition expression_ok :: "contract \<Rightarrow> event_class \<Rightarrow> expression \<Rightarrow> bool" where
  "expression_ok c class e \<longleftrightarrow>
     filled e \<and> nesting e \<le> MaxDepth \<and> list_all (predicate_ok c class) (predicates e)"

lemma each_value_None: "each_value c r w p k vs = None \<longleftrightarrow> list_all (literal_ok c (p_field p) k) vs"
  by (induction vs) (auto simp: literal_ok_def names_def)

lemma operator_asks_known: "operator_asks op k \<Longrightarrow> operator_known op"
  by (auto simp: operator_asks_def operator_known_def split: option.splits)

lemma validateValues_None:
  "validateValues c r w p k = None \<longleftrightarrow>
     arity_ok (p_operator p) (length (p_values p)) \<and> list_all (literal_ok c (p_field p) k) (p_values p)"
  by (simp add: validateValues_def arity_ok_def each_value_None not_less split: prod.split)

lemma validatePredicate_None: "validatePredicate c r part p = None \<longleftrightarrow> predicate_ok c (r_class r) p"
  using operator_asks_known
  by (auto simp: validatePredicate_def predicate_ok_def Let_def validateValues_None split: option.split)

lemma validateExpression_None:
  "validateExpression c r part e depth = None \<longleftrightarrow>
     filled e \<and> depth + nesting e \<le> MaxDepth \<and> list_all (predicate_ok c (r_class r)) (predicates e)"
  "validateTerms c r part es depth = None \<longleftrightarrow>
     es \<noteq> [] \<and> list_all filled es \<and> depth + foldr (\<lambda>e n. max (Suc (nesting e)) n) es 0 \<le> max depth MaxDepth \<and>
     list_all (predicate_ok c (r_class r)) (concat (map predicates es))"
  "each_term c r part i es depth = None \<longleftrightarrow>
     list_all filled es \<and> depth + foldr (\<lambda>e n. max (Suc (nesting e)) n) es 0 \<le> max depth MaxDepth \<and>
     list_all (predicate_ok c (r_class r)) (concat (map predicates es))"
proof (induction c r part e depth and c r part es depth and c r part i es depth
    rule: validateExpression_validateTerms_each_term.induct)
  case (1 c r part e depth)
  then show ?case
    by (subst validateExpression.simps, cases e) (auto simp: validatePredicate_None)
next
  case (2 c r part xs depth)
  then show ?case by (auto simp: validateTerms.simps)
next
  case (3 c r part i depth)
  then show ?case by simp
next
  case (4 c r part i x xs depth)
  then show ?case by auto
qed

lemma validateExpression_ok: "validateExpression c r part e 0 = None \<longleftrightarrow> expression_ok c (r_class r) e"
  by (simp add: validateExpression_None expression_ok_def)

definition group_field_ok :: "contract \<Rightarrow> event_class \<Rightarrow> field \<Rightarrow> bool" where
  "group_field_ok c class f \<longleftrightarrow>
     f \<noteq> classField \<and> f \<noteq> tenantField \<and> f \<noteq> identityField \<and> KindOf c f \<noteq> None \<and> AddressableBy c f class"

lemma each_grouped_None:
  "each_grouped c r w i seen fs = None \<longleftrightarrow>
     list_all (group_field_ok c (r_class r)) fs \<and> distinct fs \<and> set fs \<inter> set seen = {}"
  by (induction fs arbitrary: i seen) (auto simp: Let_def group_field_ok_def)

lemma validateGrouped_None:
  "validateGrouped c r w fs = None \<longleftrightarrow> list_all (group_field_ok c (r_class r)) fs \<and> distinct fs"
  by (simp add: validateGrouped_def each_grouped_None)

definition named_within :: "string \<Rightarrow> nat \<Rightarrow> bool" where
  "named_within s most \<longleftrightarrow> TrimSpace s \<noteq> [] \<and> length s \<le> most"

lemma rule_text_None: "rule_text r part s most required = None \<longleftrightarrow> (required \<longrightarrow> TrimSpace s \<noteq> []) \<and> length s \<le> most"
  by (auto simp: rule_text_def)

definition stage_ok :: "contract \<Rightarrow> event_class \<Rightarrow> stage \<Rightarrow> bool" where
  "stage_ok c class s \<longleftrightarrow> named_within (st_name s) MaxStageLength \<and> expression_ok c class (st_match s)"

lemma each_stage_None:
  "each_stage c r i seen ss = None \<longleftrightarrow>
     list_all (stage_ok c (r_class r)) ss \<and> distinct (map st_name ss) \<and> st_name ` set ss \<inter> set seen = {}"
proof (induction ss arbitrary: i seen)
  case (Cons s ss)
  show ?case
  proof (cases "rule_text r (indexed ''sequence.stages'' i @ ''.name'') (st_name s) MaxStageLength True")
    case None
    then have "named_within (st_name s) MaxStageLength" by (simp add: rule_text_None named_within_def)
    with None show ?thesis by (auto simp: Let_def Cons.IH validateExpression_ok stage_ok_def)
  next
    case (Some e)
    then have "\<not> named_within (st_name s) MaxStageLength" by (auto simp: rule_text_def named_within_def split: if_splits)
    with Some show ?thesis by (simp add: Let_def stage_ok_def)
  qed
qed simp

definition count_ok :: "contract \<Rightarrow> event_class \<Rightarrow> count \<Rightarrow> bool" where
  "count_ok c class k \<longleftrightarrow>
     MinCount \<le> c_at_least k \<and> c_at_least k \<le> MaxCount \<and> 0 < c_within k \<and> c_within k \<le> MaxWithin \<and>
     length (c_group_by k) \<le> MaxGroupBy \<and> distinct (c_group_by k) \<and> list_all (group_field_ok c class) (c_group_by k)"

definition sequence_ok :: "contract \<Rightarrow> event_class \<Rightarrow> sequence \<Rightarrow> bool" where
  "sequence_ok c class s \<longleftrightarrow>
     MinStages \<le> length (s_stages s) \<and> length (s_stages s) \<le> MaxStages \<and>
     list_all (stage_ok c class) (s_stages s) \<and> distinct (map st_name (s_stages s)) \<and>
     0 < s_within s \<and> s_within s \<le> MaxWithin \<and>
     length (s_group_by s) \<le> MaxGroupBy \<and> distinct (s_group_by s) \<and> list_all (group_field_ok c class) (s_group_by s)"

lemma validateCount_None: "validateCount c r = None \<longleftrightarrow> (Counts (r_count r) \<longrightarrow> count_ok c (r_class r) (r_count r))"
  by (auto simp: validateCount_def Let_def count_ok_def validateGrouped_None not_less not_le)

lemma validateSequence_None:
  "validateSequence c r = None \<longleftrightarrow>
     (Correlates (r_sequence r) \<longrightarrow>
        r_match r = Missing \<and> \<not> Counts (r_count r) \<and> sequence_ok c (r_class r) (r_sequence r))"
  by (auto simp: validateSequence_def Let_def sequence_ok_def validateGrouped_None validateStages_def each_stage_None
      not_less not_le)

lemma first_violation_None: "first_violation xs = None \<longleftrightarrow> list_all (\<lambda>x. x = None) xs"
  by (induction xs) auto

definition matching_ok :: "contract \<Rightarrow> rule \<Rightarrow> bool" where
  "matching_ok c r \<longleftrightarrow>
     (if Correlates (r_sequence r)
      then r_match r = Missing \<and> \<not> Counts (r_count r) \<and> sequence_ok c (r_class r) (r_sequence r)
      else expression_ok c (r_class r) (r_match r) \<and> (Counts (r_count r) \<longrightarrow> count_ok c (r_class r) (r_count r)))"

lemma rule_Validate_matching: "rule_Validate c r = None \<Longrightarrow> matching_ok c r"
  by (auto simp: rule_Validate_def first_violation_None matching_ok_def validateCount_None validateSequence_None
      validateExpression_ok)

lemma rule_Validate_named:
  "rule_Validate c r = None \<Longrightarrow>
   rule_identifier (r_id r) \<and> length (r_id r) \<le> MaxIDLength \<and> \<not> versioned (r_id r) \<and> 1 \<le> r_revision r \<and> r_revision r < 2 ^ 32 \<and>
   named_within (r_name r) MaxNameLength \<and> lookup (severities c) (r_severity r) \<noteq> None \<and>
   r_class r \<noteq> 0 \<and> map_of (ct_class_name c) (r_class r) \<noteq> None"
  by (auto simp: rule_Validate_def first_violation_None validateIdentity_def validateRevision_def validateLevels_def
      validateClass_def rule_text_None named_within_def split: if_splits)

text \<open>
  C4. A rule the platform accepts is one it can run to the end: its expression has no missing or empty
  part, is at most sixteen levels deep, and every predicate asks a declared field of its class something
  that kind of field answers, against literals that fit it; it counts or it orders and never both; and
  the widest state any deployment may declare has room for its threshold, its stages and its window.
\<close>

theorem accepted_rule_runs:
  assumes "rule_Validate c r = None" "bd_window b = MaxWindow" "bd_observations_per_key b = MaxObservationsPerKey"
  shows "matching_ok c r \<and> bounds_admits b (r_count r) = None \<and> bounds_orders b (r_sequence r) = None"
  using rule_Validate_matching [OF assms(1)] assms(2,3)
  by (auto simp: matching_ok_def bounds_admits_def bounds_orders_def count_ok_def sequence_ok_def MaxWindow_def
      MaxObservationsPerKey_def MaxCount_def MaxStages_def split: if_splits)

section \<open>Examples\<close>

definition sample_match :: expression where
  "sample_match =
     AllOf [Predicate \<lparr>p_field = ''authentication.method'', p_operator = OneOf, p_values = [TextValue ''password'', TextValue ''keyboard'']\<rparr>,
            NotOf (Predicate \<lparr>p_field = ''authentication.attempts'', p_operator = AtLeast, p_values = [NumberValue (Finite 3)]\<rparr>)]"

definition sample_rule :: rule where
  "sample_rule =
     \<lparr>r_id = ''ssh.bruteforce'', r_revision = 1, r_name = ''SSH brute force'', r_description = ''Repeated failures'', r_class = 1,
      r_match = sample_match, r_count = \<lparr>c_at_least = 5, c_within = 60 * second, c_group_by = [''authentication.method'']\<rparr>,
      r_sequence = \<lparr>s_stages = [], s_within = 0, s_group_by = []\<rparr>, r_severity = High, r_status = Active,
      r_technique = \<lparr>t_tactic = ''credential_access'', t_id = ''T1110.001'', t_name = ''Password Guessing''\<rparr>,
      r_false_positives = [], r_response = [], r_source = \<lparr>src_catalogue = [], src_identifier = []\<rparr>, r_tags = [''ssh''],
      r_references = []\<rparr>"

lemma sample_rule_valid: "rule_Validate sample_contract sample_rule = None"
  by code_simp

definition widest_bounds :: bounds where
  "widest_bounds =
     \<lparr>bd_window = MaxWindow, bd_observations_per_key = MaxObservationsPerKey, bd_keys = 9, bd_keys_per_tenant = 9,
      bd_keys_per_rule = 9\<rparr>"

theorem accepted_rule_runs_witness:
  "matching_ok sample_contract sample_rule \<and> bounds_admits widest_bounds (r_count sample_rule) = None"
  using accepted_rule_runs [OF sample_rule_valid, of widest_bounds] by (simp add: widest_bounds_def)

end
