(* ===== verification/Detection_Node.thy ===== *)
theory Detection_Node
  imports Detection_Validate
begin

text \<open>
  The tree a rule is compiled into and what it says about an event (\<^verbatim>\<open>internal/detection/compile.go\<close>,
  \<^verbatim>\<open>decide.go\<close>, and the comparison itself, \<^verbatim>\<open>answers\<close> of \<^verbatim>\<open>contradiction.go\<close>). A literal is compiled into the
  type its field holds; \<^verbatim>\<open>Interface\<close> values are compared by type and value, and a NaN equals nothing.
  Results: gathering evidence never changes the answer, the evidence is enough to answer again, and the
  compiled tree answers what the written expression means.
\<close>

section \<open>Values\<close>

fun same_value :: "pvalue \<Rightarrow> pvalue \<Rightarrow> bool" where
  "same_value (VFloat32 x) (VFloat32 y) = float_equal x y"
| "same_value (VFloat64 x) (VFloat64 y) = float_equal x y"
| "same_value v w = (v = w)"

definition numberIn :: "pvalue \<Rightarrow> float64" where
  "numberIn v =
     (case v of
        VInt32 n \<Rightarrow> float_of_int n | VInt64 n \<Rightarrow> float_of_int n
      | VUint32 n \<Rightarrow> float_of_int n | VUint64 n \<Rightarrow> float_of_int n
      | VFloat32 x \<Rightarrow> x | VFloat64 x \<Rightarrow> x
      | _ \<Rightarrow> NaN)"

text \<open>\<^verbatim>\<open>protoreflect.Value.String\<close>: the text of a string, and \<^verbatim>\<open>%v\<close> of anything else.\<close>

definition value_text :: "pvalue \<Rightarrow> string" where
  "value_text v =
     (case v of
        VString s \<Rightarrow> s | VBool b \<Rightarrow> FormatBool b | VEnum n \<Rightarrow> itoa n
      | VInt32 n \<Rightarrow> itoa n | VInt64 n \<Rightarrow> itoa n | VUint32 n \<Rightarrow> itoa n | VUint64 n \<Rightarrow> itoa n
      | VFloat32 x \<Rightarrow> FormatFloat 32 x | VFloat64 x \<Rightarrow> FormatFloat 64 x
      | _ \<Rightarrow> [])"

text \<open>The value as the event carries it.\<close>

definition plain :: "field_desc \<Rightarrow> pvalue \<Rightarrow> string" where
  "plain leaf v =
     (case fd_kind leaf of
        EnumKind \<Rightarrow>
          (case v of
             VEnum n \<Rightarrow> (case List.find (\<lambda>e. fst e = n) (en_values (fd_enum leaf)) of
                None \<Rightarrow> itoa n | Some e \<Rightarrow> shortName (fd_enum leaf) e)
           | _ \<Rightarrow> value_text v)
      | _ \<Rightarrow> value_text v)"

section \<open>Comparisons and nodes\<close>

record comparison =
  cm_field :: field
  cm_path :: "field_desc list"
  cm_operator :: operator
  cm_literals :: "pvalue list"
  cm_member :: "pvalue list"

datatype node =
    Conjunction "node list"
  | Disjunction "node list"
  | Negation node
  | Comparison comparison

text \<open>Every operator but \<^verbatim>\<open>present\<close> reads a literal, so there is a first one wherever it is asked for.\<close>

definition first_literal :: "comparison \<Rightarrow> pvalue" where
  "first_literal k = (case cm_literals k of [] \<Rightarrow> VOpaque | v # _ \<Rightarrow> v)"

definition leaf_in :: "comparison \<Rightarrow> field_desc" where
  "leaf_in k = last (cm_path k)"

definition wrote :: "contract \<Rightarrow> comparison \<Rightarrow> pvalue \<Rightarrow> string" where
  "wrote c k v =
     (if fd_kind (leaf_in k) = StringKind then Quote (ct_printable c) (value_text v) else plain (leaf_in k) v)"

definition comparison_string :: "contract \<Rightarrow> comparison \<Rightarrow> string" where
  "comparison_string c k =
     (if cm_operator k = Present then cm_field k @ '' '' @ operator_text (cm_operator k)
      else if cm_operator k = OneOf
      then cm_field k @ '' '' @ operator_text (cm_operator k) @ '' ['' @ join_with '', '' (map (wrote c k) (cm_literals k)) @ '']''
      else cm_field k @ '' '' @ operator_text (cm_operator k) @ '' '' @ wrote c k (first_literal k))"

fun node_string :: "contract \<Rightarrow> node \<Rightarrow> string" where
  "node_string c (Conjunction ns) = ''('' @ join_with '' and '' (map (node_string c) ns) @ '')''"
| "node_string c (Disjunction ns) = ''('' @ join_with '' or '' (map (node_string c) ns) @ '')''"
| "node_string c (Negation n) = ''not '' @ node_string c n"
| "node_string c (Comparison k) = comparison_string c k"

text \<open>Whether a field holding this value answers the comparison, and whether that could be decided.\<close>

definition answers :: "pvalue \<Rightarrow> comparison \<Rightarrow> bool \<times> bool" where
  "answers v k =
     (let text = value_text v; against = value_text (first_literal k); x = numberIn v; y = numberIn (first_literal k);
          numbers = (if x = NaN \<or> y = NaN then (\<lambda>_. (False, False)) else (\<lambda>holds. (holds, True)))
      in case cm_operator k of
        Equals \<Rightarrow> (same_value v (first_literal k), True)
      | OneOf \<Rightarrow> (list_ex (same_value v) (cm_member k), True)
      | Contains \<Rightarrow> (Contains_in text against, True)
      | StartsWith \<Rightarrow> (HasPrefix text against, True)
      | EndsWith \<Rightarrow> (HasSuffix text against, True)
      | Above \<Rightarrow> numbers (float_less y x)
      | AtLeast \<Rightarrow> numbers (float_le y x)
      | Below \<Rightarrow> numbers (float_less x y)
      | AtMost \<Rightarrow> numbers (float_le x y)
      | _ \<Rightarrow> (False, False))"

section \<open>Reading an event\<close>

fun read_path :: "pmessage \<Rightarrow> field_desc list \<Rightarrow> pvalue option" where
  "read_path m [] = None"
| "read_path m [leaf] = lookup m (fd_name leaf)"
| "read_path m (step # next # rest) =
     (case lookup m (fd_name step) of Some (VMessage x) \<Rightarrow> read_path x (next # rest) | _ \<Rightarrow> None)"

text \<open>
  The contract's scalars have no presence of their own: a field that is set to its zero value is one the
  message does not carry.
\<close>

fun zero_value :: "pvalue \<Rightarrow> bool" where
  "zero_value (VString s) = (s = [])"
| "zero_value (VBool b) = (\<not> b)"
| "zero_value (VEnum n) = (n = 0)"
| "zero_value (VInt32 n) = (n = 0)"
| "zero_value (VInt64 n) = (n = 0)"
| "zero_value (VUint32 n) = (n = 0)"
| "zero_value (VUint64 n) = (n = 0)"
| "zero_value (VFloat32 x) = (x = Finite 0)"
| "zero_value (VFloat64 x) = (x = Finite 0)"
| "zero_value _ = False"

fun place :: "pmessage \<Rightarrow> field_desc list \<Rightarrow> pvalue \<Rightarrow> pmessage" where
  "place m [] v = m"
| "place m [leaf] v = (if zero_value v then AList.delete (fd_name leaf) m else AList.update (fd_name leaf) v m)"
| "place m (step # next # rest) v =
     AList.update (fd_name step)
       (VMessage (place (case lookup m (fd_name step) of Some (VMessage x) \<Rightarrow> x | _ \<Rightarrow> []) (next # rest) v)) m"

record evidence =
  ev_field :: field
  ev_operator :: operator
  ev_negated :: bool
  ev_held :: string
  ev_absent :: bool

definition answered :: "comparison \<Rightarrow> pvalue option \<Rightarrow> bool" where
  "answered k held =
     (case held of
        None \<Rightarrow> False
      | Some v \<Rightarrow> if cm_operator k = Present then True else case answers v k of (holds, decided) \<Rightarrow> holds \<and> decided)"

definition saw :: "contract \<Rightarrow> comparison \<Rightarrow> pvalue option \<Rightarrow> bool \<Rightarrow> evidence" where
  "saw c k held negated =
     \<lparr>ev_field = cm_field k, ev_operator = cm_operator k, ev_negated = negated,
      ev_held = (case held of None \<Rightarrow> [] | Some v \<Rightarrow> wrote c k v), ev_absent = (held = None)\<rparr>"

text \<open>
  \<^verbatim>\<open>holds\<close> gathers evidence where it is given somewhere to put it, \<open>None\<close> being the nil slice pointer. A
  disjunction cuts the evidence back to where it was and reads the branch that held again.
\<close>

type_synonym gather = "evidence list option \<Rightarrow> bool \<times> evidence list option"

fun all_hold :: "gather list \<Rightarrow> gather" where
  "all_hold [] into = (True, into)"
| "all_hold (f # fs) into = (case f into of (b, into') \<Rightarrow> if \<not> b then (False, into') else all_hold fs into')"

fun any_holds :: "nat \<Rightarrow> gather list \<Rightarrow> gather" where
  "any_holds mark [] into = (False, into)"
| "any_holds mark (f # fs) into =
     (case f into of (b, into') \<Rightarrow>
        if \<not> b then any_holds mark fs into'
        else (True, case into' of None \<Rightarrow> None | Some ev \<Rightarrow> snd (f (Some (take mark ev)))))"

primrec holds :: "contract \<Rightarrow> pmessage \<Rightarrow> node \<Rightarrow> bool \<Rightarrow> gather" where
  "holds c m (Comparison k) = (\<lambda>negated into.
     let held = read_path m (cm_path k); seen = saw c k held negated in
     (answered k held, map_option (\<lambda>ev. if seen \<in> set ev then ev else ev @ [seen]) into))"
| "holds c m (Negation n) = (\<lambda>negated into. case holds c m n (\<not> negated) into of (b, into') \<Rightarrow> (\<not> b, into'))"
| "holds c m (Conjunction ns) = (\<lambda>negated into. all_hold (map (\<lambda>f. f negated) (map (holds c m) ns)) into)"
| "holds c m (Disjunction ns) = (\<lambda>negated into.
     any_holds (case into of None \<Rightarrow> 0 | Some ev \<Rightarrow> length ev) (map (\<lambda>f. f negated) (map (holds c m) ns)) into)"

section \<open>Compilation\<close>

definition enumOf :: "enum_desc \<Rightarrow> string \<Rightarrow> int option" where
  "enumOf e name = map_option fst (List.find (\<lambda>v. shortName e v = name) (en_values e))"

definition exactly :: int where "exactly = 2 ^ 53"

definition MaxFloat32 :: rat where "MaxFloat32 = 2 ^ 127 * (2 - 1 / 2 ^ 23)"

definition kind_bounds :: "pkind \<Rightarrow> int \<times> int" where
  "kind_bounds k =
     (if k \<in> {Int32Kind, Sint32Kind, Sfixed32Kind} then (- (2 ^ 31), 2 ^ 31 - 1)
      else if k \<in> {Uint32Kind, Fixed32Kind} then (0, 2 ^ 32 - 1)
      else if k \<in> {Uint64Kind, Fixed64Kind} then (0, exactly)
      else (- exactly, exactly))"

text \<open>The whole number a finite literal states, if it states one.\<close>

definition whole_number :: "float64 \<Rightarrow> int option" where
  "whole_number x =
     (case x of Finite q \<Rightarrow> if of_int \<lfloor>q\<rfloor> = q then Some \<lfloor>q\<rfloor> else None | _ \<Rightarrow> None)"

definition wider_than_float32 :: "float64 \<Rightarrow> bool" where
  "wider_than_float32 x = (case x of Finite q \<Rightarrow> MaxFloat32 < \<bar>q\<bar> | NaN \<Rightarrow> False | _ \<Rightarrow> True)"

fun pkind_text :: "pkind \<Rightarrow> string" where
  "pkind_text BoolKind = ''bool''"
| "pkind_text EnumKind = ''enum''"
| "pkind_text Int32Kind = ''int32''"
| "pkind_text Sint32Kind = ''sint32''"
| "pkind_text Uint32Kind = ''uint32''"
| "pkind_text Int64Kind = ''int64''"
| "pkind_text Sint64Kind = ''sint64''"
| "pkind_text Uint64Kind = ''uint64''"
| "pkind_text Sfixed32Kind = ''sfixed32''"
| "pkind_text Fixed32Kind = ''fixed32''"
| "pkind_text FloatKind = ''float''"
| "pkind_text Sfixed64Kind = ''sfixed64''"
| "pkind_text Fixed64Kind = ''fixed64''"
| "pkind_text DoubleKind = ''double''"
| "pkind_text StringKind = ''string''"
| "pkind_text BytesKind = ''bytes''"
| "pkind_text MessageKind = ''message''"
| "pkind_text GroupKind = ''group''"

text \<open>A literal compiled into the type its field holds, or why the rule is refused.\<close>

definition numberOf :: "contract \<Rightarrow> literal_value \<Rightarrow> field_desc \<Rightarrow> string + pvalue" where
  "numberOf c v leaf =
     (let x = v_number v; k = fd_kind leaf; against = ''is compared against '' @ value_string c v in
      if k = FloatKind
      then (if wider_than_float32 x then Inl (against @ '', which is wider than the field holds'') else Inr (VFloat32 (to_float32 x)))
      else if k = DoubleKind then Inr (VFloat64 x)
      else case whole_number x of
        None \<Rightarrow> Inl (against @ '', and the field holds whole numbers'')
      | Some n \<Rightarrow>
          (case kind_bounds k of (low, high) \<Rightarrow>
             if n < low \<or> high < n
             then Inl (against @ '', and the field holds whole numbers from '' @ itoa low @ '' to '' @ itoa high)
             else if k \<in> {Int32Kind, Sint32Kind, Sfixed32Kind} then Inr (VInt32 n)
             else if k \<in> {Int64Kind, Sint64Kind, Sfixed64Kind} then Inr (VInt64 n)
             else if k \<in> {Uint32Kind, Fixed32Kind} then Inr (VUint32 n)
             else if k \<in> {Uint64Kind, Fixed64Kind} then Inr (VUint64 n)
             else Inl (''holds '' @ pkind_text k @ '', which no rule can compare against'')))"

definition literalOf :: "contract \<Rightarrow> literal_value \<Rightarrow> field_desc \<Rightarrow> string + pvalue" where
  "literalOf c v leaf =
     (case fd_kind leaf of
        StringKind \<Rightarrow> Inr (VString (v_text v))
      | BoolKind \<Rightarrow> Inr (VBool (v_truth v))
      | EnumKind \<Rightarrow>
          (case enumOf (fd_enum leaf) (v_text v) of
             None \<Rightarrow> Inl (''is compared against '' @ value_string c v @ '', which the contract does not declare'')
           | Some n \<Rightarrow> Inr (VEnum n))
      | _ \<Rightarrow> numberOf c v leaf)"

fun literals_of :: "contract \<Rightarrow> field_desc \<Rightarrow> literal_value list \<Rightarrow> string + pvalue list" where
  "literals_of c leaf [] = Inr []"
| "literals_of c leaf (v # vs) =
     (case literalOf c v leaf of
        Inl e \<Rightarrow> Inl e
      | Inr x \<Rightarrow> (case literals_of c leaf vs of Inl e \<Rightarrow> Inl e | Inr xs \<Rightarrow> Inr (x # xs)))"

text \<open>The set a membership test is asked of: a map keyed by the literals.\<close>

definition member_of :: "pvalue list \<Rightarrow> pvalue list" where
  "member_of vs = foldl (\<lambda>keys v. if list_ex (same_value v) keys then keys else keys @ [v]) [] vs"

definition compareOn :: "contract \<Rightarrow> rule \<Rightarrow> string \<Rightarrow> predicate \<Rightarrow> field list \<Rightarrow> rule_violation + node \<times> field list" where
  "compareOn c r w p read =
     (case pathOf c (p_field p) of
        None \<Rightarrow> Inl (rule_violation_of r w ''is not a field the contract declares'')
      | Some path \<Rightarrow>
          (case literals_of c (last path) (p_values p) of
             Inl refused \<Rightarrow> Inl (rule_violation_of r w refused)
           | Inr literals \<Rightarrow>
               Inr (Comparison \<lparr>cm_field = p_field p, cm_path = path, cm_operator = p_operator p, cm_literals = literals,
                      cm_member = (if p_operator p = OneOf then member_of literals else [])\<rparr>,
                    List.insert (p_field p) read)))"

fun compile_node :: "contract \<Rightarrow> rule \<Rightarrow> string \<Rightarrow> expression \<Rightarrow> field list \<Rightarrow> rule_violation + node \<times> field list"
and compileTerms :: "contract \<Rightarrow> rule \<Rightarrow> string \<Rightarrow> nat \<Rightarrow> expression list \<Rightarrow> field list \<Rightarrow> rule_violation + node list \<times> field list"
where
  "compile_node c r part (Predicate p) read = compareOn c r (part @ ''.'' @ p_field p) p read"
| "compile_node c r part (NotOf e) read =
     (case compile_node c r (part @ ''.not'') e read of Inl v \<Rightarrow> Inl v | Inr (n, read') \<Rightarrow> Inr (Negation n, read'))"
| "compile_node c r part (AllOf es) read =
     (case compileTerms c r (part @ ''.all'') 0 es read of Inl v \<Rightarrow> Inl v | Inr (ns, read') \<Rightarrow> Inr (Conjunction ns, read'))"
| "compile_node c r part (AnyOf es) read =
     (case compileTerms c r (part @ ''.any'') 0 es read of Inl v \<Rightarrow> Inl v | Inr (ns, read') \<Rightarrow> Inr (Disjunction ns, read'))"
| "compile_node c r part Missing read = Inl (rule_violation_of r part ''is a <nil>, which is not part of the rule language'')"
| "compileTerms c r part i [] read = Inr ([], read)"
| "compileTerms c r part i (e # es) read =
     (case compile_node c r (indexed part i) e read of
        Inl v \<Rightarrow> Inl v
      | Inr (n, read') \<Rightarrow>
          (case compileTerms c r part (Suc i) es read' of Inl v \<Rightarrow> Inl v | Inr (ns, read'') \<Rightarrow> Inr (n # ns, read'')))"

section \<open>Gathering evidence does not change the answer\<close>

fun truth :: "node \<Rightarrow> pmessage \<Rightarrow> bool" where
  "truth (Comparison k) m = answered k (read_path m (cm_path k))"
| "truth (Negation n) m = (\<not> truth n m)"
| "truth (Conjunction ns) m = list_all (\<lambda>n. truth n m) ns"
| "truth (Disjunction ns) m = list_ex (\<lambda>n. truth n m) ns"

lemma all_hold_truth:
  "(\<And>n into. n \<in> set ns \<Longrightarrow> fst (f n into) = P n) \<Longrightarrow> fst (all_hold (map f ns) into) = list_all P ns"
  by (induction ns arbitrary: into) (auto split: prod.splits, (metis fst_conv)+)

lemma any_holds_truth:
  "(\<And>n into. n \<in> set ns \<Longrightarrow> fst (f n into) = P n) \<Longrightarrow> fst (any_holds mark (map f ns) into) = list_ex P ns"
  by (induction ns arbitrary: into) (auto split: prod.splits, (metis fst_conv)+)

lemma holds_truth: "fst (holds c m n negated into) = truth n m"
proof (induction n arbitrary: negated into)
  case (Conjunction ns)
  then show ?case by (simp add: o_def all_hold_truth [where P = "\<lambda>n. truth n m"])
next
  case (Disjunction ns)
  then show ?case by (simp add: o_def any_holds_truth [where P = "\<lambda>n. truth n m"])
next
  case (Negation n)
  then show ?case by (auto split: prod.splits) (metis fst_conv)+
qed (simp add: Let_def)

text \<open>Evidence only grows, except that a disjunction which holds cuts it back to its mark.\<close>

definition grows :: "gather \<Rightarrow> bool" where
  "grows f \<longleftrightarrow> (\<forall>ev. \<exists>xs. snd (f (Some ev)) = Some (ev @ xs))"

lemma growsE: "grows f \<Longrightarrow> (\<And>xs b. f (Some ev) = (b, Some (ev @ xs)) \<Longrightarrow> Q) \<Longrightarrow> Q"
  unfolding grows_def by (metis prod.collapse)

lemma all_hold_grows: "list_all grows fs \<Longrightarrow> grows (all_hold fs)"
proof (induction fs)
  case (Cons f fs)
  then have f: "grows f" and fs: "grows (all_hold fs)" by simp_all
  show ?case
    unfolding grows_def
  proof
    fix ev
    obtain xs b where 1: "f (Some ev) = (b, Some (ev @ xs))" using f by (rule growsE)
    obtain ys b' where 2: "all_hold fs (Some (ev @ xs)) = (b', Some ((ev @ xs) @ ys))" using fs by (rule growsE)
    show "\<exists>xs. snd (all_hold (f # fs) (Some ev)) = Some (ev @ xs)" using 1 2 by simp
  qed
qed (simp add: grows_def)

lemma any_holds_grows:
  "list_all grows fs \<Longrightarrow> mark \<le> length ev \<Longrightarrow>
   \<exists>b xs. any_holds mark fs (Some ev) = (b, Some ((if b then take mark ev else ev) @ xs))"
proof (induction fs arbitrary: ev)
  case (Cons f fs)
  then have f: "grows f" by simp
  obtain xs b where 1: "f (Some ev) = (b, Some (ev @ xs))" using f by (rule growsE)
  obtain ys b' where 2: "f (Some (take mark ev)) = (b', Some (take mark ev @ ys))" using f by (rule growsE)
  show ?case
  proof (cases b)
    case True
    then show ?thesis using 1 2 Cons.prems(2) by (intro exI [of _ True] exI [of _ ys]) simp
  next
    case False
    then show ?thesis using 1 Cons.IH [of "ev @ xs"] Cons.prems by auto
  qed
qed auto

lemma holds_grows: "grows (holds c m n negated)"
proof (induction n arbitrary: negated)
  case (Conjunction ns)
  then show ?case using all_hold_grows [of "map (\<lambda>n. holds c m n negated) ns"] by (simp add: o_def list_all_iff grows_def)
next
  case (Disjunction ns)
  let ?fs = "map (\<lambda>n. holds c m n negated) ns"
  have fs: "list_all grows ?fs" using Disjunction by (simp add: list_all_iff)
  show ?case
    unfolding grows_def
  proof
    fix ev
    from any_holds_grows [OF fs order_refl, of ev]
    obtain b xs where "any_holds (length ev) ?fs (Some ev) = (b, Some ((if b then take (length ev) ev else ev) @ xs))" by blast
    then show "\<exists>xs. snd (holds c m (Disjunction ns) negated (Some ev)) = Some (ev @ xs)" by (simp add: o_def)
  qed
next
  case (Negation n)
  show ?case
    unfolding grows_def
  proof
    fix ev
    obtain xs b where "holds c m n (\<not> negated) (Some ev) = (b, Some (ev @ xs))" using Negation by (rule growsE)
    then show "\<exists>xs. snd (holds c m (Negation n) negated (Some ev)) = Some (ev @ xs)" by simp
  qed
qed (simp add: grows_def Let_def)

section \<open>The evidence is enough to answer again\<close>

fun comparisons :: "node \<Rightarrow> comparison list" where
  "comparisons (Comparison k) = [k]"
| "comparisons (Negation n) = comparisons n"
| "comparisons (Conjunction ns) = concat (map comparisons ns)"
| "comparisons (Disjunction ns) = concat (map comparisons ns)"

text \<open>Every comparison reads the field it names.\<close>

definition resolved :: "contract \<Rightarrow> node \<Rightarrow> bool" where
  "resolved c n \<longleftrightarrow> list_all (\<lambda>k. pathOf c (cm_field k) = Some (cm_path k)) (comparisons n)"

lemma resolved_simps [simp]:
  "resolved c (Comparison k) \<longleftrightarrow> pathOf c (cm_field k) = Some (cm_path k)"
  "resolved c (Negation n) \<longleftrightarrow> resolved c n"
  "resolved c (Conjunction ns) \<longleftrightarrow> list_all (resolved c) ns"
  "resolved c (Disjunction ns) \<longleftrightarrow> list_all (resolved c) ns"
  by (auto simp: resolved_def list_all_iff)

definition read_field :: "contract \<Rightarrow> pmessage \<Rightarrow> field \<Rightarrow> pvalue option" where
  "read_field c m f = (case pathOf c f of None \<Rightarrow> None | Some path \<Rightarrow> read_path m path)"

definition agree_on :: "contract \<Rightarrow> evidence list \<Rightarrow> pmessage \<Rightarrow> pmessage \<Rightarrow> bool" where
  "agree_on c ev m m' \<longleftrightarrow> (\<forall>e \<in> set ev. read_field c m (ev_field e) = read_field c m' (ev_field e))"

lemma agree_on_append: "agree_on c (ev @ xs) m m' \<Longrightarrow> agree_on c ev m m'"
  by (simp add: agree_on_def)

definition settles :: "contract \<Rightarrow> pmessage \<Rightarrow> pmessage \<Rightarrow> node \<Rightarrow> bool" where
  "settles c m m' n \<longleftrightarrow>
     (\<forall>ev negated E. snd (holds c m n negated (Some ev)) = Some E \<longrightarrow> agree_on c E m m' \<longrightarrow> truth n m' = truth n m)"

lemma holdsE:
  obtains xs where "holds c m n negated (Some ev) = (truth n m, Some (ev @ xs))"
proof -
  obtain xs b where h: "holds c m n negated (Some ev) = (b, Some (ev @ xs))" using holds_grows by (rule growsE)
  moreover have "b = truth n m" using holds_truth [of c m n negated "Some ev"] h by simp
  ultimately show ?thesis using that by blast
qed

lemma settlesD:
  "settles c m m' n \<Longrightarrow> holds c m n negated (Some ev) = (b, Some E) \<Longrightarrow> agree_on c (E @ ys) m m' \<Longrightarrow>
   truth n m' = truth n m"
  unfolding settles_def using agree_on_append [of c E ys m m'] by (metis snd_conv)

lemma settles_all:
  "list_all (settles c m m') ns \<Longrightarrow> snd (all_hold (map (\<lambda>n. holds c m n negated) ns) (Some ev)) = Some E \<Longrightarrow>
   agree_on c E m m' \<Longrightarrow> list_all (\<lambda>n. truth n m') ns = list_all (\<lambda>n. truth n m) ns"
proof (induction ns arbitrary: ev)
  case (Cons n ns)
  obtain xs where h: "holds c m n negated (Some ev) = (truth n m, Some (ev @ xs))" by (rule holdsE)
  have g: "grows (all_hold (map (\<lambda>n. holds c m n negated) ns))" by (simp add: all_hold_grows holds_grows list_all_iff)
  obtain ys where "E = (ev @ xs) @ ys"
    using Cons.prems(2) h g [unfolded grows_def, rule_format, of "ev @ xs"] by (cases "truth n m") auto
  then have "truth n m' = truth n m"
    using Cons.prems(1,3) settlesD [OF _ h, of m' ys] by simp
  with Cons h show ?case by (cases "truth n m") auto
qed simp

lemma settles_any:
  "list_all (settles c m m') ns \<Longrightarrow> mark \<le> length ev \<Longrightarrow>
   snd (any_holds mark (map (\<lambda>n. holds c m n negated) ns) (Some ev)) = Some E \<Longrightarrow> agree_on c E m m' \<Longrightarrow>
   list_ex (\<lambda>n. truth n m') ns = list_ex (\<lambda>n. truth n m) ns"
proof (induction ns arbitrary: ev)
  case (Cons n ns)
  let ?fs = "map (\<lambda>n. holds c m n negated) ns"
  obtain xs where h: "holds c m n negated (Some ev) = (truth n m, Some (ev @ xs))" by (rule holdsE)
  show ?case
  proof (cases "truth n m")
    case True
    with Cons.prems(2,3) h have "snd (holds c m n negated (Some (take mark ev))) = Some E" by simp
    with Cons.prems(1,4) True show ?thesis by (auto simp: settles_def)
  next
    case False
    with Cons.prems(3) h have rest: "snd (any_holds mark ?fs (Some (ev @ xs))) = Some E" by simp
    have more: "list_ex (\<lambda>n. truth n m') ns = list_ex (\<lambda>n. truth n m) ns"
      using Cons.IH [OF _ _ rest Cons.prems(4)] Cons.prems(1,2) by simp
    have "truth n m' = truth n m" if none: "\<not> list_ex (\<lambda>n. truth n m) ns"
    proof -
      have "\<not> fst (any_holds mark ?fs (Some (ev @ xs)))" using none by (simp add: any_holds_truth [where P = "\<lambda>n. truth n m"] holds_truth)
      then obtain ys where "E = (ev @ xs) @ ys"
        using rest any_holds_grows [of ?fs mark "ev @ xs"] Cons.prems(2) holds_grows by (auto simp: list_all_iff)
      then show ?thesis
        using Cons.prems(1,4) settlesD [OF _ h, of m' ys] by simp
    qed
    with False more show ?thesis by auto
  qed
qed simp

lemma resolved_settles: "resolved c n \<Longrightarrow> settles c m m' n"
proof (induction n)
  case (Conjunction ns)
  then have "list_all (settles c m m') ns" by (auto simp: list_all_iff)
  then show ?case using settles_all by (fastforce simp: settles_def o_def)
next
  case (Disjunction ns)
  then have "list_all (settles c m m') ns" by (auto simp: list_all_iff)
  then show ?case using settles_any [OF _ order_refl] by (fastforce simp: settles_def o_def)
next
  case (Negation n)
  then have "settles c m m' n" by simp
  show ?case
    unfolding settles_def
  proof (intro allI impI)
    fix ev negated E
    assume E: "snd (holds c m (Negation n) negated (Some ev)) = Some E" "agree_on c E m m'"
    obtain xs where h: "holds c m n (\<not> negated) (Some ev) = (truth n m, Some (ev @ xs))" by (rule holdsE)
    from settlesD [OF \<open>settles c m m' n\<close> h, of "[]"] E h show "truth (Negation n) m' = truth (Negation n) m" by simp
  qed
next
  case (Comparison k)
  then have "read_field c x (cm_field k) = read_path x (cm_path k)" for x by (simp add: read_field_def)
  then show ?case by (fastforce simp: settles_def agree_on_def saw_def Let_def split: if_splits)
qed

section \<open>What evidence there can be\<close>

record question =
  qn_field :: field
  qn_operator :: operator
  qn_negated :: bool

primrec node_asks :: "node \<Rightarrow> bool \<Rightarrow> question list \<Rightarrow> question list" where
  "node_asks (Comparison k) = (\<lambda>negated into.
     List.insert \<lparr>qn_field = cm_field k, qn_operator = cm_operator k, qn_negated = negated\<rparr> into)"
| "node_asks (Negation n) = (\<lambda>negated into. node_asks n (\<not> negated) into)"
| "node_asks (Conjunction ns) = (\<lambda>negated into. foldl (\<lambda>acc f. f negated acc) into (map node_asks ns))"
| "node_asks (Disjunction ns) = (\<lambda>negated into. foldl (\<lambda>acc f. f negated acc) into (map node_asks ns))"

text \<open>The comparisons of a node with the negations that stand over them.\<close>

primrec polar :: "node \<Rightarrow> bool \<Rightarrow> (comparison \<times> bool) list" where
  "polar (Comparison k) = (\<lambda>negated. [(k, negated)])"
| "polar (Negation n) = (\<lambda>negated. polar n (\<not> negated))"
| "polar (Conjunction ns) = (\<lambda>negated. concat (map (\<lambda>f. f negated) (map polar ns)))"
| "polar (Disjunction ns) = (\<lambda>negated. concat (map (\<lambda>f. f negated) (map polar ns)))"

definition question_at :: "comparison \<times> bool \<Rightarrow> question" where
  "question_at q = \<lparr>qn_field = cm_field (fst q), qn_operator = cm_operator (fst q), qn_negated = snd q\<rparr>"

definition question_in :: "evidence \<Rightarrow> question" where
  "question_in e = \<lparr>qn_field = ev_field e, qn_operator = ev_operator e, qn_negated = ev_negated e\<rparr>"

lemma foldl_asks:
  "(\<And>n into. n \<in> set ns \<Longrightarrow> set (f n into) = set into \<union> g n) \<Longrightarrow>
   set (foldl (\<lambda>acc n. f n acc) into ns) = set into \<union> (\<Union>n \<in> set ns. g n)"
proof (induction ns arbitrary: into)
  case (Cons n ns)
  have "set (foldl (\<lambda>acc n. f n acc) (f n into) ns) = set (f n into) \<union> (\<Union>n \<in> set ns. g n)" using Cons by simp
  then show ?case using Cons.prems [of n into] by auto
qed simp

lemma node_asks_polar: "set (node_asks n negated into) = set into \<union> question_at ` set (polar n negated)"
proof (induction n arbitrary: negated into)
  case (Conjunction ns)
  then show ?case
    using foldl_asks [of ns "\<lambda>n. node_asks n negated" "\<lambda>n. question_at ` set (polar n negated)" into]
    by (auto simp: foldl_map)
next
  case (Disjunction ns)
  then show ?case
    using foldl_asks [of ns "\<lambda>n. node_asks n negated" "\<lambda>n. question_at ` set (polar n negated)" into]
    by (auto simp: foldl_map)
qed (auto simp: question_at_def)

definition keeps :: "(evidence list \<Rightarrow> bool) \<Rightarrow> gather \<Rightarrow> bool" where
  "keeps P f \<longleftrightarrow> (\<forall>ev. P ev \<longrightarrow> P (the (snd (f (Some ev)))))"

lemma all_hold_keeps: "list_all grows fs \<Longrightarrow> list_all (keeps P) fs \<Longrightarrow> P ev \<Longrightarrow> P (the (snd (all_hold fs (Some ev))))"
proof (induction fs arbitrary: ev)
  case (Cons f fs)
  then have f: "grows f" by simp
  obtain xs b where 1: "f (Some ev) = (b, Some (ev @ xs))" using f by (rule growsE)
  then have "P (ev @ xs)" using Cons.prems(2,3) by (auto simp: keeps_def)
  with Cons.IH [of "ev @ xs"] Cons.prems 1 show ?case by simp
qed simp

lemma any_holds_keeps:
  "list_all grows fs \<Longrightarrow> list_all (keeps P) fs \<Longrightarrow> P ev \<Longrightarrow> P (take mark ev) \<Longrightarrow> mark \<le> length ev \<Longrightarrow>
   P (the (snd (any_holds mark fs (Some ev))))"
proof (induction fs arbitrary: ev)
  case (Cons f fs)
  then have f: "grows f" by simp
  obtain xs b where 1: "f (Some ev) = (b, Some (ev @ xs))" using f by (rule growsE)
  then have "P (ev @ xs)" using Cons.prems(2,3) by (auto simp: keeps_def)
  moreover have "P (the (snd (f (Some (take mark ev)))))" using Cons.prems(2,4) by (simp add: keeps_def)
  ultimately show ?case using Cons.IH [of "ev @ xs"] Cons.prems 1 by simp
qed simp

lemma holds_keeps:
  assumes "\<And>k neg ev. (k, neg) \<in> set (polar n negated) \<Longrightarrow> P ev \<Longrightarrow> saw c k (read_path m (cm_path k)) neg \<notin> set ev \<Longrightarrow>
    P (ev @ [saw c k (read_path m (cm_path k)) neg])"
  shows "keeps P (holds c m n negated)"
  using assms
proof (induction n arbitrary: negated)
  case (Conjunction ns)
  let ?fs = "map (\<lambda>n. holds c m n negated) ns"
  have "keeps P (holds c m n negated)" if "n \<in> set ns" for n
    using that by (intro Conjunction.IH Conjunction.prems) auto
  then have "list_all (keeps P) ?fs" by (simp add: list_all_iff)
  then show ?case using all_hold_keeps [of ?fs P] holds_grows by (subst keeps_def) (simp add: o_def list_all_iff)
next
  case (Disjunction ns)
  let ?fs = "map (\<lambda>n. holds c m n negated) ns"
  have "keeps P (holds c m n negated)" if "n \<in> set ns" for n
    using that by (intro Disjunction.IH Disjunction.prems) auto
  then have "list_all (keeps P) ?fs" by (simp add: list_all_iff)
  then show ?case using any_holds_keeps [of ?fs P] holds_grows by (subst keeps_def) (simp add: o_def list_all_iff)
next
  case (Negation n)
  then have "keeps P (holds c m n (\<not> negated))" by simp
  then show ?case by (simp add: keeps_def split: prod.split) (metis snd_conv)
qed (auto simp: keeps_def Let_def)

lemma evidence_distinct: "distinct ev \<Longrightarrow> distinct (the (snd (holds c m n negated (Some ev))))"
  using holds_keeps [of n negated distinct c m] by (simp add: keeps_def)

lemma evidence_asked:
  "set ev \<subseteq> S \<Longrightarrow> (\<And>k neg. (k, neg) \<in> set (polar n negated) \<Longrightarrow> saw c k (read_path m (cm_path k)) neg \<in> S) \<Longrightarrow>
   set (the (snd (holds c m n negated (Some ev)))) \<subseteq> S"
  using holds_keeps [of n negated "\<lambda>ev. set ev \<subseteq> S" c m] by (simp add: keeps_def)

section \<open>The compiled tree answers what was written\<close>

lemma same_value_iff: "same_value v w \<longleftrightarrow> v = w \<and> v \<noteq> VFloat32 NaN \<and> v \<noteq> VFloat64 NaN"
  by (cases v; cases w) (auto simp: float_equal_iff)

lemma member_of_member: "list_ex (same_value v) (member_of vs) \<longleftrightarrow> list_ex (same_value v) vs"
proof -
  have "list_ex (same_value v) (foldl (\<lambda>keys v. if list_ex (same_value v) keys then keys else keys @ [v]) keys vs) \<longleftrightarrow>
      list_ex (same_value v) keys \<or> list_ex (same_value v) vs" for keys
    by (induction vs arbitrary: keys) (auto simp: list_ex_iff same_value_iff)
  then show ?thesis by (simp add: member_of_def)
qed

text \<open>What an event may hold in a field of a kind, with the whole numbers a \<^verbatim>\<open>float64\<close> states exactly.\<close>

definition value_fits :: "pkind \<Rightarrow> pvalue \<Rightarrow> bool" where
  "value_fits k v =
     (case v of
        VString _ \<Rightarrow> k = StringKind | VBool _ \<Rightarrow> k = BoolKind | VEnum _ \<Rightarrow> k = EnumKind
      | VInt32 n \<Rightarrow> k \<in> {Int32Kind, Sint32Kind, Sfixed32Kind} \<and> \<bar>n\<bar> \<le> exactly
      | VInt64 n \<Rightarrow> k \<in> {Int64Kind, Sint64Kind, Sfixed64Kind} \<and> \<bar>n\<bar> \<le> exactly
      | VUint32 n \<Rightarrow> k \<in> {Uint32Kind, Fixed32Kind} \<and> \<bar>n\<bar> \<le> exactly
      | VUint64 n \<Rightarrow> k \<in> {Uint64Kind, Fixed64Kind} \<and> \<bar>n\<bar> \<le> exactly
      | VFloat32 _ \<Rightarrow> k = FloatKind | VFloat64 _ \<Rightarrow> k = DoubleKind
      | _ \<Rightarrow> False)"

definition typed_event :: "contract \<Rightarrow> pmessage \<Rightarrow> bool" where
  "typed_event c m \<longleftrightarrow>
     list_all (\<lambda>(f, h). case read_path m (hf_path h) of None \<Rightarrow> True | Some v \<Rightarrow> value_fits (fd_kind (last (hf_path h))) v)
       (vocabulary c)"

text \<open>The number a literal states to a field, and the number an event holds, before any conversion.\<close>

definition stated :: "field_desc \<Rightarrow> literal_value \<Rightarrow> float64" where
  "stated leaf lit = (if fd_kind leaf = FloatKind then to_float32 (v_number lit) else v_number lit)"

definition exact_number :: "pvalue \<Rightarrow> float64" where
  "exact_number v =
     (case v of
        VInt32 n \<Rightarrow> Finite (of_int n) | VInt64 n \<Rightarrow> Finite (of_int n)
      | VUint32 n \<Rightarrow> Finite (of_int n) | VUint64 n \<Rightarrow> Finite (of_int n)
      | VFloat32 x \<Rightarrow> x | VFloat64 x \<Rightarrow> x
      | _ \<Rightarrow> NaN)"

definition exact_text :: "pvalue \<Rightarrow> string" where
  "exact_text v = (case v of VString s \<Rightarrow> s | _ \<Rightarrow> [])"

definition literal_means :: "field_desc \<Rightarrow> literal_value \<Rightarrow> pvalue \<Rightarrow> bool" where
  "literal_means leaf lit v =
     (case v of
        VString s \<Rightarrow> s = v_text lit
      | VBool b \<Rightarrow> b = v_truth lit
      | VEnum n \<Rightarrow> enumOf (fd_enum leaf) (v_text lit) = Some n
      | _ \<Rightarrow> float_equal (exact_number v) (stated leaf lit))"

definition predicate_means :: "predicate \<Rightarrow> field_desc \<Rightarrow> pvalue \<Rightarrow> bool" where
  "predicate_means p leaf v =
     (case p_operator p of
        Present \<Rightarrow> True
      | OneOf \<Rightarrow> list_ex (\<lambda>lit. literal_means leaf lit v) (p_values p)
      | op \<Rightarrow>
          (case p_values p of
             [] \<Rightarrow> False
           | lit # _ \<Rightarrow>
               (case op of
                  Equals \<Rightarrow> literal_means leaf lit v
                | Contains \<Rightarrow> sublist (v_text lit) (exact_text v)
                | StartsWith \<Rightarrow> prefix (v_text lit) (exact_text v)
                | EndsWith \<Rightarrow> suffix (v_text lit) (exact_text v)
                | Above \<Rightarrow> float_less (stated leaf lit) (exact_number v)
                | AtLeast \<Rightarrow> float_le (stated leaf lit) (exact_number v)
                | Below \<Rightarrow> float_less (exact_number v) (stated leaf lit)
                | AtMost \<Rightarrow> float_le (exact_number v) (stated leaf lit)
                | _ \<Rightarrow> False)))"

primrec meaning :: "contract \<Rightarrow> pmessage \<Rightarrow> expression \<Rightarrow> bool" where
  "meaning c m Missing = False"
| "meaning c m (Predicate p) =
     (case pathOf c (p_field p) of
        None \<Rightarrow> False
      | Some path \<Rightarrow> (case read_path m path of None \<Rightarrow> False | Some v \<Rightarrow> predicate_means p (last path) v))"
| "meaning c m (NotOf e) = (\<not> meaning c m e)"
| "meaning c m (AllOf es) = list_all id (map (meaning c m) es)"
| "meaning c m (AnyOf es) = list_ex id (map (meaning c m) es)"

lemma literals_of_all: "literals_of c leaf vs = Inr ls \<Longrightarrow> list_all2 (\<lambda>v l. literalOf c v leaf = Inr l) vs ls"
  by (induction vs arbitrary: ls) (auto split: sum.splits)

lemma whole_number_Some: "whole_number x = Some n \<longleftrightarrow> x = Finite (of_int n)"
  by (auto simp: whole_number_def split: float64.splits)

lemma numberOf_whole:
  assumes "numberOf c lit leaf = Inr l" "fd_kind leaf \<noteq> FloatKind" "fd_kind leaf \<noteq> DoubleKind"
  shows "\<exists>n. v_number lit = Finite (of_int n) \<and> \<bar>n\<bar> \<le> exactly \<and>
    l = (if fd_kind leaf \<in> {Int32Kind, Sint32Kind, Sfixed32Kind} then VInt32 n
         else if fd_kind leaf \<in> {Int64Kind, Sint64Kind, Sfixed64Kind} then VInt64 n
         else if fd_kind leaf \<in> {Uint32Kind, Fixed32Kind} then VUint32 n else VUint64 n)"
  using assms
  by (auto simp: numberOf_def Let_def whole_number_Some kind_bounds_def exactly_def split: option.splits if_splits prod.splits)

lemma numberOf_float:
  "numberOf c lit leaf = Inr l \<Longrightarrow> fd_kind leaf = FloatKind \<Longrightarrow> l = VFloat32 (to_float32 (v_number lit))"
  "numberOf c lit leaf = Inr l \<Longrightarrow> fd_kind leaf = DoubleKind \<Longrightarrow> l = VFloat64 (v_number lit)"
  by (auto simp: numberOf_def Let_def split: if_splits)

lemma literalOf_numeric: "numeric (fd_kind leaf) \<Longrightarrow> literalOf c lit leaf = numberOf c lit leaf"
  by (auto simp: literalOf_def numeric_def split: pkind.splits)

lemma literal_number:
  assumes "numeric (fd_kind leaf)" "literalOf c lit leaf = Inr l"
  shows "numberIn l = stated leaf lit"
proof (cases "fd_kind leaf = FloatKind \<or> fd_kind leaf = DoubleKind")
  case True
  with assms numberOf_float [of c lit leaf l] show ?thesis by (auto simp: literalOf_numeric numberIn_def stated_def)
next
  case False
  with assms numberOf_whole [of c lit leaf l] obtain n where
    "v_number lit = Finite (of_int n)" "\<bar>n\<bar> \<le> exactly" "l = VInt32 n \<or> l = VInt64 n \<or> l = VUint32 n \<or> l = VUint64 n"
    by (auto simp: literalOf_numeric split: if_splits)
  with False show ?thesis by (auto simp: numberIn_def stated_def exactly_def)
qed

lemma value_number: "value_fits k v \<Longrightarrow> numberIn v = exact_number v"
  by (auto simp: value_fits_def numberIn_def exact_number_def exactly_def split: pvalue.splits)

lemma value_fits_kinds:
  "value_fits k v \<Longrightarrow> numeric k \<or> k = StringKind \<or> k = BoolKind \<or> k = EnumKind"
  by (auto simp: value_fits_def numeric_def split: pvalue.splits)

lemma numeric_literal_same:
  assumes "numeric (fd_kind leaf)" "literalOf c lit leaf = Inr l" "value_fits (fd_kind leaf) v"
  shows "same_value v l = float_equal (exact_number v) (stated leaf lit)"
proof (cases "fd_kind leaf = FloatKind \<or> fd_kind leaf = DoubleKind")
  case True
  with assms numberOf_float [of c lit leaf l] show ?thesis
    by (auto simp: literalOf_numeric stated_def value_fits_def exact_number_def split: pvalue.splits)
next
  case False
  with assms numberOf_whole [of c lit leaf l] obtain n where n: "v_number lit = Finite (of_int n)"
    "l = (if fd_kind leaf \<in> {Int32Kind, Sint32Kind, Sfixed32Kind} then VInt32 n
          else if fd_kind leaf \<in> {Int64Kind, Sint64Kind, Sfixed64Kind} then VInt64 n
          else if fd_kind leaf \<in> {Uint32Kind, Fixed32Kind} then VUint32 n else VUint64 n)"
    by (auto simp: literalOf_numeric)
  show ?thesis
  proof (cases v)
    case (VUint64 x)
    then have "fd_kind leaf \<in> {Uint64Kind, Fixed64Kind}" using assms(3) by (simp add: value_fits_def)
    then show ?thesis using VUint64 n False by (auto simp: exact_number_def stated_def)
  qed (use n False assms in \<open>auto simp: value_fits_def exact_number_def stated_def numeric_def\<close>)
qed

lemma literal_same:
  assumes "literalOf c lit leaf = Inr l" "value_fits (fd_kind leaf) v"
  shows "same_value v l = literal_means leaf lit v"
proof (cases "numeric (fd_kind leaf)")
  case True
  then have "literal_means leaf lit v = float_equal (exact_number v) (stated leaf lit)"
    using assms(2) by (auto simp: literal_means_def value_fits_def numeric_def split: pvalue.splits)
  with numeric_literal_same [OF True assms] show ?thesis by simp
next
  case False
  with value_fits_kinds [OF assms(2)] assms show ?thesis
    by (auto simp: literalOf_def literal_means_def value_fits_def numeric_def split: pvalue.splits option.splits)
qed

lemma answered_means:
  assumes "literals_of c leaf (p_values p) = Inr ls" "value_fits (fd_kind leaf) v"
    and "operator_asks (p_operator p) k" "kind_fits k (fd_kind leaf)" "arity_ok (p_operator p) (length (p_values p))"
    and "cm_operator q = p_operator p" "cm_literals q = ls" "cm_member q = (if p_operator p = OneOf then member_of ls else [])"
  shows "answered q (Some v) = predicate_means p leaf v"
proof (cases "p_operator p = Present \<or> p_operator p = OneOf")
  case True
  have "list_ex (same_value v) ls = list_ex (\<lambda>lit. literal_means leaf lit v) (p_values p)"
    using literals_of_all [OF assms(1)] literal_same [OF _ assms(2)]
    by (induction rule: list_all2_induct) auto
  with True assms(6-8) show ?thesis
    by (auto simp: answered_def answers_def predicate_means_def Let_def member_of_member)
next
  case False
  then have "0 < length (p_values p)" using assms(5) by (auto simp: arity_ok_def takes_def)
  then obtain lit rest where p: "p_values p = lit # rest" by (cases "p_values p") auto
  then obtain l rest' where ls: "ls = l # rest'" "literalOf c lit leaf = Inr l"
    using assms(1) by (auto split: sum.splits)
  have words: "value_text v = exact_text v \<and> value_text l = v_text lit" if "k = Text"
    using that assms(2,4) ls(2) by (auto simp: kind_fits_def value_fits_def literalOf_def value_text_def exact_text_def split: pvalue.splits)
  have num: "numberIn l = stated leaf lit" if "k = Number"
    using that assms(4) ls(2) by (auto simp: kind_fits_def intro: literal_number)
  show ?thesis
    using False assms(3,6,7) p ls words num literal_same [OF ls(2) assms(2)] value_number [OF assms(2)]
    by (cases "p_operator p")
       (auto simp: answered_def answers_def predicate_means_def Let_def first_literal_def operator_asks_def
         Contains_in_def HasPrefix_def HasSuffix_def float_le_def float_equal_iff dest: float_less_not_NaN)
qed

lemma typed_eventD:
  "typed_event c m \<Longrightarrow> pathOf c f = Some path \<Longrightarrow> read_path m path = Some v \<Longrightarrow> value_fits (fd_kind (last path)) v"
  by (auto simp: typed_event_def pathOf_def list_all_iff dest!: map_of_SomeD)

lemma kind_of_path:
  "KindOf c f = Some k \<Longrightarrow> pathOf c f = Some path \<Longrightarrow> kind_fits k (fd_kind (last path))"
  using vocabulary_entry [of c f] by (auto simp: KindOf_def pathOf_def entry_ok_def)

lemma compareOn_means:
  assumes "compareOn c r w p read = Inr (n, read')" "predicate_ok c class p" "typed_event c m"
  shows "truth n m = meaning c m (Predicate p) \<and> resolved c n"
proof -
  obtain path ls where path: "pathOf c (p_field p) = Some path" "literals_of c (last path) (p_values p) = Inr ls"
    and n: "n = Comparison \<lparr>cm_field = p_field p, cm_path = path, cm_operator = p_operator p, cm_literals = ls,
                 cm_member = (if p_operator p = OneOf then member_of ls else [])\<rparr>" (is "n = Comparison ?q")
    using assms(1) by (auto simp: compareOn_def split: option.splits sum.splits)
  obtain k where k: "KindOf c (p_field p) = Some k" "operator_asks (p_operator p) k" "arity_ok (p_operator p) (length (p_values p))"
    using assms(2) by (auto simp: predicate_ok_def)
  have "answered ?q (read_path m path) = (case read_path m path of None \<Rightarrow> False | Some v \<Rightarrow> predicate_means p (last path) v)"
  proof (cases "read_path m path")
    case (Some v)
    have "answered ?q (Some v) = predicate_means p (last path) v"
      by (rule answered_means [OF path(2) typed_eventD [OF assms(3) path(1) Some] k(2) kind_of_path [OF k(1) path(1)] k(3)]) simp_all
    with Some show ?thesis by simp
  qed (simp add: answered_def)
  then show ?thesis using n path(1) by simp
qed

lemma compile_means:
  "compile_node c r part e read = Inr (n, read') \<Longrightarrow> list_all (predicate_ok c class) (predicates e) \<Longrightarrow> typed_event c m \<Longrightarrow>
   truth n m = meaning c m e \<and> resolved c n"
  "compileTerms c r part i es read = Inr (ns, read') \<Longrightarrow> list_all (predicate_ok c class) (concat (map predicates es)) \<Longrightarrow>
   typed_event c m \<Longrightarrow> list_all2 (\<lambda>n e. truth n m = meaning c m e \<and> resolved c n) ns es"
proof (induction c r part e read and c r part i es read arbitrary: n read' and ns read' rule: compile_node_compileTerms.induct)
  case (1 c r part p read)
  then show ?case using compareOn_means by fastforce
next
  case (2 c r part e read)
  then show ?case by (auto split: sum.splits)
next
  case (3 c r part es read)
  then obtain ns where n: "n = Conjunction ns" "list_all2 (\<lambda>n e. truth n m = meaning c m e \<and> resolved c n) ns es"
    by (auto split: sum.splits)
  from n(2) have "truth n m = meaning c m (AllOf es) \<and> resolved c n"
    unfolding n(1) by (induction rule: list_all2_induct) auto
  then show ?case .
next
  case (4 c r part es read)
  then obtain ns where n: "n = Disjunction ns" "list_all2 (\<lambda>n e. truth n m = meaning c m e \<and> resolved c n) ns es"
    by (auto split: sum.splits)
  from n(2) have "truth n m = meaning c m (AnyOf es) \<and> resolved c n"
    unfolding n(1) by (induction rule: list_all2_induct) auto
  then show ?case .
next
  case (7 c r part i e es read)
  then show ?case by (fastforce split: sum.splits prod.splits)
qed auto

text \<open>
  C3. A rule compiled into a tree of comparisons answers exactly what its expression says: for every
  accepted expression and every event whose whole numbers a rule can state, the tree holds if and only
  if the expression, read predicate by predicate on the event's own values, does. Turning a list into a
  set and a literal into the field's type changes no answer.
\<close>

theorem compiled_as_written:
  assumes "compile_node c r part e read = Inr (n, read')" "expression_ok c class e" "typed_event c m"
  shows "fst (holds c m n False into) = meaning c m e"
  using compile_means(1) [OF assms(1), of "class" m] assms(2,3) by (simp add: holds_truth expression_ok_def)

section \<open>Examples\<close>

definition sample_node :: node where
  "sample_node = (case compile_node sample_contract sample_rule ''match'' sample_match [] of Inr (n, _) \<Rightarrow> n)"

lemma sample_compiled:
  obtains read where "compile_node sample_contract sample_rule ''match'' sample_match [] = Inr (sample_node, read)"
proof -
  have "\<not> isl (compile_node sample_contract sample_rule ''match'' sample_match [])" by code_simp
  then show ?thesis using that
    by (cases "compile_node sample_contract sample_rule ''match'' sample_match []") (auto simp: sample_node_def)
qed

lemma sample_match_ok: "expression_ok sample_contract 1 sample_match"
  using rule_Validate_matching [OF sample_rule_valid]
  by (simp add: matching_ok_def sample_rule_def Correlates_def)

lemma sample_event_typed: "typed_event sample_contract sample_event"
  by code_simp

theorem compiled_as_written_witness:
  "fst (holds sample_contract sample_event sample_node False None) = meaning sample_contract sample_event sample_match \<and>
   meaning sample_contract sample_event sample_match"
proof -
  obtain read where "compile_node sample_contract sample_rule ''match'' sample_match [] = Inr (sample_node, read)"
    by (rule sample_compiled)
  moreover have "meaning sample_contract sample_event sample_match" by code_simp
  ultimately show ?thesis using compiled_as_written [OF _ sample_match_ok sample_event_typed] by blast
qed

end
