(* ===== verification/Detection_Contradiction.thy ===== *)
theory Detection_Contradiction
  imports Detection_Node
begin

text \<open>
  The check that refuses a rule which can never match or matches everything
  (\<^verbatim>\<open>internal/detection/contradiction.go\<close>). It is meant to prove and never to guess, and that is the result
  here: whatever it refuses contains a conjunction no event satisfies or a disjunction every event does.
\<close>

section \<open>Questions\<close>

record asked =
  aq_compare :: comparison
  aq_negated :: bool

definition asked_string :: "contract \<Rightarrow> asked \<Rightarrow> string" where
  "asked_string c q =
     (if aq_negated q then ''not '' @ comparison_string c (aq_compare q) else comparison_string c (aq_compare q))"

primrec node_directly :: "bool \<Rightarrow> node \<Rightarrow> asked list" where
  "node_directly conjunctive (Comparison k) = [\<lparr>aq_compare = k, aq_negated = False\<rparr>]"
| "node_directly conjunctive (Negation n) =
     (case n of Comparison k \<Rightarrow> [\<lparr>aq_compare = k, aq_negated = True\<rparr>] | _ \<Rightarrow> [])"
| "node_directly conjunctive (Conjunction ns) =
     (if conjunctive then concat (map (node_directly conjunctive) ns) else [])"
| "node_directly conjunctive (Disjunction ns) =
     (if conjunctive then [] else concat (map (node_directly conjunctive) ns))"

definition directly :: "node list \<Rightarrow> bool \<Rightarrow> asked list" where
  "directly terms conjunctive = concat (map (node_directly conjunctive) terms)"

fun opposed_from :: "contract \<Rightarrow> rule \<Rightarrow> string \<Rightarrow> string \<Rightarrow> (string, bool) go_map \<Rightarrow> asked list \<Rightarrow> rule_violation option" where
  "opposed_from c r part because polarity [] = None"
| "opposed_from c r part because polarity (q # qs) =
     (let written = comparison_string c (aq_compare q) in
      case lookup polarity written of
        Some negated \<Rightarrow>
          if negated \<noteq> aq_negated q
          then refuse r part (''asks '' @ written @ '' and also that it does not, so it '' @ because)
          else opposed_from c r part because (AList.update written (aq_negated q) polarity) qs
      | None \<Rightarrow> opposed_from c r part because (AList.update written (aq_negated q) polarity) qs)"

definition opposed :: "contract \<Rightarrow> rule \<Rightarrow> string \<Rightarrow> asked list \<Rightarrow> string \<Rightarrow> rule_violation option" where
  "opposed c r part qs because = opposed_from c r part because [] qs"

section \<open>What a conjunction leaves a single field\<close>

record window =
  wn_allowed :: "pvalue list option"
  wn_from :: string
  wn_low :: float64
  wn_high :: float64
  wn_low_open :: bool
  wn_high_open :: bool
  wn_bounded :: string

definition open_window :: window where
  "open_window =
     \<lparr>wn_allowed = None, wn_from = [], wn_low = NegInf, wn_high = PosInf, wn_low_open = False, wn_high_open = False,
      wn_bounded = []\<rparr>"

definition window_allow :: "contract \<Rightarrow> window \<Rightarrow> asked \<Rightarrow> string + window" where
  "window_allow c w q =
     (let narrowed = member_of (cm_literals (aq_compare q)) in
      case wn_allowed w of
        None \<Rightarrow> Inr (w\<lparr>wn_allowed := Some narrowed, wn_from := asked_string c q\<rparr>)
      | Some allowed \<Rightarrow>
          let kept = filter (\<lambda>l. list_ex (same_value l) allowed) narrowed in
          if kept = [] then Inl (''asks '' @ wn_from w @ '' and '' @ asked_string c q @ '', which nothing satisfies'')
          else Inr (w\<lparr>wn_allowed := Some kept, wn_from := wn_from w @ '' and '' @ asked_string c q\<rparr>))"

definition ranged :: "operator \<Rightarrow> bool" where
  "ranged op = (op \<in> {Above, AtLeast, Below, AtMost})"

definition window_narrow :: "window \<Rightarrow> operator \<Rightarrow> float64 \<Rightarrow> window" where
  "window_narrow w op against =
     (case op of
        Above \<Rightarrow>
          if float_less (wn_low w) against \<or> float_equal against (wn_low w) \<and> \<not> wn_low_open w
          then w\<lparr>wn_low := against, wn_low_open := True\<rparr> else w
      | AtLeast \<Rightarrow> if float_less (wn_low w) against then w\<lparr>wn_low := against, wn_low_open := False\<rparr> else w
      | Below \<Rightarrow>
          if float_less against (wn_high w) \<or> float_equal against (wn_high w) \<and> \<not> wn_high_open w
          then w\<lparr>wn_high := against, wn_high_open := True\<rparr> else w
      | AtMost \<Rightarrow> if float_less against (wn_high w) then w\<lparr>wn_high := against, wn_high_open := False\<rparr> else w
      | _ \<Rightarrow> w)"

definition window_limit :: "contract \<Rightarrow> window \<Rightarrow> asked \<Rightarrow> string + window" where
  "window_limit c w q =
     (let w = window_narrow w (cm_operator (aq_compare q)) (numberIn (first_literal (aq_compare q)));
          w = w\<lparr>wn_bounded := (if wn_bounded w = [] then asked_string c q else wn_bounded w @ '' and '' @ asked_string c q)\<rparr>
      in if float_less (wn_high w) (wn_low w) \<or>
            float_equal (wn_low w) (wn_high w) \<and> (wn_low_open w \<or> wn_high_open w)
         then Inl (''asks '' @ wn_bounded w @ '', which nothing satisfies'')
         else Inr w)"

definition window_within :: "window \<Rightarrow> pvalue \<Rightarrow> bool" where
  "window_within w l =
     (let x = numberIn l in
      if x = NaN then True
      else if float_less x (wn_low w) \<or> float_equal x (wn_low w) \<and> wn_low_open w then False
      else float_le x (wn_high w) \<and> \<not> (float_equal x (wn_high w) \<and> wn_high_open w))"

definition satisfies :: "pvalue \<Rightarrow> asked \<Rightarrow> bool" where
  "satisfies l q = (case answers l (aq_compare q) of (is_held, decided) \<Rightarrow> if \<not> decided then True else is_held \<noteq> aq_negated q)"

definition at_odds :: "asked \<Rightarrow> asked \<Rightarrow> bool" where
  "at_odds q q' =
     (\<not> aq_negated q' \<and> cm_operator (aq_compare q') = cm_operator (aq_compare q) \<and>
      (let one = value_text (first_literal (aq_compare q)); other = value_text (first_literal (aq_compare q')) in
       case cm_operator (aq_compare q) of
         StartsWith \<Rightarrow> \<not> HasPrefix one other \<and> \<not> HasPrefix other one
       | EndsWith \<Rightarrow> \<not> HasSuffix one other \<and> \<not> HasSuffix other one
       | _ \<Rightarrow> False))"

fun conflicting :: "contract \<Rightarrow> asked list \<Rightarrow> string option" where
  "conflicting c [] = None"
| "conflicting c (q # rest) =
     (if aq_negated q then conflicting c rest
      else case List.find (at_odds q) rest of
        Some q' \<Rightarrow> Some (''asks '' @ asked_string c q @ '' and '' @ asked_string c q' @ '', which nothing satisfies'')
      | None \<Rightarrow> conflicting c rest)"

definition window_leaves :: "contract \<Rightarrow> window \<Rightarrow> asked list \<Rightarrow> string option" where
  "window_leaves c w rest =
     (case wn_allowed w of
        None \<Rightarrow> conflicting c rest
      | Some allowed \<Rightarrow>
          if wn_bounded w \<noteq> [] \<and> \<not> list_ex (window_within w) allowed
          then Some (''asks '' @ wn_from w @ '' and '' @ wn_bounded w @ '', which nothing satisfies'')
          else case List.find (\<lambda>q. \<not> list_ex (\<lambda>l. satisfies l q) allowed) rest of
            Some q \<Rightarrow> Some (''asks '' @ wn_from w @ '' and '' @ asked_string c q @ '', which nothing satisfies'')
          | None \<Rightarrow> None)"

fun empty_from :: "contract \<Rightarrow> window \<Rightarrow> asked list \<Rightarrow> asked list \<Rightarrow> string option" where
  "empty_from c w rest [] = window_leaves c w rest"
| "empty_from c w rest (q # qs) =
     (let op = cm_operator (aq_compare q) in
      if op = Present then empty_from c w rest qs
      else if aq_negated q then empty_from c w (rest @ [q]) qs
      else if op = Equals \<or> op = OneOf
      then (case window_allow c w q of Inl e \<Rightarrow> Some e | Inr w' \<Rightarrow> empty_from c w' rest qs)
      else if ranged op then (case window_limit c w q of Inl e \<Rightarrow> Some e | Inr w' \<Rightarrow> empty_from c w' rest qs)
      else empty_from c w (rest @ [q]) qs)"

definition empty_questions :: "contract \<Rightarrow> asked list \<Rightarrow> string option" where
  "empty_questions c qs = empty_from c open_window [] qs"

text \<open>The questions grouped by field, in the order in which a field is first asked about.\<close>

definition field_order :: "asked list \<Rightarrow> field list" where
  "field_order qs =
     foldl (\<lambda>order q. if cm_field (aq_compare q) \<in> set order then order else order @ [cm_field (aq_compare q)]) [] qs"

definition narrowed :: "contract \<Rightarrow> rule \<Rightarrow> string \<Rightarrow> asked list \<Rightarrow> rule_violation option" where
  "narrowed c r part qs =
     (case List.find (\<lambda>f. empty_questions c (filter (\<lambda>q. cm_field (aq_compare q) = f) qs) \<noteq> None) (field_order qs) of
        None \<Rightarrow> None
      | Some f \<Rightarrow>
          map_option (rule_violation_of r part) (empty_questions c (filter (\<lambda>q. cm_field (aq_compare q) = f) qs)))"

fun each_of :: "string \<Rightarrow> nat \<Rightarrow> (string \<Rightarrow> rule_violation option) list \<Rightarrow> rule_violation option" where
  "each_of part i [] = None"
| "each_of part i (f # fs) = or_else (f (indexed part i)) (each_of part (Suc i) fs)"

primrec satisfiable :: "contract \<Rightarrow> rule \<Rightarrow> node \<Rightarrow> string \<Rightarrow> rule_violation option" where
  "satisfiable c r (Conjunction ns) = (\<lambda>part.
     let qs = directly ns True in
     or_else (opposed c r (part @ ''.all'') qs ''can never match'')
       (or_else (narrowed c r (part @ ''.all'') qs) (each_of (part @ ''.all'') 0 (map (satisfiable c r) ns))))"
| "satisfiable c r (Disjunction ns) = (\<lambda>part.
     or_else (opposed c r (part @ ''.any'') (directly ns False) ''matches every event'')
       (each_of (part @ ''.any'') 0 (map (satisfiable c r) ns)))"
| "satisfiable c r (Negation n) = (\<lambda>part. satisfiable c r n (part @ ''.not''))"
| "satisfiable c r (Comparison k) = (\<lambda>part. None)"

section \<open>A field that is narrowed to nothing is narrowed to nothing\<close>

definition asked_truth :: "pvalue option \<Rightarrow> asked \<Rightarrow> bool" where
  "asked_truth held q \<longleftrightarrow> answered (aq_compare q) held \<noteq> aq_negated q"

text \<open>What compilation gives every comparison.\<close>

definition comparison_ok :: "comparison \<Rightarrow> bool" where
  "comparison_ok k \<longleftrightarrow>
     (cm_operator k \<noteq> Present \<longrightarrow> cm_literals k \<noteq> []) \<and> (cm_operator k = OneOf \<longrightarrow> cm_member k = member_of (cm_literals k))"

definition inside :: "window \<Rightarrow> float64 \<Rightarrow> bool" where
  "inside w x \<longleftrightarrow>
     \<not> (float_less x (wn_low w) \<or> x = wn_low w \<and> wn_low_open w) \<and> \<not> (float_less (wn_high w) x \<or> x = wn_high w \<and> wn_high_open w)"

definition ends_known :: "window \<Rightarrow> bool" where
  "ends_known w \<longleftrightarrow> wn_low w \<noteq> NaN \<and> wn_high w \<noteq> NaN"

definition leaves_room :: "window \<Rightarrow> pvalue \<Rightarrow> bool" where
  "leaves_room w v \<longleftrightarrow>
     (case wn_allowed w of None \<Rightarrow> True | Some allowed \<Rightarrow> list_ex (same_value v) allowed) \<and>
     ends_known w \<and> (numberIn v \<noteq> NaN \<longrightarrow> inside w (numberIn v))"

lemma leaves_room_open: "leaves_room open_window v"
  by (simp add: leaves_room_def open_window_def ends_known_def inside_def)

lemma answered_SomeD:
  "asked_truth (Some v) q \<Longrightarrow> \<not> aq_negated q \<Longrightarrow> cm_operator (aq_compare q) \<noteq> Present \<Longrightarrow>
   answers v (aq_compare q) = (True, True)"
  by (auto simp: asked_truth_def answered_def split: prod.splits)

lemma allow_keeps_room:
  assumes "leaves_room w v" "asked_truth (Some v) q" "\<not> aq_negated q" "comparison_ok (aq_compare q)"
    and "cm_operator (aq_compare q) = Equals \<or> cm_operator (aq_compare q) = OneOf"
  shows "\<exists>w'. window_allow c w q = Inr w' \<and> leaves_room w' v"
proof -
  let ?k = "aq_compare q" and ?n = "member_of (cm_literals (aq_compare q))"
  have "list_ex (same_value v) (cm_literals ?k)"
    using answered_SomeD [OF assms(2,3)] assms(4,5)
    by (auto simp: answers_def Let_def comparison_ok_def member_of_member first_literal_def split: list.splits)
  then have n: "list_ex (same_value v) ?n" by (simp add: member_of_member)
  show ?thesis
  proof (cases "wn_allowed w")
    case None
    then show ?thesis using n assms(1) by (simp add: window_allow_def Let_def leaves_room_def ends_known_def inside_def)
  next
    case (Some allowed)
    then have "list_ex (same_value v) (filter (\<lambda>l. list_ex (same_value l) allowed) ?n)"
      using n assms(1) by (auto simp: leaves_room_def list_ex_iff same_value_iff)
    then show ?thesis using Some assms(1)
      by (auto simp: window_allow_def Let_def leaves_room_def ends_known_def inside_def)
  qed
qed

lemma ranged_answer:
  assumes "answers v k = (True, True)" "ranged (cm_operator k)"
  shows "numberIn v \<noteq> NaN \<and> numberIn (first_literal k) \<noteq> NaN \<and>
    (case cm_operator k of
       Above \<Rightarrow> float_less (numberIn (first_literal k)) (numberIn v)
     | AtLeast \<Rightarrow> float_le (numberIn (first_literal k)) (numberIn v)
     | Below \<Rightarrow> float_less (numberIn v) (numberIn (first_literal k))
     | _ \<Rightarrow> float_le (numberIn v) (numberIn (first_literal k)))"
  using assms by (auto simp: answers_def Let_def ranged_def split: if_splits)

lemma inside_low:
  "inside w x \<Longrightarrow> \<not> float_less x y \<Longrightarrow> \<not> (x = y \<and> strictly) \<Longrightarrow> inside (w\<lparr>wn_low := y, wn_low_open := strictly\<rparr>) x"
  unfolding inside_def by (cases w, simp only: window.select_convs window.update_convs) blast

lemma inside_high:
  "inside w x \<Longrightarrow> \<not> float_less y x \<Longrightarrow> \<not> (x = y \<and> strictly) \<Longrightarrow> inside (w\<lparr>wn_high := y, wn_high_open := strictly\<rparr>) x"
  unfolding inside_def by (cases w, simp only: window.select_convs window.update_convs) blast

lemma narrow_keeps_inside:
  assumes "inside w x" "x \<noteq> NaN" "y \<noteq> NaN" "ends_known w" "ranged op"
    and "case op of Above \<Rightarrow> float_less y x | AtLeast \<Rightarrow> float_le y x | Below \<Rightarrow> float_less x y | _ \<Rightarrow> float_le x y"
  shows "inside (window_narrow w op y) x \<and> ends_known (window_narrow w op y)"
proof -
  have strict: "\<not> float_less b a \<and> a \<noteq> b \<and> b \<noteq> a" if "float_less a b" for a b
    using that float_less_asym float_less_irrefl by metis
  have weak: "\<not> float_less b a" if "float_le a b" for a b
    using that strict by (auto simp: float_le_def float_equal_iff)
  consider "op = Above" "float_less y x" | "op = AtLeast" "float_le y x"
    | "op = Below" "float_less x y" | "op = AtMost" "float_le x y"
    using assms(5,6) by (auto simp: ranged_def)
  then show ?thesis
  proof cases
    case 1
    then show ?thesis
      using assms(1,3,4) strict [OF 1(2)] inside_low [OF assms(1), of y True] by (simp add: window_narrow_def ends_known_def)
  next
    case 2
    then show ?thesis
      using assms(1,3,4) weak [OF 2(2)] inside_low [OF assms(1), of y False] by (simp add: window_narrow_def ends_known_def)
  next
    case 3
    then show ?thesis
      using assms(1,3,4) strict [OF 3(2)] inside_high [OF assms(1), of y True] by (simp add: window_narrow_def ends_known_def)
  next
    case 4
    then show ?thesis
      using assms(1,3,4) weak [OF 4(2)] inside_high [OF assms(1), of y False] by (simp add: window_narrow_def ends_known_def)
  qed
qed

lemma inside_nonempty:
  assumes "inside w x" "x \<noteq> NaN" "ends_known w"
  shows "\<not> (float_less (wn_high w) (wn_low w) \<or> float_equal (wn_low w) (wn_high w) \<and> (wn_low_open w \<or> wn_high_open w))"
proof
  assume bad: "float_less (wn_high w) (wn_low w) \<or> float_equal (wn_low w) (wn_high w) \<and> (wn_low_open w \<or> wn_high_open w)"
  have low: "wn_low w = x \<or> float_less (wn_low w) x" and high: "wn_high w = x \<or> float_less x (wn_high w)"
    using assms float_less_linear unfolding inside_def ends_known_def by metis+
  with bad assms(1) show False
    by (auto simp: inside_def float_equal_iff dest: float_less_trans float_less_asym)
qed

lemma limit_keeps_room:
  assumes "leaves_room w v" "asked_truth (Some v) q" "\<not> aq_negated q" "ranged (cm_operator (aq_compare q))"
  shows "\<exists>w'. window_limit c w q = Inr w' \<and> leaves_room w' v \<and> numberIn v \<noteq> NaN"
proof -
  let ?op = "cm_operator (aq_compare q)" and ?y = "numberIn (first_literal (aq_compare q))" and ?x = "numberIn v"
  let ?w = "window_narrow w ?op ?y"
  have "cm_operator (aq_compare q) \<noteq> Present" using assms(4) by (auto simp: ranged_def)
  note r = ranged_answer [OF answered_SomeD [OF assms(2,3) this] assms(4)]
  then have x: "?x \<noteq> NaN" by simp
  with assms(1) have "inside w ?x" "ends_known w" by (simp_all add: leaves_room_def)
  then have w: "inside ?w ?x" "ends_known ?w" using narrow_keeps_inside r assms(4) by blast+
  have "wn_allowed ?w = wn_allowed w" by (auto simp: window_narrow_def split: operator.splits)
  with w x inside_nonempty [OF w(1) x w(2)] assms(1) show ?thesis
    by (auto simp: window_limit_def Let_def leaves_room_def inside_def ends_known_def)
qed

lemma prefixes_agree: "answers v k = (True, True) \<Longrightarrow> cm_operator k = StartsWith \<Longrightarrow> prefix (value_text (first_literal k)) (value_text v)"
  by (simp add: answers_def Let_def HasPrefix_def)

lemma suffixes_agree: "answers v k = (True, True) \<Longrightarrow> cm_operator k = EndsWith \<Longrightarrow> suffix (value_text (first_literal k)) (value_text v)"
  by (simp add: answers_def Let_def HasSuffix_def)

lemma not_at_odds:
  assumes "asked_truth (Some v) q" "asked_truth (Some v) q'" "\<not> aq_negated q"
  shows "\<not> at_odds q q'"
proof
  assume odds: "at_odds q q'"
  then have op: "cm_operator (aq_compare q') = cm_operator (aq_compare q)" "\<not> aq_negated q'" by (simp_all add: at_odds_def)
  from odds consider "cm_operator (aq_compare q) = StartsWith" | "cm_operator (aq_compare q) = EndsWith"
    by (auto simp: at_odds_def Let_def split: operator.splits)
  then show False
  proof cases
    case 1
    then have "prefix (value_text (first_literal (aq_compare q))) (value_text v)"
      "prefix (value_text (first_literal (aq_compare q'))) (value_text v)"
      using assms op answered_SomeD prefixes_agree by auto
    then show False using odds 1 prefix_same_cases by (fastforce simp: at_odds_def Let_def HasPrefix_def)
  next
    case 2
    then have "suffix (value_text (first_literal (aq_compare q))) (value_text v)"
      "suffix (value_text (first_literal (aq_compare q'))) (value_text v)"
      using assms op answered_SomeD suffixes_agree by auto
    then show False using odds 2 suffix_same_cases by (fastforce simp: at_odds_def Let_def HasSuffix_def)
  qed
qed

lemma conflicting_None: "list_all (asked_truth (Some v)) rest \<Longrightarrow> conflicting c rest = None"
proof (induction rest)
  case (Cons q rest)
  then have "List.find (at_odds q) rest = None" if "\<not> aq_negated q"
    using that not_at_odds by (fastforce simp: find_None_iff list_all_iff)
  with Cons show ?case by auto
qed simp

lemma truth_satisfies: "asked_truth (Some v) q \<Longrightarrow> cm_operator (aq_compare q) \<noteq> Present \<Longrightarrow> satisfies v q"
  by (auto simp: asked_truth_def answered_def satisfies_def split: prod.splits)

lemma room_within: "leaves_room w v \<Longrightarrow> window_within w v"
  using float_less_linear [of "numberIn v" "wn_high w"]
  by (auto simp: leaves_room_def window_within_def Let_def inside_def ends_known_def float_le_def float_equal_iff)

lemma window_leaves_None:
  assumes "leaves_room w v" "list_all (asked_truth (Some v)) rest" "list_all (\<lambda>q. cm_operator (aq_compare q) \<noteq> Present) rest"
  shows "window_leaves c w rest = None"
proof (cases "wn_allowed w")
  case None
  then show ?thesis using conflicting_None [OF assms(2)] by (simp add: window_leaves_def)
next
  case (Some allowed)
  then have v: "v \<in> set allowed" using assms(1) by (auto simp: leaves_room_def list_ex_iff same_value_iff)
  then have "list_ex (window_within w) allowed" using room_within [OF assms(1)] by (auto simp: list_ex_iff)
  moreover have "List.find (\<lambda>q. \<not> list_ex (\<lambda>l. satisfies l q) allowed) rest = None"
    using v assms(2,3) by (auto simp: find_None_iff list_ex_iff list_all_iff intro!: bexI [OF _ v] truth_satisfies)
  ultimately show ?thesis using Some by (simp add: window_leaves_def)
qed

lemma empty_from_None:
  "leaves_room w v \<Longrightarrow> list_all (asked_truth (Some v)) (rest @ qs) \<Longrightarrow> list_all (\<lambda>q. comparison_ok (aq_compare q)) qs \<Longrightarrow>
   list_all (\<lambda>q. cm_operator (aq_compare q) \<noteq> Present) rest \<Longrightarrow> empty_from c w rest qs = None"
proof (induction qs arbitrary: w rest)
  case Nil
  then show ?case using window_leaves_None by simp
next
  case (Cons q qs)
  let ?op = "cm_operator (aq_compare q)"
  have q: "asked_truth (Some v) q" "comparison_ok (aq_compare q)" using Cons.prems by simp_all
  show ?case
  proof (cases "?op = Present \<or> aq_negated q")
    case True
    then show ?thesis using Cons by (auto simp: Let_def)
  next
    case False
    then have pos: "\<not> aq_negated q" by simp
    consider "?op = Equals \<or> ?op = OneOf" | "ranged ?op" "\<not> (?op = Equals \<or> ?op = OneOf)" | "\<not> (?op = Equals \<or> ?op = OneOf)" "\<not> ranged ?op"
      by blast
    then show ?thesis
    proof cases
      case 1
      obtain w' where "window_allow c w q = Inr w'" "leaves_room w' v"
        using allow_keeps_room [OF Cons.prems(1) q(1) pos q(2) 1] by blast
      with Cons 1 False show ?thesis by (auto simp: Let_def)
    next
      case 2
      obtain w' where "window_limit c w q = Inr w'" "leaves_room w' v"
        using limit_keeps_room [OF Cons.prems(1) q(1) pos 2(1)] by blast
      with Cons 2 False show ?thesis by (auto simp: Let_def)
    next
      case 3
      with Cons False show ?thesis by (auto simp: Let_def)
    qed
  qed
qed

lemma empty_from_absent:
  "wn_allowed w = None \<Longrightarrow> list_all aq_negated (rest @ qs) \<Longrightarrow> empty_from c w rest qs = None"
proof (induction qs arbitrary: rest)
  case Nil
  then have "conflicting c rest = None" by (induction rest) auto
  with Nil show ?case by (simp add: window_leaves_def)
qed (auto simp: Let_def)

lemma empty_questions_None:
  assumes "list_all (asked_truth held) qs" "list_all (\<lambda>q. comparison_ok (aq_compare q)) qs"
  shows "empty_questions c qs = None"
proof (cases held)
  case None
  then have "list_all aq_negated qs" using assms(1) by (auto simp: asked_truth_def answered_def list_all_iff)
  then show ?thesis by (simp add: empty_questions_def empty_from_absent open_window_def)
next
  case (Some v)
  then show ?thesis using assms empty_from_None [OF leaves_room_open, of v "[]" qs] by (simp add: empty_questions_def)
qed

section \<open>Whatever is refused is constant\<close>

definition asks_true :: "pmessage \<Rightarrow> asked \<Rightarrow> bool" where
  "asks_true m q \<longleftrightarrow> asked_truth (read_path m (cm_path (aq_compare q))) q"

lemma node_directly_true: "truth n m \<Longrightarrow> q \<in> set (node_directly True n) \<Longrightarrow> asks_true m q"
  by (induction n) (auto simp: asks_true_def asked_truth_def list_all_iff split: node.splits)

lemma node_directly_false: "\<not> truth n m \<Longrightarrow> q \<in> set (node_directly False n) \<Longrightarrow> \<not> asks_true m q"
  by (induction n) (auto simp: asks_true_def asked_truth_def list_ex_iff split: node.splits)

lemma node_directly_comparisons: "q \<in> set (node_directly b n) \<Longrightarrow> aq_compare q \<in> set (comparisons n)"
proof (induction n)
  case (Negation n)
  then show ?case by (cases n) auto
qed (fastforce split: if_splits)+

lemma directly_true: "truth (Conjunction ns) m \<Longrightarrow> q \<in> set (directly ns True) \<Longrightarrow> asks_true m q"
  using node_directly_true by (auto simp: directly_def list_all_iff)

lemma directly_false: "\<not> truth (Disjunction ns) m \<Longrightarrow> q \<in> set (directly ns False) \<Longrightarrow> \<not> asks_true m q"
  using node_directly_false by (auto simp: directly_def list_ex_iff)

lemma directly_comparisons: "q \<in> set (directly ns b) \<Longrightarrow> aq_compare q \<in> set (comparisons (Conjunction ns))"
  using node_directly_comparisons by (auto simp: directly_def)

text \<open>Two comparisons that are written alike are one comparison.\<close>

definition written_apart :: "contract \<Rightarrow> node \<Rightarrow> bool" where
  "written_apart c n \<longleftrightarrow>
     (\<forall>k \<in> set (comparisons n). \<forall>k' \<in> set (comparisons n). comparison_string c k = comparison_string c k' \<longrightarrow> k = k')"

lemma opposed_from_Some:
  assumes "opposed_from c r part because polarity qs \<noteq> None"
    and "\<And>w b. lookup polarity w = Some b \<Longrightarrow> \<exists>q \<in> Q. comparison_string c (aq_compare q) = w \<and> aq_negated q = b"
  shows "\<exists>q \<in> Q \<union> set qs. \<exists>q' \<in> Q \<union> set qs.
    comparison_string c (aq_compare q) = comparison_string c (aq_compare q') \<and> aq_negated q \<noteq> aq_negated q'"
  using assms
proof (induction qs arbitrary: polarity Q)
  case (Cons q qs)
  let ?w = "comparison_string c (aq_compare q)"
  show ?case
  proof (cases "\<exists>b. lookup polarity ?w = Some b \<and> b \<noteq> aq_negated q")
    case True
    then obtain q' where "q' \<in> Q" "comparison_string c (aq_compare q') = ?w" "aq_negated q' \<noteq> aq_negated q"
      using Cons.prems(2) by blast
    then show ?thesis by (metis UnCI list.set_intros(1))
  next
    case False
    then have rest: "opposed_from c r part because (AList.update ?w (aq_negated q) polarity) qs \<noteq> None"
      using Cons.prems(1) by (auto simp: Let_def split: option.splits if_splits)
    have "\<exists>p \<in> insert q Q \<union> set qs. \<exists>p' \<in> insert q Q \<union> set qs.
        comparison_string c (aq_compare p) = comparison_string c (aq_compare p') \<and> aq_negated p \<noteq> aq_negated p'"
      using Cons.prems(2) by (intro Cons.IH [OF rest, of "insert q Q"]) (auto split: if_splits)
    then show ?thesis by simp
  qed
qed simp

lemma opposed_apart:
  assumes "opposed c r part qs because \<noteq> None" "written_apart c n" "\<And>q. q \<in> set qs \<Longrightarrow> aq_compare q \<in> set (comparisons n)"
  shows "\<exists>q \<in> set qs. \<exists>q' \<in> set qs. \<forall>m. asks_true m q \<longleftrightarrow> \<not> asks_true m q'"
proof -
  obtain q q' where q: "q \<in> set qs" "q' \<in> set qs" "aq_negated q \<noteq> aq_negated q'"
    "comparison_string c (aq_compare q) = comparison_string c (aq_compare q')"
    using opposed_from_Some [OF assms(1) [unfolded opposed_def], of "{}"] by auto
  then have "aq_compare q = aq_compare q'" using assms(2,3) by (auto simp: written_apart_def)
  with q show ?thesis by (intro bexI [of _ q] bexI [of _ q']) (auto simp: asks_true_def asked_truth_def)
qed

definition node_ok :: "contract \<Rightarrow> node \<Rightarrow> bool" where
  "node_ok c n \<longleftrightarrow> resolved c n \<and> list_all comparison_ok (comparisons n)"

lemma narrowed_empty:
  assumes "narrowed c r part qs \<noteq> None" "\<And>q. q \<in> set qs \<Longrightarrow> aq_compare q \<in> set (comparisons n)" "node_ok c n"
  shows "\<exists>q \<in> set qs. \<not> asks_true m q"
proof (rule ccontr)
  assume "\<not> (\<exists>q \<in> set qs. \<not> asks_true m q)"
  then have all: "asks_true m q" if "q \<in> set qs" for q using that by blast
  obtain f where f: "empty_questions c (filter (\<lambda>q. cm_field (aq_compare q) = f) qs) \<noteq> None"
    using assms(1) by (auto simp: narrowed_def find_Some_iff split: option.splits)
  have "list_all (asked_truth (read_field c m f)) (filter (\<lambda>q. cm_field (aq_compare q) = f) qs)"
    using all assms(2,3) by (force simp: list_all_iff node_ok_def resolved_def asks_true_def read_field_def)
  moreover have "list_all (\<lambda>q. comparison_ok (aq_compare q)) (filter (\<lambda>q. cm_field (aq_compare q) = f) qs)"
    using assms(2,3) by (auto simp: list_all_iff node_ok_def)
  ultimately show False using f empty_questions_None by metis
qed

primrec subnodes :: "node \<Rightarrow> node list" where
  "subnodes (Comparison k) = [Comparison k]"
| "subnodes (Negation n) = Negation n # subnodes n"
| "subnodes (Conjunction ns) = Conjunction ns # concat (map subnodes ns)"
| "subnodes (Disjunction ns) = Disjunction ns # concat (map subnodes ns)"

definition constant_node :: "node \<Rightarrow> bool" where
  "constant_node n \<longleftrightarrow> (\<forall>m. truth n m) \<or> (\<forall>m. \<not> truth n m)"

lemma each_of_Some: "each_of part i fs \<noteq> None \<Longrightarrow> \<exists>f \<in> set fs. \<exists>p. f p \<noteq> None"
proof (induction fs arbitrary: i)
  case (Cons f fs)
  then show ?case by (cases "f (indexed part i)") auto
qed simp

lemma written_apart_terms:
  assumes "written_apart c (Conjunction ns)" "n \<in> set ns" shows "written_apart c n"
  using assms by (auto simp: written_apart_def)

lemma node_ok_terms: "node_ok c (Conjunction ns) \<Longrightarrow> n \<in> set ns \<Longrightarrow> node_ok c n"
  by (auto simp: node_ok_def list_all_iff)

lemma same_comparisons:
  "written_apart c (Disjunction ns) = written_apart c (Conjunction ns)" "node_ok c (Disjunction ns) = node_ok c (Conjunction ns)"
  "written_apart c (Negation n) = written_apart c n" "node_ok c (Negation n) = node_ok c n"
  by (simp_all add: written_apart_def node_ok_def)

lemma satisfiable_refuses:
  "satisfiable c r n part \<noteq> None \<Longrightarrow> written_apart c n \<Longrightarrow> node_ok c n \<Longrightarrow> \<exists>n' \<in> set (subnodes n). constant_node n'"
proof (induction n arbitrary: part)
  case (Conjunction ns)
  let ?qs = "directly ns True"
  consider "opposed c r (part @ ''.all'') ?qs ''can never match'' \<noteq> None" | "narrowed c r (part @ ''.all'') ?qs \<noteq> None"
    | "each_of (part @ ''.all'') 0 (map (satisfiable c r) ns) \<noteq> None"
    using Conjunction.prems(1) by (auto simp: Let_def simp del: or_else_None simp: or_else_def split: option.splits)
  then show ?case
  proof cases
    case 1
    from opposed_apart [OF this Conjunction.prems(2) directly_comparisons [of _ ns True]]
    have "\<not> truth (Conjunction ns) m" for m using directly_true by blast
    then show ?thesis by (auto simp: constant_node_def simp del: truth.simps)
  next
    case 2
    from narrowed_empty [OF this directly_comparisons [of _ ns True] Conjunction.prems(3)]
    have "\<not> truth (Conjunction ns) m" for m using directly_true by blast
    then show ?thesis by (auto simp: constant_node_def simp del: truth.simps)
  next
    case 3
    then obtain n p where "n \<in> set ns" "satisfiable c r n p \<noteq> None" using each_of_Some by fastforce
    with Conjunction written_apart_terms node_ok_terms show ?thesis by fastforce
  qed
next
  case (Disjunction ns)
  note prems = Disjunction.prems [unfolded same_comparisons]
  consider "opposed c r (part @ ''.any'') (directly ns False) ''matches every event'' \<noteq> None"
    | "each_of (part @ ''.any'') 0 (map (satisfiable c r) ns) \<noteq> None"
    using prems(1) by (auto simp: or_else_def split: option.splits)
  then show ?case
  proof cases
    case 1
    from opposed_apart [OF this prems(2) directly_comparisons [of _ ns False]]
    have "truth (Disjunction ns) m" for m using directly_false by blast
    then show ?thesis by (auto simp: constant_node_def simp del: truth.simps)
  next
    case 2
    then obtain n p where "n \<in> set ns" "satisfiable c r n p \<noteq> None" using each_of_Some by fastforce
    with Disjunction prems written_apart_terms node_ok_terms show ?thesis by fastforce
  qed
next
  case (Negation n)
  then show ?case by (auto simp: same_comparisons)
qed simp

section \<open>What compilation gives\<close>

lemma literals_of_length: "literals_of c leaf vs = Inr ls \<Longrightarrow> length ls = length vs"
  by (auto dest!: literals_of_all list_all2_lengthD)

lemma compareOn_ok:
  assumes "compareOn c r w p read = Inr (n, read')" "predicate_ok c class p"
  shows "node_ok c n"
proof -
  obtain path ls where n: "pathOf c (p_field p) = Some path" "literals_of c (last path) (p_values p) = Inr ls"
    "n = Comparison \<lparr>cm_field = p_field p, cm_path = path, cm_operator = p_operator p, cm_literals = ls,
           cm_member = (if p_operator p = OneOf then member_of ls else [])\<rparr>"
    using assms(1) by (auto simp: compareOn_def split: option.splits sum.splits)
  moreover have "p_operator p \<noteq> Present \<Longrightarrow> p_values p \<noteq> []"
    using assms(2) by (auto simp: predicate_ok_def arity_ok_def takes_def split: if_splits)
  ultimately show ?thesis
    using literals_of_length [OF n(2)] by (auto simp: node_ok_def comparison_ok_def)
qed

lemma compile_ok:
  "compile_node c r part e read = Inr (n, read') \<Longrightarrow> list_all (predicate_ok c class) (predicates e) \<Longrightarrow> node_ok c n"
  "compileTerms c r part i es read = Inr (ns, read') \<Longrightarrow> list_all (predicate_ok c class) (concat (map predicates es)) \<Longrightarrow>
   list_all (node_ok c) ns"
proof (induction c r part e read and c r part i es read arbitrary: n read' and ns read' rule: compile_node_compileTerms.induct)
  case (1 c r part p read)
  then show ?case using compareOn_ok by fastforce
next
  case (2 c r part e read)
  then show ?case by (auto simp: same_comparisons split: sum.splits)
next
  case (3 c r part es read)
  then show ?case by (auto simp: node_ok_def list_all_iff split: sum.splits)
next
  case (4 c r part es read)
  then show ?case by (auto simp: node_ok_def list_all_iff split: sum.splits)
next
  case (7 c r part i e es read)
  then show ?case by (fastforce split: sum.splits prod.splits)
qed auto


definition empty_match :: expression where
  "empty_match =
     AllOf [Predicate \<lparr>p_field = ''authentication.attempts'', p_operator = Below, p_values = [NumberValue (Finite 3)]\<rparr>,
            Predicate \<lparr>p_field = ''authentication.attempts'', p_operator = AtLeast, p_values = [NumberValue (Finite 3)]\<rparr>]"

definition empty_node :: node where
  "empty_node = (case compile_node sample_contract sample_rule ''match'' empty_match [] of Inr (n, _) \<Rightarrow> n)"


end
