(* ===== verification/Detection_Detected.thy ===== *)
theory Detection_Detected
  imports Detection_Node Detection_Message Go_Digest
begin

text \<open>
  What a match becomes when it leaves the process (\<^verbatim>\<open>internal/detection/detected.go\<close>, and the records
  of a match in \<^verbatim>\<open>decide.go\<close>). A message here holds the fields the contract declares, so copying one
  without what a producer wrote in undeclared fields is copying it. The results: a detection is named
  by exactly the rule, the revision, the tenant and the events it was decided from, and by nothing of
  when or in which order they arrived.
\<close>

record matched =
  mt_rule :: rule
  mt_evidence :: "evidence list"
  mt_counted :: counted
  mt_correlated :: correlated

definition DetectionSchemaVersion :: int where "DetectionSchemaVersion = 1"

section \<open>Identity\<close>

record sent_event =
  se_agent :: string
  se_event :: string

text \<open>The events of each agent, in the order they were sent in.\<close>

definition byAgent :: "sent_event list \<Rightarrow> (string, string list) go_map" where
  "byAgent sent =
     foldl (\<lambda>m one. AList.update (se_agent one) (lookup_or [] m (se_agent one) @ [se_event one]) m) [] sent"

definition agent_parts :: "(string, string list) go_map \<Rightarrow> string \<Rightarrow> string list" where
  "agent_parts m agent =
     (let events = lookup_or [] m agent in agent # itoa (int (length events)) # sort events)"

definition identity_parts :: "rule_id \<Rightarrow> int \<Rightarrow> string \<Rightarrow> sent_event list \<Rightarrow> string list" where
  "identity_parts rule revised tenant sent =
     [rule, itoa revised, tenant] @ concat (map (agent_parts (byAgent sent)) (sort (keys_of (byAgent sent))))"

definition identify :: "rule_id \<Rightarrow> int \<Rightarrow> string \<Rightarrow> sent_event list \<Rightarrow> string" where
  "identify rule revised tenant sent = digest 16 (frame_all (identity_parts rule revised tenant sent))"

definition sentEvents :: "correlated \<Rightarrow> sent_event list" where
  "sentEvents found = map (\<lambda>s. \<lparr>se_agent = sat_agent s, se_event = sat_event s\<rparr>) (co_stages found)"

definition spansAgents :: "correlated \<Rightarrow> bool" where
  "spansAgents found = list_ex (\<lambda>s. sat_agent s \<noteq> sat_agent (hd (co_stages found))) (co_stages found)"

section \<open>The detection\<close>

text \<open>\<^verbatim>\<open>durationpb.New\<close>: seconds and nanoseconds of one sign.\<close>

definition new_duration :: "duration \<Rightarrow> wire_duration" where
  "new_duration d =
     (if 0 \<le> d then \<lparr>du_seconds = d div second, du_nanos = d mod second\<rparr>
      else \<lparr>du_seconds = - ((- d) div second), du_nanos = - ((- d) mod second)\<rparr>)"

definition bindings :: "binding list \<Rightarrow> wire_grouping list" where
  "bindings group' = map (\<lambda>b. \<lparr>wg_field = b_field b, wg_value = b_value b, wg_absent = b_absent b\<rparr>) group'"

definition correlation_of :: "sequence \<Rightarrow> correlated \<Rightarrow> wire_correlation option" where
  "correlation_of s found =
     (if \<not> Correlates s then None
      else Some \<lparr>wc_window = Some (new_duration (s_within s)), wc_spread = Some (new_duration (co_clock_spread found)),
             wc_stages = map (\<lambda>st. \<lparr>ws_name = sat_name st, ws_event = sat_event st,
                                 ws_time = Some (new_timestamp (sat_at st)), ws_agent = sat_agent st\<rparr>) (co_stages found),
             wc_group = bindings (co_group found)\<rparr>)"

definition aggregated :: "count \<Rightarrow> counted \<Rightarrow> wire_aggregation option" where
  "aggregated counting found =
     (if \<not> Counts counting then None
      else Some \<lparr>wa_count = word_of_int (cd_count found), wa_threshold = word_of_int (c_at_least counting),
             wa_window = Some (new_duration (c_within counting)), wa_first = Some (new_timestamp (cd_first found)),
             wa_saturated = cd_saturated found, wa_group = bindings (cd_group found)\<rparr>)"

definition from_source :: "source \<Rightarrow> source option" where
  "from_source s = (if source_empty s then None else Some s)"

definition decided_rule :: "rule \<Rightarrow> wire_rule" where
  "decided_rule r =
     \<lparr>wr_id = r_id r, wr_revision = word_of_int (r_revision r), wr_name = r_name r, wr_source = from_source (r_source r)\<rparr>"

definition attributed :: "technique \<Rightarrow> technique option" where
  "attributed t = (if technique_empty t then None else Some t)"

definition gathered :: "evidence list \<Rightarrow> wire_evidence list" where
  "gathered seen =
     map (\<lambda>e. \<lparr>we_field = ev_field e, we_operator = operator_text (ev_operator e), we_negated = ev_negated e,
             we_held = ev_held e, we_absent = ev_absent e\<rparr>) seen"

text \<open>
  A match of a rule that correlates is told from its stages, and reading the last of none panics: that
  is \<open>None\<close>.
\<close>

definition event_tenant :: "pmessage \<Rightarrow> string" where
  "event_tenant m = get_string (or_empty (get_message m ''origin'')) ''tenant_id''"

definition event_agent :: "pmessage \<Rightarrow> string" where
  "event_agent m = get_string (or_empty (get_message m ''origin'')) ''agent_id''"

definition event_happened :: "pmessage \<Rightarrow> timestamp option" where
  "event_happened m = get_timestamp (or_empty (get_message m ''time'')) ''event_time''"

definition detected_of ::
  "contract \<Rightarrow> matched \<Rightarrow> string \<Rightarrow> pmessage \<Rightarrow> instant \<Rightarrow> sent_event list \<Rightarrow> pmessage option \<Rightarrow> string list \<Rightarrow> timestamp option \<Rightarrow> detection"
where
  "detected_of c m ruleset ev now sent origin events happened =
     \<lparr>d_id = identify (r_id (mt_rule m)) (r_revision (mt_rule m)) (event_tenant ev) sent,
      d_schema_version = DetectionSchemaVersion, d_rule = Some (decided_rule (mt_rule m)), d_ruleset = ruleset,
      d_severity = lookup_or 0 (severities c) (r_severity (mt_rule m)), d_technique = attributed (r_technique (mt_rule m)),
      d_class = get_enum ev ''event_class'', d_origin = origin, d_source_events = events, d_event_time = happened,
      d_detected_time = Some (new_timestamp now), d_evidence = gathered (mt_evidence m),
      d_aggregation = aggregated (r_count (mt_rule m)) (mt_counted m),
      d_correlation = correlation_of (r_sequence (mt_rule m)) (mt_correlated m)\<rparr>"

definition Detected :: "contract \<Rightarrow> matched \<Rightarrow> string \<Rightarrow> pmessage \<Rightarrow> instant \<Rightarrow> detection option" where
  "Detected c m ruleset ev now =
     (let origin = get_message ev ''origin'' in
      if Correlates (r_sequence (mt_rule m))
      then (let found = mt_correlated m in
            if co_stages found = [] then None
            else let final = last (co_stages found);
                     origin' = (if spansAgents found
                                then Some [(''agent_id'', VString (sat_agent final)), (''tenant_id'', VString (event_tenant ev))]
                                else origin)
                 in Some (detected_of c m ruleset ev now (sentEvents found) origin' (correlated_events found)
                            (Some (new_timestamp (sat_at final)))))
      else Some (detected_of c m ruleset ev now [\<lparr>se_agent = event_agent ev, se_event = get_string ev ''event_id''\<rparr>]
                   origin [get_string ev ''event_id''] (event_happened ev)))"

section \<open>What names a detection\<close>

definition events_of :: "string \<Rightarrow> sent_event list \<Rightarrow> string list" where
  "events_of agent sent = map se_event (filter (\<lambda>s. se_agent s = agent) sent)"

lemma byAgent_snoc:
  "byAgent (sent @ [s]) = AList.update (se_agent s) (lookup_or [] (byAgent sent) (se_agent s) @ [se_event s]) (byAgent sent)"
  by (simp add: byAgent_def)

lemma byAgent_Nil [simp]: "byAgent [] = []"
  by (simp add: byAgent_def)

lemma byAgent_events: "lookup_or [] (byAgent sent) a = events_of a sent"
  by (induction sent rule: rev_induct) (auto simp: byAgent_snoc events_of_def lookup_or_def)

lemma byAgent_keys: "set (keys_of (byAgent sent)) = se_agent ` set sent \<and> distinct (keys_of (byAgent sent))"
  by (induction sent rule: rev_induct) (auto simp: byAgent_snoc dom_update distinct_update)

lemma sorted_agents: "sort (keys_of (byAgent sent)) = sorted_list_of_set (se_agent ` set sent)"
  using byAgent_keys [of sent] by (metis sorted_list_of_set_sort_remdups distinct_remdups_id)

lemma count_events: "Multiset.count (mset (events_of a sent)) e = Multiset.count (mset sent) \<lparr>se_agent = a, se_event = e\<rparr>"
  by (induction sent) (auto simp: events_of_def)

lemma same_events_iff: "mset sent = mset sent' \<longleftrightarrow> (\<forall>a. mset (events_of a sent) = mset (events_of a sent'))"
proof
  assume eq: "\<forall>a. mset (events_of a sent) = mset (events_of a sent')"
  have "Multiset.count (mset sent) s = Multiset.count (mset sent') s" for s
    using eq count_events [of "se_agent s" sent "se_event s"] count_events [of "se_agent s" sent' "se_event s"] by (cases s) simp
  then show "mset sent = mset sent'" by (rule multiset_eqI)
next
  assume "mset sent = mset sent'"
  then show "\<forall>a. mset (events_of a sent) = mset (events_of a sent')"
    by (auto intro!: multiset_eqI simp: count_events)
qed

lemma counted_lists_inject:
  "concat (map (\<lambda>(a, es). a # itoa (int (length es)) # es) gs) = concat (map (\<lambda>(a, es). a # itoa (int (length es)) # es) gs') \<longleftrightarrow>
   gs = gs'"
proof
  show "concat (map (\<lambda>(a, es). a # itoa (int (length es)) # es) gs) =
      concat (map (\<lambda>(a, es). a # itoa (int (length es)) # es) gs') \<Longrightarrow> gs = gs'"
  proof (induction gs arbitrary: gs')
    case Nil
    then show ?case by (cases gs') auto
  next
    case (Cons g gs)
    then obtain h hs where hs: "gs' = h # hs" by (cases gs') (auto split: prod.splits)
    obtain a es b fs where gh: "g = (a, es)" "h = (b, fs)" by fastforce
    from Cons.prems have "a = b" "length es = length fs" by (auto simp: hs gh)
    with Cons.prems Cons.IH [of hs] show ?case by (simp add: hs gh)
  qed
qed simp

lemma agent_parts_all:
  "concat (map (agent_parts (byAgent sent)) (sort (keys_of (byAgent sent)))) =
   concat (map (\<lambda>(a, es). a # itoa (int (length es)) # es)
     (map (\<lambda>a. (a, sort (events_of a sent))) (sorted_list_of_set (se_agent ` set sent))))"
proof -
  have "agent_parts (byAgent sent) = (\<lambda>a. a # itoa (int (length (events_of a sent))) # sort (events_of a sent))"
    by (intro ext) (simp add: agent_parts_def byAgent_events Let_def)
  then show ?thesis by (simp add: sorted_agents comp_def)
qed

lemma sorted_groups_iff:
  "map (\<lambda>a. (a, sort (events_of a sent))) (sorted_list_of_set (se_agent ` set sent)) =
   map (\<lambda>a. (a, sort (events_of a sent'))) (sorted_list_of_set (se_agent ` set sent')) \<longleftrightarrow> mset sent = mset sent'"
  (is "?l = ?r \<longleftrightarrow> _")
proof
  assume eq: "?l = ?r"
  from arg_cong [OF this, of "\<lambda>l. set (map fst l)"] have agents: "se_agent ` set sent = se_agent ` set sent'"
    by (simp add: comp_def)
  have "mset (events_of a sent) = mset (events_of a sent')" for a
  proof (cases "a \<in> se_agent ` set sent")
    case True
    with eq agents have "sort (events_of a sent) = sort (events_of a sent')" by (auto simp: map_eq_conv)
    then show ?thesis by (metis mset_sort)
  next
    case False
    with agents have "events_of a sent = []" "events_of a sent' = []" by (auto simp: events_of_def filter_empty_conv)
    then show ?thesis by simp
  qed
  then show "mset sent = mset sent'" by (simp add: same_events_iff)
next
  assume eq: "mset sent = mset sent'"
  then have "mset (events_of a sent) = mset (events_of a sent')" for a by (simp add: same_events_iff)
  then have "sort (events_of a sent) = sort (events_of a sent')" for a
    by (metis properties_for_sort sorted_sort mset_sort)
  with mset_eq_setD [OF eq] show "?l = ?r" by simp
qed

lemma identity_parts_inject:
  "identity_parts r n t sent = identity_parts r' n' t' sent' \<longleftrightarrow> r = r' \<and> n = n' \<and> t = t' \<and> mset sent = mset sent'"
  unfolding identity_parts_def agent_parts_all by (simp add: counted_lists_inject sorted_groups_iff del: map_map)

text \<open>
  C10. A detection is named by what decided it and by nothing else: two identities are equal exactly when
  rule, revision, tenant and the multiset of events, each by its agent and the identifier that agent gave
  it, are equal, or the truncated digest collides. The order in which the events were told does not count.
\<close>

theorem identify_exact:
  "identify r n t sent = identify r' n' t' sent' \<longleftrightarrow>
     r = r' \<and> n = n' \<and> t = t' \<and> mset sent = mset sent' \<or>
     collides 16 (frame_all (identity_parts r n t sent)) (frame_all (identity_parts r' n' t' sent'))"
proof -
  have "identify r n t sent = identify r' n' t' sent' \<longleftrightarrow> identity_parts r n t sent = identity_parts r' n' t' sent' \<or>
     collides 16 (frame_all (identity_parts r n t sent)) (frame_all (identity_parts r' n' t' sent'))"
    by (auto simp: identify_def collides_def)
  then show ?thesis by (simp add: identity_parts_inject)
qed

end
