(* ===== verification/Detection_Program.thy ===== *)
theory Detection_Program
  imports Detection_Contradiction Detection_Detected Event_Validate
begin

text \<open>
  A rule resolved against the contract and what it decides about an event
  (\<^verbatim>\<open>internal/detection/compile.go\<close>, \<^verbatim>\<open>decide.go\<close>, \<^verbatim>\<open>weight.go\<close>). The size of an encoded
  message is protobuf's: \<open>proto_size\<close> is a parameter. The results: compiling never panics, what compiled
  decides exactly what the rule says, its evidence is enough to decide, and a field can be read back
  from the detection as the event held it.
\<close>

record staged =
  sg_name :: string
  sg_root :: node

record grouping =
  gr_field :: field
  gr_path :: "field_desc list"

record program =
  pg_rule :: rule
  pg_root :: "node option"
  pg_stages :: "staged list"
  pg_fields :: "field list"
  pg_grouped :: "grouping list"

definition program_counts :: "program \<Rightarrow> bool" where
  "program_counts p = Counts (r_count (pg_rule p))"

definition program_correlates :: "program \<Rightarrow> bool" where
  "program_correlates p = (0 < length (pg_stages p))"

definition program_string :: "contract \<Rightarrow> program \<Rightarrow> string" where
  "program_string c p =
     (case pg_root p of
        Some tree \<Rightarrow> node_string c tree
      | None \<Rightarrow>
          ''['' @ join_with '' then '' (map (\<lambda>s. sg_name s @ '': '' @ node_string c (sg_root s)) (pg_stages p)) @ '']'')"

definition stage_names :: "program \<Rightarrow> string list" where
  "stage_names p = map sg_name (pg_stages p)"

section \<open>Compilation\<close>

definition stage_part :: "nat \<Rightarrow> string" where
  "stage_part i = indexed ''sequence.stages'' i @ ''.match''"

fun compile_stages ::
  "contract \<Rightarrow> rule \<Rightarrow> nat \<Rightarrow> stage list \<Rightarrow> field list \<Rightarrow> rule_violation + staged list \<times> field list"
where
  "compile_stages c r i [] read = Inr ([], read)"
| "compile_stages c r i (s # ss) read =
     (case compile_node c r (stage_part i) (st_match s) read of
        Inl v \<Rightarrow> Inl v
      | Inr (tree, read') \<Rightarrow>
          (case satisfiable c r tree (stage_part i) of
             Some v \<Rightarrow> Inl v
           | None \<Rightarrow>
               (case compile_stages c r (Suc i) ss read' of
                  Inl v \<Rightarrow> Inl v
                | Inr (stages, read'') \<Rightarrow> Inr (\<lparr>sg_name = st_name s, sg_root = tree\<rparr> # stages, read''))))"

definition compileMatching :: "contract \<Rightarrow> rule \<Rightarrow> rule_violation + node option \<times> staged list \<times> field list" where
  "compileMatching c r =
     (if \<not> Correlates (r_sequence r)
      then (case compile_node c r ''match'' (r_match r) [] of
              Inl v \<Rightarrow> Inl v
            | Inr (tree, read) \<Rightarrow>
                (case satisfiable c r tree ''match'' of Some v \<Rightarrow> Inl v | None \<Rightarrow> Inr (Some tree, [], read)))
      else (case compile_stages c r 0 (s_stages (r_sequence r)) [] of
              Inl v \<Rightarrow> Inl v
            | Inr (stages, read) \<Rightarrow> Inr (None, stages, read)))"

fun grouped_from :: "contract \<Rightarrow> rule \<Rightarrow> string \<Rightarrow> nat \<Rightarrow> field list \<Rightarrow> rule_violation + grouping list" where
  "grouped_from c r w i [] = Inr []"
| "grouped_from c r w i (f # fs) =
     (case pathOf c f of
        None \<Rightarrow> Inl (rule_violation_of r (indexed w i) ''is not a field the contract declares'')
      | Some path \<Rightarrow>
          (case grouped_from c r w (Suc i) fs of
             Inl v \<Rightarrow> Inl v
           | Inr gs \<Rightarrow> Inr (\<lparr>gr_field = f, gr_path = path\<rparr> # gs)))"

definition rule_group :: "contract \<Rightarrow> rule \<Rightarrow> rule_violation + grouping list" where
  "rule_group c r =
     (if Correlates (r_sequence r) then grouped_from c r ''sequence.group_by'' 0 (s_group_by (r_sequence r))
      else grouped_from c r ''count.group_by'' 0 (c_group_by (r_count r)))"

section \<open>The heaviest detection\<close>

definition MaxDetectionBytes :: nat where "MaxDetectionBytes = 256 * 1024"

definition longestNumber :: nat where "longestNumber = length ''-2.2250738585072014e-308''"
definition longestTruth :: nat where "longestTruth = length ''false''"
definition longestUndeclared :: nat where "longestUndeclared = length ''-2147483648''"
definition longestInstant :: instant where "longestInstant = unix_epoch - 1"

definition longestText :: "field \<Rightarrow> nat" where
  "longestText f = (case LongestText f of Some most \<Rightarrow> most | None \<Rightarrow> MaxEventBytes)"

definition valueAtMost :: "contract \<Rightarrow> field \<Rightarrow> nat" where
  "valueAtMost c f =
     (case KindOf c f of
        Some Truth \<Rightarrow> longestTruth
      | Some Choice \<Rightarrow> foldl max longestUndeclared (map length (ChoicesOf c f))
      | Some Text \<Rightarrow> longestText f
      | _ \<Rightarrow> longestNumber)"

definition heldAtMost :: "contract \<Rightarrow> field \<Rightarrow> nat" where
  "heldAtMost c f =
     (if KindOf c f = Some Text then 4 * longestText f + 2 else valueAtMost c f)"

definition repeated_x :: "nat \<Rightarrow> string" where "repeated_x n = replicate n CHR ''x''"

definition longest_value :: "field \<Rightarrow> string" where "longest_value f = repeated_x (longestText f)"

definition heaviestEvent :: "contract \<Rightarrow> event_class \<Rightarrow> pmessage" where
  "heaviestEvent c class =
     foldl (\<lambda>m f.
         if KindOf c f = Some Text \<and> HasPrefix f ''origin.''
         then (case pathOf c f of None \<Rightarrow> m | Some path \<Rightarrow> place m path (VString (longest_value f)))
         else m)
       [(''event_id'', VString (longest_value ''event_id'')), (''event_class'', VEnum class),
        (''time'', VMessage [(''event_time'', VMessage [(''seconds'', VInt64 (- 1)), (''nanos'', VInt32 999999999)])])]
       (Fields c)"

definition zero_counted :: counted where
  "zero_counted = \<lparr>cd_group = [], cd_count = 0, cd_first = 0, cd_saturated = False\<rparr>"

definition zero_correlated :: correlated where
  "zero_correlated = \<lparr>co_group = [], co_stages = [], co_clock_spread = 0\<rparr>"

definition program_asks :: "program \<Rightarrow> question list" where
  "program_asks p =
     foldl (\<lambda>asked s. node_asks (sg_root s) False asked)
       (case pg_root p of None \<Rightarrow> [] | Some tree \<Rightarrow> node_asks tree False []) (pg_stages p)"

definition heaviest_match :: "contract \<Rightarrow> program \<Rightarrow> matched" where
  "heaviest_match c p =
     (let evidence = map (\<lambda>q. \<lparr>ev_field = qn_field q, ev_operator = qn_operator q, ev_negated = qn_negated q,
                             ev_held = repeated_x (heldAtMost c (qn_field q)), ev_absent = False\<rparr>) (program_asks p);
          group' = map (\<lambda>g. \<lparr>b_field = gr_field g, b_value = repeated_x (valueAtMost c (gr_field g)), b_absent = False\<rparr>) (pg_grouped p)
      in \<lparr>mt_rule = pg_rule p, mt_evidence = evidence,
          mt_counted = (if program_counts p
                        then \<lparr>cd_group = group', cd_count = MaxCount, cd_first = longestInstant, cd_saturated = True\<rparr>
                        else zero_counted),
          mt_correlated = (if \<not> program_counts p \<and> program_correlates p
                           then \<lparr>co_group = group',
                                  co_stages = map (\<lambda>s. \<lparr>sat_name = sg_name s, sat_agent = longest_value ''origin.agent_id'',
                                    sat_event = longest_value ''event_id'', sat_at = longestInstant\<rparr>) (pg_stages p),
                                  co_clock_spread = 2 ^ 63 - 1\<rparr>
                           else zero_correlated)\<rparr>)"

definition Heaviest :: "contract \<Rightarrow> (detection \<Rightarrow> nat) \<Rightarrow> program \<Rightarrow> nat option" where
  "Heaviest c proto_size p =
     map_option proto_size
       (Detected c (heaviest_match c p) (repeated_x MaxEventIDLength) (heaviestEvent c (r_class (pg_rule p))) longestInstant)"

text \<open>\<open>None\<close> is a panic.\<close>

definition Compile :: "contract \<Rightarrow> (detection \<Rightarrow> nat) \<Rightarrow> rule \<Rightarrow> (rule_violation + program) option" where
  "Compile c proto_size r =
     (case rule_Validate c r of
        Some v \<Rightarrow> Some (Inl v)
      | None \<Rightarrow>
     (case compileMatching c r of
        Inl v \<Rightarrow> Some (Inl v)
      | Inr (tree, stages, read) \<Rightarrow>
     (case rule_group c r of
        Inl v \<Rightarrow> Some (Inl v)
      | Inr grouped \<Rightarrow>
          let p = \<lparr>pg_rule = r, pg_root = tree, pg_stages = stages, pg_fields = sort read, pg_grouped = grouped\<rparr> in
     (case Heaviest c proto_size p of
        None \<Rightarrow> None
      | Some heaviest \<Rightarrow>
          if MaxDetectionBytes < heaviest
          then Some (Inl (rule_violation_of r (if Correlates (r_sequence r) then ''sequence'' else ''match'')
                 (''asks so much that a detection of it could encode to '' @ dec_of_nat heaviest @
                  '' bytes, and a detection carries at most '' @ dec_of_nat MaxDetectionBytes)))
          else Some (Inr p)))))"

section \<open>Deciding\<close>

definition evidence_string :: "evidence \<Rightarrow> string" where
  "evidence_string e =
     (let asked = (if ev_negated e then ''not '' @ operator_text (ev_operator e) else operator_text (ev_operator e)) in
      if ev_absent e then ev_field e @ '' '' @ asked @ '', and the event does not carry it''
      else ev_field e @ '' '' @ asked @ '', and the event holds '' @ ev_held e)"

definition satisfied_stages :: "contract \<Rightarrow> program \<Rightarrow> pmessage \<Rightarrow> stages" where
  "satisfied_stages c p m =
     foldl (\<lambda>reached (i, s). if fst (holds c m (sg_root s) False None) then stages_add reached i else reached)
       0 (enumerate 0 (pg_stages p))"

definition gather_stage :: "contract \<Rightarrow> pmessage \<Rightarrow> stages \<Rightarrow> evidence list \<Rightarrow> nat \<times> staged \<Rightarrow> evidence list" where
  "gather_stage c m reached ev = (\<lambda>(i, s).
     if stages_has reached i then the (snd (holds c m (sg_root s) False (Some ev))) else ev)"

definition stages_evidence :: "contract \<Rightarrow> program \<Rightarrow> pmessage \<Rightarrow> stages \<Rightarrow> evidence list" where
  "stages_evidence c p m reached =
     foldl (gather_stage c m reached) [] (enumerate 0 (pg_stages p))"

definition event_class_of :: "pmessage \<Rightarrow> event_class" where
  "event_class_of m = get_enum m ''event_class''"

definition Satisfied :: "contract \<Rightarrow> program \<Rightarrow> pmessage option \<Rightarrow> stages \<times> evidence list" where
  "Satisfied c p ev =
     (case ev of
        None \<Rightarrow> (0, [])
      | Some m \<Rightarrow>
          if event_class_of m \<noteq> r_class (pg_rule p) then (0, [])
          else let reached = satisfied_stages c p m in
            if \<not> stages_any reached then (0, []) else (reached, stages_evidence c p m reached))"

definition Decide :: "contract \<Rightarrow> program \<Rightarrow> pmessage option \<Rightarrow> matched option" where
  "Decide c p ev =
     (case ev of
        None \<Rightarrow> None
      | Some m \<Rightarrow>
          if event_class_of m \<noteq> r_class (pg_rule p) then None
          else if pg_stages p \<noteq> []
          then (case Satisfied c p ev of (reached, evidence) \<Rightarrow>
                  if stages_any reached
                  then Some \<lparr>mt_rule = pg_rule p, mt_evidence = evidence, mt_counted = zero_counted, mt_correlated = zero_correlated\<rparr>
                  else None)
          else (case pg_root p of
                  None \<Rightarrow> None
                | Some tree \<Rightarrow>
                    if \<not> fst (holds c m tree False None) then None
                    else Some \<lparr>mt_rule = pg_rule p, mt_evidence = the (snd (holds c m tree False (Some []))),
                                mt_counted = zero_counted, mt_correlated = zero_correlated\<rparr>))"

definition bound_to :: "pmessage \<Rightarrow> grouping \<Rightarrow> binding" where
  "bound_to m g =
     (case read_path m (gr_path g) of
        None \<Rightarrow> \<lparr>b_field = gr_field g, b_value = [], b_absent = True\<rparr>
      | Some v \<Rightarrow> \<lparr>b_field = gr_field g, b_value = plain (last (gr_path g)) v, b_absent = False\<rparr>)"

definition program_group :: "program \<Rightarrow> pmessage \<Rightarrow> binding list" where
  "program_group p m = map (bound_to m) (pg_grouped p)"

section \<open>What compilation gives\<close>

definition stage_compiled :: "contract \<Rightarrow> rule \<Rightarrow> stage \<Rightarrow> staged \<Rightarrow> bool" where
  "stage_compiled c r s st \<longleftrightarrow>
     sg_name st = st_name s \<and> (\<exists>part read read'. compile_node c r part (st_match s) read = Inr (sg_root st, read'))"

lemma compile_stages_all:
  "compile_stages c r i ss read = Inr (stages, read') \<Longrightarrow> list_all2 (stage_compiled c r) ss stages"
proof (induction c r i ss read arbitrary: stages read' rule: compile_stages.induct)
  case (2 c r i s ss read)
  then obtain tree read1 rest where one: "compile_node c r (stage_part i) (st_match s) read = Inr (tree, read1)"
    "satisfiable c r tree (stage_part i) = None" "compile_stages c r (Suc i) ss read1 = Inr (rest, read')"
    "stages = \<lparr>sg_name = st_name s, sg_root = tree\<rparr> # rest"
    by (auto split: sum.splits option.splits)
  with 2(1) [OF one(1) refl one(2,3)] show ?case by (auto simp: stage_compiled_def)
qed simp

lemma compileMatching_cases:
  assumes "compileMatching c r = Inr (tree, stages, read)"
  obtains (plain) n read' where "\<not> Correlates (r_sequence r)" "tree = Some n" "stages = []"
      "compile_node c r ''match'' (r_match r) [] = Inr (n, read')"
    | (staged) "Correlates (r_sequence r)" "tree = None" "list_all2 (stage_compiled c r) (s_stages (r_sequence r)) stages"
  using assms compile_stages_all
  by (fastforce simp: compileMatching_def split: if_splits sum.splits prod.splits option.splits)

lemma CompileD:
  assumes "Compile c proto_size r = Some (Inr p)"
  shows "rule_Validate c r = None" "pg_rule p = r" "\<exists>read. compileMatching c r = Inr (pg_root p, pg_stages p, read)"
    "rule_group c r = Inr (pg_grouped p)" "\<exists>n \<le> MaxDetectionBytes. Heaviest c proto_size p = Some n"
  using assms
  by (auto simp: Compile_def Let_def split: option.splits sum.splits prod.splits if_splits)

text \<open>A compiled program, as what the rule says of it.\<close>

lemma Compile_cases:
  assumes "Compile c proto_size r = Some (Inr p)"
  obtains (plain) n read' where "\<not> Correlates (r_sequence r)" "pg_root p = Some n" "pg_stages p = []"
      "compile_node c r ''match'' (r_match r) [] = Inr (n, read')" "expression_ok c (r_class r) (r_match r)"
    | (staged) "Correlates (r_sequence r)" "pg_stages p \<noteq> []" "length (pg_stages p) \<le> 8"
      "list_all2 (stage_compiled c r) (s_stages (r_sequence r)) (pg_stages p)"
      "list_all (\<lambda>s. expression_ok c (r_class r) (st_match s)) (s_stages (r_sequence r))"
proof -
  note ok = rule_Validate_matching [OF CompileD(1) [OF assms]]
  obtain read where "compileMatching c r = Inr (pg_root p, pg_stages p, read)" using CompileD(3) [OF assms] ..
  then show ?thesis
  proof (cases rule: compileMatching_cases)
    case (plain n read')
    then show ?thesis using ok that(1) by (auto simp: matching_ok_def)
  next
    case staged
    then have "MinStages \<le> length (pg_stages p)" "length (pg_stages p) \<le> MaxStages"
      using ok list_all2_lengthD [OF staged(3)] by (auto simp: matching_ok_def sequence_ok_def)
    then have "pg_stages p \<noteq> []" "length (pg_stages p) \<le> 8" by (auto simp: MinStages_def MaxStages_def)
    moreover have "list_all (\<lambda>s. expression_ok c (r_class r) (st_match s)) (s_stages (r_sequence r))"
      using ok staged(1) by (auto simp: matching_ok_def sequence_ok_def stage_ok_def list_all_iff)
    ultimately show ?thesis using that(2) staged by blast
  qed
qed

lemma stage_tree:
  assumes "list_all2 (stage_compiled c r) ss stages" "list_all (\<lambda>s. expression_ok c class (st_match s)) ss" "i < length stages"
  obtains part read read' where "compile_node c r part (st_match (ss ! i)) read = Inr (sg_root (stages ! i), read')"
    "expression_ok c class (st_match (ss ! i))"
proof -
  have "stage_compiled c r (ss ! i) (stages ! i)" "i < length ss"
    using assms(1,3) list_all2_lengthD by (auto simp: list_all2_conv_all_nth)
  then show ?thesis using that assms(2) by (auto simp: stage_compiled_def list_all_length)
qed

section \<open>Compiling never panics\<close>

lemma Detected_told: "co_stages (mt_correlated m) \<noteq> [] \<or> \<not> Correlates (r_sequence (mt_rule m)) \<Longrightarrow> Detected c m rs ev now \<noteq> None"
  by (auto simp: Detected_def Let_def)

lemma compile_never_panics: "Compile c proto_size r \<noteq> None"
proof (cases "\<exists>tree stages read grouped. rule_Validate c r = None \<and> compileMatching c r = Inr (tree, stages, read) \<and> rule_group c r = Inr grouped")
  case True
  then obtain tree stages read grouped where ok: "rule_Validate c r = None" "compileMatching c r = Inr (tree, stages, read)"
    "rule_group c r = Inr grouped" by blast
  define p where "p = \<lparr>pg_rule = r, pg_root = tree, pg_stages = stages, pg_fields = sort read, pg_grouped = grouped\<rparr>"
  have "co_stages (mt_correlated (heaviest_match c p)) \<noteq> [] \<or> \<not> Correlates (r_sequence (mt_rule (heaviest_match c p)))"
    using ok(2)
  proof (cases rule: compileMatching_cases)
    case staged
    then have "MinStages \<le> length stages" "\<not> Counts (r_count r)"
      using rule_Validate_matching [OF ok(1)] list_all2_lengthD [OF staged(3)]
      by (auto simp: matching_ok_def sequence_ok_def)
    then show ?thesis
      by (auto simp: heaviest_match_def Let_def p_def program_counts_def program_correlates_def MinStages_def)
  qed (simp add: heaviest_match_def Let_def p_def)
  then have "Heaviest c proto_size p \<noteq> None" using Detected_told by (simp add: Heaviest_def)
  then show ?thesis using ok by (auto simp: Compile_def p_def Let_def split: option.splits)
qed (auto simp: Compile_def split: option.splits sum.splits)

section \<open>A program decides what the rule says\<close>

lemma stages_any_0 [simp]: "\<not> stages_any 0"
  by (simp add: stages_any_def)

lemma reached_has:
  "length ss \<le> 8 \<Longrightarrow>
   stages_has (foldl (\<lambda>reached (i, s). if fst (holds c m (sg_root s) False None) then stages_add reached i else reached)
     0 (enumerate 0 ss)) j \<longleftrightarrow> j < length ss \<and> truth (sg_root (ss ! j)) m"
proof (induction ss rule: rev_induct)
  case (snoc s ss)
  then show ?case
    by (auto simp: enumerate_append_eq holds_truth stages_has_add nth_append less_Suc_eq)
qed simp

lemma satisfied_stages_has:
  "length (pg_stages p) \<le> 8 \<Longrightarrow>
   stages_has (satisfied_stages c p m) i \<longleftrightarrow> i < length (pg_stages p) \<and> truth (sg_root (pg_stages p ! i)) m"
  unfolding satisfied_stages_def by (rule reached_has)

lemma satisfied_any:
  "length (pg_stages p) \<le> 8 \<Longrightarrow>
   stages_any (satisfied_stages c p m) \<longleftrightarrow> list_ex (\<lambda>s. truth (sg_root s) m) (pg_stages p)"
  unfolding stages_any_iff satisfied_stages_has list_ex_length using less_le_trans by blast

lemma Satisfied_class:
  "event_class_of m = r_class (pg_rule p) \<Longrightarrow> fst (Satisfied c p (Some m)) = satisfied_stages c p m"
  by (auto simp: Satisfied_def Let_def stages_any_def)

text \<open>What an expression of the rule means for an event: the stages of one that correlates, or its match.\<close>

definition rule_means :: "contract \<Rightarrow> rule \<Rightarrow> pmessage \<Rightarrow> bool" where
  "rule_means c r m \<longleftrightarrow>
     event_class_of m = r_class r \<and>
     (if Correlates (r_sequence r) then list_ex (\<lambda>s. meaning c m (st_match s)) (s_stages (r_sequence r)) else meaning c m (r_match r))"

lemma stage_truth:
  assumes "list_all2 (stage_compiled c r) ss stages" "list_all (\<lambda>s. expression_ok c class (st_match s)) ss"
    "typed_event c m" "i < length stages"
  shows "truth (sg_root (stages ! i)) m \<longleftrightarrow> meaning c m (st_match (ss ! i))"
proof -
  obtain part read read' where "compile_node c r part (st_match (ss ! i)) read = Inr (sg_root (stages ! i), read')"
    "expression_ok c class (st_match (ss ! i))" by (rule stage_tree [OF assms(1,2,4)])
  then show ?thesis using compile_means(1) assms(3) by (auto simp: expression_ok_def)
qed

lemma decides_means:
  assumes "Compile c proto_size r = Some (Inr p)" "typed_event c m"
  shows "Decide c p (Some m) \<noteq> None \<longleftrightarrow> rule_means c r m"
  using assms(1)
proof (cases rule: Compile_cases)
  case (plain n read')
  have "truth n m = meaning c m (r_match r)"
    using compile_means(1) [OF plain(4), of "r_class r" m] plain(5) assms(2) by (simp add: expression_ok_def)
  then show ?thesis using plain CompileD(2) [OF assms(1)] by (auto simp: Decide_def rule_means_def holds_truth)
next
  case staged
  note len = list_all2_lengthD [OF staged(4)]
  have "list_ex (\<lambda>s. truth (sg_root s) m) (pg_stages p) \<longleftrightarrow> list_ex (\<lambda>s. meaning c m (st_match s)) (s_stages (r_sequence r))"
    using stage_truth [OF staged(4,5) assms(2)] len by (auto simp: list_ex_length)
  then show ?thesis
    using staged(1,2) CompileD(2) [OF assms(1)] Satisfied_class [of m p c] satisfied_any [OF staged(3), of c m]
    by (auto simp: Decide_def rule_means_def split: prod.splits)
qed

text \<open>
  C8. What was compiled from a rule decides, of every event of known types, exactly what the rule says:
  it answers when the event is of the rule's class and the match, or one of the stages of a sequence,
  holds of it as written.
\<close>

theorem decides_as_written:
  assumes "Compile c proto_size r = Some (Inr p)" "typed_event c m"
  shows "Decide c p (Some m) \<noteq> None \<longleftrightarrow> rule_means c r m"
  using assms by (rule decides_means)

section \<open>The evidence is enough\<close>

lemma evidence_covers:
  assumes "i < length ss" "stages_has reached i"
  obtains ev E ys where "holds c m (sg_root (ss ! i)) False (Some ev) = (truth (sg_root (ss ! i)) m, Some E)"
    "foldl (gather_stage c m reached) [] (enumerate 0 ss) = E @ ys"
  using assms
proof (induction ss arbitrary: thesis rule: rev_induct)
  case (snoc s ss)
  let ?f = "gather_stage c m reached"
  define e where "e = foldl ?f [] (enumerate 0 ss)"
  obtain xs where xs: "holds c m (sg_root s) False (Some e) = (truth (sg_root s) m, Some (e @ xs))" by (rule holdsE)
  have step: "foldl ?f [] (enumerate 0 (ss @ [s])) = (if stages_has reached (length ss) then e @ xs else e)"
    using xs by (simp add: enumerate_append_eq e_def gather_stage_def)
  show ?case
  proof (cases "i < length ss")
    case True
    then obtain ev E ys where IH: "holds c m (sg_root (ss ! i)) False (Some ev) = (truth (sg_root (ss ! i)) m, Some E)" "e = E @ ys"
      using snoc.IH [OF _ True snoc.prems(3)] unfolding e_def by blast
    with step have "foldl ?f [] (enumerate 0 (ss @ [s])) = E @ (if stages_has reached (length ss) then ys @ xs else ys)" by simp
    then show ?thesis using snoc.prems(1) IH(1) True by (simp add: nth_append)
  next
    case False
    with snoc.prems(2) have "i = length ss" by simp
    then show ?thesis using snoc.prems(1) [of e "e @ xs" "[]"] xs step snoc.prems(3) by simp
  qed
qed simp

lemma stage_resolved:
  "list_all2 (stage_compiled c r) ss stages \<Longrightarrow> list_all (\<lambda>s. expression_ok c class (st_match s)) ss \<Longrightarrow> i < length stages \<Longrightarrow>
   resolved c (sg_root (stages ! i))"
  by (erule stage_tree, assumption, assumption) (auto simp: expression_ok_def node_ok_def dest: compile_ok(1))

text \<open>
  C13. The evidence a match carries is enough to decide: whatever an event holds elsewhere, if it is of the
  rule's class and holds in the evidence's fields what the matched event held, the rule matches it too.
\<close>

theorem evidence_suffices:
  assumes "Compile c proto_size r = Some (Inr p)" "Decide c p (Some m) = Some found"
    and "event_class_of m' = event_class_of m" "agree_on c (mt_evidence found) m m'"
  shows "Decide c p (Some m') \<noteq> None"
  using assms(1)
proof (cases rule: Compile_cases)
  case (plain n read')
  obtain xs where xs: "holds c m n False (Some []) = (truth n m, Some ([] @ xs))" by (rule holdsE)
  have "resolved c n" using compile_ok(1) [OF plain(4)] plain(5) by (auto simp: expression_ok_def node_ok_def)
  then have "truth n m' = truth n m"
    using settlesD [where m' = m' and ys = "[]", OF resolved_settles xs] assms(2,4) plain(2,3) xs
    by (auto simp: Decide_def split: if_splits)
  then show ?thesis using assms(2,3) plain(2,3) by (auto simp: Decide_def holds_truth split: if_splits)
next
  case staged
  let ?reached = "satisfied_stages c p m"
  have "class": "event_class_of m = r_class (pg_rule p)" and any: "stages_any ?reached"
    and found: "mt_evidence found = stages_evidence c p m ?reached"
    using assms(2) staged(2) by (auto simp: Decide_def Satisfied_def Let_def split: if_splits prod.splits)
  then obtain i where i: "stages_has ?reached i" by (auto simp: stages_any_iff)
  with satisfied_stages_has [OF staged(3)] have i': "i < length (pg_stages p)" "truth (sg_root (pg_stages p ! i)) m" by auto
  obtain ev E ys where "holds c m (sg_root (pg_stages p ! i)) False (Some ev) = (truth (sg_root (pg_stages p ! i)) m, Some E)"
    "mt_evidence found = E @ ys"
    using evidence_covers [OF i'(1) i] found unfolding stages_evidence_def by metis
  with settlesD [OF resolved_settles [OF stage_resolved [OF staged(4,5) i'(1)]]] assms(4)
  have "truth (sg_root (pg_stages p ! i)) m'" using i'(2) by metis
  then have "stages_any (satisfied_stages c p m')"
    using satisfied_any [OF staged(3)] i'(1) by (auto simp: list_ex_length)
  then show ?thesis using "class" assms(3) staged(2) Satisfied_class [of m' p c]
    by (auto simp: Decide_def split: prod.splits)
qed

section \<open>Reading a match back\<close>

definition truly_seen :: "contract \<Rightarrow> pmessage \<Rightarrow> evidence \<Rightarrow> bool" where
  "truly_seen c m e \<longleftrightarrow>
     (\<exists>k negated. pathOf c (cm_field k) = Some (cm_path k) \<and> e = saw c k (read_path m (cm_path k)) negated)"

lemma polar_comparisons: "(k, b) \<in> set (polar n negated) \<Longrightarrow> k \<in> set (comparisons n)"
  by (induction n arbitrary: negated) auto

lemma holds_seen:
  assumes "resolved c n" "list_all (truly_seen c m) ev"
  shows "list_all (truly_seen c m) (the (snd (holds c m n negated (Some ev))))"
proof -
  have "saw c k (read_path m (cm_path k)) b \<in> Collect (truly_seen c m)" if "(k, b) \<in> set (polar n negated)" for k b
    using polar_comparisons [OF that] assms(1) by (auto simp: truly_seen_def resolved_def list_all_iff)
  then have "set (the (snd (holds c m n negated (Some ev)))) \<subseteq> Collect (truly_seen c m)"
    using assms(2) by (intro evidence_asked) (auto simp: list_all_iff)
  then show ?thesis by (auto simp: list_all_iff)
qed

lemma stages_seen:
  assumes "\<And>i. i < length (pg_stages p) \<Longrightarrow> resolved c (sg_root (pg_stages p ! i))"
  shows "list_all (truly_seen c m) (stages_evidence c p m reached)"
  unfolding stages_evidence_def
proof (rule foldl_invariant)
  fix ev x assume "x \<in> set (enumerate 0 (pg_stages p))" and ev: "list_all (truly_seen c m) ev"
  then have "resolved c (sg_root (snd x))" using assms [of "fst x"] by (auto simp: in_set_enumerate_eq)
  from holds_seen [OF this ev] ev show "list_all (truly_seen c m) (gather_stage c m reached ev x)"
    by (auto simp: gather_stage_def split: prod.split)
qed simp

lemma matched_seen:
  assumes "Compile c proto_size r = Some (Inr p)" "Decide c p (Some m) = Some found"
  shows "list_all (truly_seen c m) (mt_evidence found)"
  using assms(1)
proof (cases rule: Compile_cases)
  case (plain n read')
  have "resolved c n" using compile_ok(1) [OF plain(4)] plain(5) by (auto simp: expression_ok_def node_ok_def)
  from holds_seen [OF this, of m "[]" False] show ?thesis
    using assms(2) plain(2,3) by (auto simp: Decide_def split: if_splits)
next
  case staged
  have "mt_evidence found = stages_evidence c p m (satisfied_stages c p m)"
    using assms(2) staged(2) by (auto simp: Decide_def Satisfied_def Let_def split: if_splits prod.splits)
  with stages_seen [OF stage_resolved [OF staged(4,5)]] show ?thesis by simp
qed

text \<open>What a person reads of a field: its value as the event carries it, or nothing.\<close>

definition as_carried :: "contract \<Rightarrow> pmessage \<Rightarrow> field \<Rightarrow> string \<times> bool" where
  "as_carried c m f =
     (case pathOf c f of
        None \<Rightarrow> ([], False)
      | Some path \<Rightarrow> (case read_path m path of None \<Rightarrow> ([], False) | Some v \<Rightarrow> (plain (last path) v, True)))"

lemma KindOf_text: "pathOf c f = Some path \<Longrightarrow> KindOf c f = Some Text \<longleftrightarrow> fd_kind (last path) = StringKind"
  using vocabulary_entry [of c f] by (auto simp: KindOf_def pathOf_def entry_ok_def kind_fits_def numeric_def split: kind.splits)

lemma Unquote_Nil [simp]: "Unquote [] = None"
  by code_simp

lemma seen_carried:
  assumes "truly_seen c m e"
  shows "(carried c (ev_field e) (ev_held e), \<not> ev_absent e) = as_carried c m (ev_field e)"
proof -
  obtain k b where k: "pathOf c (cm_field k) = Some (cm_path k)" "e = saw c k (read_path m (cm_path k)) b"
    using assms by (auto simp: truly_seen_def)
  then show ?thesis
    using KindOf_text [OF k(1)]
    by (auto simp: saw_def carried_def as_carried_def wrote_def leaf_in_def plain_def Unquote_Quote split: option.splits)
qed

text \<open>
  C39. A detection speaks of every field in its evidence, and what is read back from it is what the event
  carried: the text as it was before it was quoted, any other value as the contract writes it, and nothing
  for a field the event did not carry. So a tuning or an alert keyed by a field sees the event's own value.
\<close>

theorem held_as_carried:
  assumes "Compile c proto_size r = Some (Inr p)" "Decide c p (Some m) = Some found"
    and "mt_evidence reported = mt_evidence found" "Detected c reported ruleset m' now = Some d"
    and "f \<in> ev_field ` set (mt_evidence found)"
  shows "HeldIn c d f = as_carried c m f"
proof -
  have d: "d_evidence d = gathered (mt_evidence found)"
    using assms(3,4) by (auto simp: Detected_def detected_of_def Let_def split: if_splits)
  have "\<exists>e \<in> set (gathered (mt_evidence found)). we_field e = f" using assms(5) by (auto simp: gathered_def)
  then obtain e where e: "List.find (\<lambda>e. we_field e = f) (gathered (mt_evidence found)) = Some e"
    by (cases "List.find (\<lambda>e. we_field e = f) (gathered (mt_evidence found))") (auto simp: find_None_iff)
  then have "e \<in> set (gathered (mt_evidence found))" "we_field e = f" by (auto simp: find_Some_iff)
  then obtain seen where seen: "seen \<in> set (mt_evidence found)" "we_held e = ev_held seen" "we_absent e = ev_absent seen" "ev_field seen = f"
    by (auto simp: gathered_def)
  with matched_seen [OF assms(1,2)] have "truly_seen c m seen" by (simp add: list_all_iff)
  from seen_carried [OF this] seen e d show ?thesis by (simp add: HeldIn_def find_held_def)
qed

section \<open>Examples\<close>

lemma compile_accepts:
  assumes "rule_Validate c r = None" "\<not> isl (compileMatching c r)" "\<not> isl (rule_group c r)" "\<And>d. proto_size d \<le> MaxDetectionBytes"
  obtains p where "Compile c proto_size r = Some (Inr p)"
proof -
  have "\<not> MaxDetectionBytes < n" if "Heaviest c proto_size p = Some n" for p n
    using that assms(4) by (auto simp: Heaviest_def not_less)
  then have "\<exists>p. Compile c proto_size r = Some (Inr p)"
    using compile_never_panics [of c proto_size r] assms(1-3)
    by (cases "compileMatching c r"; cases "rule_group c r") (auto simp: Compile_def Let_def split: option.splits)
  then show ?thesis using that by blast
qed

definition few_attempts :: expression where
  "few_attempts =
     NotOf (Predicate \<lparr>p_field = ''authentication.attempts'', p_operator = AtLeast, p_values = [NumberValue (Finite 3)]\<rparr>)"

definition few_rule :: rule where
  "few_rule = sample_rule\<lparr>r_match := few_attempts\<rparr>"

definition few_node :: node where
  "few_node = (case compile_node sample_contract few_rule ''match'' few_attempts [] of Inr (n, _) \<Rightarrow> n)"

lemma few_rule_compiled:
  obtains read where "compile_node sample_contract few_rule ''match'' (r_match few_rule) [] = Inr (few_node, read)"
proof -
  have "\<not> isl (compile_node sample_contract few_rule ''match'' few_attempts [])" by code_simp
  then show ?thesis using that
    by (cases "compile_node sample_contract few_rule ''match'' few_attempts []") (auto simp: few_node_def few_rule_def)
qed

lemma few_rule_plain: "\<not> Correlates (r_sequence few_rule)"
  by (simp add: few_rule_def sample_rule_def Correlates_def)

lemma few_rule_compiles: obtains p where "Compile sample_contract (\<lambda>_. 0) few_rule = Some (Inr p)"
proof (rule compile_accepts)
  obtain read where "compile_node sample_contract few_rule ''match'' (r_match few_rule) [] = Inr (few_node, read)"
    by (rule few_rule_compiled)
  moreover have "Option.is_none (satisfiable sample_contract few_rule few_node ''match'')" by code_simp
  ultimately show "\<not> isl (compileMatching sample_contract few_rule)"
    using few_rule_plain by (auto simp: compileMatching_def Option.is_none_def)
  show "\<not> isl (rule_group sample_contract few_rule)" by code_simp
  show "rule_Validate sample_contract few_rule = None" by code_simp
qed (auto intro: that)

lemma few_rule_means: "rule_means sample_contract few_rule sample_event"
  by code_simp

theorem decides_as_written_witness:
  "\<exists>p. Compile sample_contract (\<lambda>_. 0) few_rule = Some (Inr p) \<and> Decide sample_contract p (Some sample_event) \<noteq> None"
proof -
  obtain p where p: "Compile sample_contract (\<lambda>_. 0) few_rule = Some (Inr p)" by (rule few_rule_compiles)
  then show ?thesis using decides_as_written [OF p sample_event_typed] few_rule_means by blast
qed

lemma matched_evidence:
  assumes "Compile c proto_size r = Some (Inr p)" "Decide c p (Some m) = Some found" "\<not> Correlates (r_sequence r)"
    "compile_node c r ''match'' (r_match r) [] = Inr (n, read)"
  shows "mt_evidence found = the (snd (holds c m n False (Some [])))"
  using assms(1)
proof (cases rule: Compile_cases)
  case (plain n' read')
  then show ?thesis using assms(2,4) by (auto simp: Decide_def split: if_splits)
qed (use assms(3) in simp)

definition other_event :: pmessage where
  "other_event = AList.update ''event_id'' (VString ''evt-0002'') sample_event"

theorem evidence_suffices_witness:
  "\<exists>p found. Compile sample_contract (\<lambda>_. 0) few_rule = Some (Inr p) \<and>
     Decide sample_contract p (Some sample_event) = Some found \<and> Decide sample_contract p (Some other_event) \<noteq> None"
proof -
  obtain p where p: "Compile sample_contract (\<lambda>_. 0) few_rule = Some (Inr p)" by (rule few_rule_compiles)
  obtain found where found: "Decide sample_contract p (Some sample_event) = Some found"
    using decides_means [OF p sample_event_typed] few_rule_means by blast
  obtain read where node: "compile_node sample_contract few_rule ''match'' (r_match few_rule) [] = Inr (few_node, read)"
    by (rule few_rule_compiled)
  have "mt_evidence found = the (snd (holds sample_contract sample_event few_node False (Some [])))"
    by (rule matched_evidence [OF p found few_rule_plain node])
  moreover have "agree_on sample_contract (the (snd (holds sample_contract sample_event few_node False (Some [])))) sample_event other_event"
    by code_simp
  moreover have "event_class_of other_event = event_class_of sample_event" by code_simp
  ultimately show ?thesis using p found evidence_suffices [OF p found] by metis
qed

theorem held_as_carried_witness:
  "\<exists>p found d. Compile sample_contract (\<lambda>_. 0) few_rule = Some (Inr p) \<and>
     Decide sample_contract p (Some sample_event) = Some found \<and> Detected sample_contract found ''set'' sample_event 0 = Some d \<and>
     HeldIn sample_contract d ''authentication.attempts'' = as_carried sample_contract sample_event ''authentication.attempts''"
proof -
  obtain p where p: "Compile sample_contract (\<lambda>_. 0) few_rule = Some (Inr p)" by (rule few_rule_compiles)
  obtain found where found: "Decide sample_contract p (Some sample_event) = Some found"
    using decides_means [OF p sample_event_typed] few_rule_means by blast
  obtain read where node: "compile_node sample_contract few_rule ''match'' (r_match few_rule) [] = Inr (few_node, read)"
    by (rule few_rule_compiled)
  have "mt_rule found = few_rule"
    using found CompileD(2) [OF p] by (auto simp: Decide_def split: if_splits option.splits prod.splits)
  then obtain d where d: "Detected sample_contract found ''set'' sample_event 0 = Some d"
    using Detected_told few_rule_plain by fastforce
  have "mt_evidence found = the (snd (holds sample_contract sample_event few_node False (Some [])))"
    by (rule matched_evidence [OF p found few_rule_plain node])
  moreover have "''authentication.attempts'' \<in> set (map ev_field (the (snd (holds sample_contract sample_event few_node False (Some [])))))"
    by code_simp
  ultimately show ?thesis using p found d held_as_carried [OF p found refl d] by auto
qed

end
