(* ===== verification/Detection_Case.thy ===== *)
theory Detection_Case
  imports Detection_Program
begin

text \<open>
  The cases written beside a rule (\<^verbatim>\<open>internal/detection/check.go\<close>): whether a rule can be asked one,
  the event it describes, and what the rule says about it. The result: the event a case describes
  carries exactly the fields the case names, and a case that passes says what the rule says of that event.
\<close>

datatype expectation = Matches | DoesNotMatch | OtherExpectation string

fun expectation_text :: "expectation \<Rightarrow> string" where
  "expectation_text Matches = ''match''"
| "expectation_text DoesNotMatch = ''no_match''"
| "expectation_text (OtherExpectation s) = s"

definition expectations :: "expectation list" where
  "expectations = [Matches, DoesNotMatch]"

definition Expectations :: "string list" where
  "Expectations = sort (map expectation_text expectations)"

record rule_case =
  rc_name :: string
  rc_description :: string
  rc_expect :: expectation
  rc_event :: "(field, literal_value) go_map"
  rc_evidence :: "field list"
  rc_severity :: severity

record failure =
  fl_rule :: rule_id
  fl_case :: string
  fl_reason :: string

definition failure_error :: "contract \<Rightarrow> failure \<Rightarrow> string" where
  "failure_error c f =
     ''rule '' @ Quote (ct_printable c) (fl_rule f) @ '': case '' @ Quote (ct_printable c) (fl_case f) @ '': '' @ fl_reason f"

section \<open>Whether a rule can be asked a case\<close>

definition carries :: "contract \<Rightarrow> rule \<Rightarrow> string \<Rightarrow> field \<Rightarrow> literal_value \<Rightarrow> rule_violation option" where
  "carries c r w f v =
     (case KindOf c f of
        None \<Rightarrow> refuse r w ''is not a field the contract declares''
      | Some k \<Rightarrow>
          if f = classField then refuse r w ''is the class of the event, which a case takes from the rule it is written for''
          else if \<not> AddressableBy c f (r_class r)
          then refuse r w (''belongs to another class, so a '' @ className c (r_class r) @ '' event does not carry it'')
          else if \<not> fits v k then refuse r w (''holds '' @ kind_text k @ '' and is given '' @ value_string c v)
          else if k = Choice \<and> \<not> names (v_text v) (ChoicesOf c f)
          then refuse r w (''is given '' @ value_string c v @ '', and the contract declares '' @ join_with '', '' (ChoicesOf c f))
          else case literalOf c v (last (the (pathOf c f))) of
            Inl _ \<Rightarrow> refuse r w (''is given '' @ value_string c v @ '', which it cannot hold'')
          | Inr literal \<Rightarrow>
              if zero_value literal
              then refuse r w (''is given '' @ value_string c v @
                '', which no event can be told from carrying nothing: leave the field out to say it is absent'')
              else None)"

fun each_evidence :: "contract \<Rightarrow> rule \<Rightarrow> string \<Rightarrow> nat \<Rightarrow> field list \<Rightarrow> rule_violation option" where
  "each_evidence c r part i [] = None"
| "each_evidence c r part i (f # fs) =
     (if KindOf c f = None then refuse r (indexed (part @ ''.evidence'') i) ''is not a field the contract declares''
      else each_evidence c r part (Suc i) fs)"

definition awaits :: "contract \<Rightarrow> rule \<Rightarrow> string \<Rightarrow> rule_case \<Rightarrow> rule_violation option" where
  "awaits c r part s =
     (if rc_expect s = DoesNotMatch
      then (if severity_text (rc_severity s) \<noteq> []
            then refuse r (part @ ''.severity'') ''is expected of a case that does not match, and only a match carries one''
            else if 0 < length (rc_evidence s)
            then refuse r (part @ ''.evidence'') ''is expected of a case that does not match, and only a match carries any''
            else None)
      else if severity_text (rc_severity s) \<noteq> [] \<and> lookup (severities c) (rc_severity s) = None
      then refuse r (part @ ''.severity'')
             (''is '' @ Quote (ct_printable c) (severity_text (rc_severity s)) @ '', which is not one of low, medium, high, critical'')
      else each_evidence c r part 0 (rc_evidence s))"

definition case_fields :: "rule_case \<Rightarrow> field list" where
  "case_fields s = sort (keys_of (rc_event s))"

fun each_carried :: "contract \<Rightarrow> rule \<Rightarrow> string \<Rightarrow> (field, literal_value) go_map \<Rightarrow> field list \<Rightarrow> rule_violation option" where
  "each_carried c r part given [] = None"
| "each_carried c r part given (f # fs) =
     or_else (carries c r (part @ ''.event.'' @ f) f (the (lookup given f))) (each_carried c r part given fs)"

definition Accepts :: "contract \<Rightarrow> rule \<Rightarrow> string \<Rightarrow> rule_case \<Rightarrow> rule_violation option" where
  "Accepts c r part s =
     or_else (rule_text r (part @ ''.name'') (rc_name s) MaxNameLength True)
     (or_else (rule_text r (part @ ''.description'') (rc_description s) MaxDescriptionLength False)
     (if rc_expect s \<notin> set expectations
      then refuse r (part @ ''.expect'')
             (''is '' @ Quote (ct_printable c) (expectation_text (rc_expect s)) @ '', and a case expects '' @ join_with '' or '' Expectations)
      else if rc_event s = []
      then refuse r (part @ ''.event'') ''carries nothing: a case is an event the rule is asked about''
      else if MaxCaseFields < length (rc_event s)
      then refuse r (part @ ''.event'')
             (''sets '' @ dec_of_nat (length (rc_event s)) @ '' fields, above the ceiling of '' @ dec_of_nat MaxCaseFields)
      else or_else (each_carried c r part (rc_event s) (case_fields s)) (awaits c r part s)))"

section \<open>What the rule says about it\<close>

text \<open>
  A field of another body than the one being described would clear it; a case is accepted only with
  the bodies its rule's class can reach.
\<close>

definition set_field :: "contract \<Rightarrow> rule_case \<Rightarrow> pmessage \<Rightarrow> field \<Rightarrow> pmessage" where
  "set_field c s m f =
     (case pathOf c f of
        None \<Rightarrow> m
      | Some path \<Rightarrow>
          (case literalOf c (the (lookup (rc_event s) f)) (last path) of Inl _ \<Rightarrow> m | Inr literal \<Rightarrow> place m path literal))"

definition describes :: "contract \<Rightarrow> program \<Rightarrow> rule_case \<Rightarrow> pmessage" where
  "describes c p s =
     foldl (set_field c s) (if r_class (pg_rule p) = 0 then [] else [(classField, VEnum (r_class (pg_rule p)))]) (case_fields s)"

definition named :: "field list \<Rightarrow> string list" where
  "named fs = compact (sort fs)"

definition evidenced :: "evidence list \<Rightarrow> string list" where
  "evidenced ev = named (map ev_field ev)"

definition failed :: "program \<Rightarrow> rule_case \<Rightarrow> string \<Rightarrow> failure option" where
  "failed p s reason = Some \<lparr>fl_rule = r_id (pg_rule p), fl_case = rc_name s, fl_reason = reason\<rparr>"

definition Check :: "contract \<Rightarrow> program \<Rightarrow> rule_case \<Rightarrow> failure option" where
  "Check c p s =
     (case Decide c p (Some (describes c p s)) of
        None \<Rightarrow> if rc_expect s = Matches then failed p s ''the rule did not match'' else None
      | Some found \<Rightarrow>
          if rc_expect s \<noteq> Matches
          then failed p s (''the rule matched, on '' @ join_with '', '' (evidenced (mt_evidence found)))
          else if severity_text (rc_severity s) \<noteq> [] \<and> r_severity (mt_rule found) \<noteq> rc_severity s
          then failed p s (''the rule is '' @ severity_text (r_severity (mt_rule found)) @ '' and the case expects '' @ severity_text (rc_severity s))
          else if 0 < length (rc_evidence s) \<and> evidenced (mt_evidence found) \<noteq> named (rc_evidence s)
          then failed p s (''the match is evidenced by '' @ join_with '', '' (evidenced (mt_evidence found)) @
                 '' and the case expects '' @ join_with '', '' (named (rc_evidence s)))
          else None)"

section \<open>Reading what was placed\<close>

text \<open>Two paths that part before either ends.\<close>

fun apart :: "field_desc list \<Rightarrow> field_desc list \<Rightarrow> bool" where
  "apart (a # p) (b # q) = (fd_name a \<noteq> fd_name b \<or> p \<noteq> [] \<and> q \<noteq> [] \<and> apart p q)"
| "apart _ _ = False"

lemma read_path_Nil [simp]: "read_path [] p = None"
  by (cases p rule: list.exhaust; cases "tl p") auto

lemma read_place_same: "path \<noteq> [] \<Longrightarrow> \<not> zero_value v \<Longrightarrow> read_path (place m path v) path = Some v"
  by (induction m path v rule: place.induct) auto

lemma read_place_other: "apart p q \<Longrightarrow> read_path (place m q v) p = read_path m p"
proof (induction m q v arbitrary: p rule: place.induct)
  case (2 m leaf v)
  then show ?case by (cases p rule: list.exhaust; cases "tl p") auto
next
  case (3 m step next' rest v)
  then obtain a p' where p: "p = a # p'" by (cases p) auto
  show ?case
  proof (cases p')
    case Nil
    then show ?thesis using 3 p by auto
  next
    case (Cons b p'')
    then show ?thesis using 3 p by (auto split: option.splits pvalue.splits)
  qed
qed simp

section \<open>Paths of the vocabulary part\<close>

fun walk :: "contract \<Rightarrow> string \<Rightarrow> field_desc list \<Rightarrow> bool" where
  "walk c message [] = False"
| "walk c message [f] = (f \<in> set (ct_fields c message) \<and> fd_kind f \<noteq> MessageKind \<and> fd_kind f \<noteq> GroupKind)"
| "walk c message (f # g # rest) =
     (f \<in> set (ct_fields c message) \<and> (fd_kind f = MessageKind \<or> fd_kind f = GroupKind) \<and> walk c (fd_message f) (g # rest))"

lemma describe_walks:
  assumes "\<And>rest. walk c message rest \<Longrightarrow> walk c (ct_event c) (trail @ rest)"
    and "list_all (\<lambda>(f, h). walk c (ct_event c) (hf_path h)) into"
  shows "list_all (\<lambda>(f, h). walk c (ct_event c) (hf_path h)) (describe c left message pre trail into)"
  using assms
proof (induction left arbitrary: message pre trail into)
  case (Suc left)
  let ?P = "list_all (\<lambda>(f, h). walk c (ct_event c) (hf_path h))"
  show ?case
    unfolding describe.simps
  proof (rule foldl_invariant [where P = ?P])
    fix into :: "(field, held_field) go_map" and f
    assume f: "f \<in> set (ct_fields c message)" and ok: "?P into"
    have deeper: "?P (describe c left (fd_message f) (pre @ fd_name f @ ''.'') (trail @ [f]) into)"
      if "fd_kind f = MessageKind \<or> fd_kind f = GroupKind"
    proof (rule Suc.IH [OF _ ok])
      fix rest assume "walk c (fd_message f) rest"
      then have "walk c message (f # rest)" using f that by (cases rest) auto
      then show "walk c (ct_event c) ((trail @ [f]) @ rest)" using Suc.prems(1) by simp
    qed
    have leaf: "?P (AList.update (pre @ fd_name f) h into)"
      if "leaf_of f (trail @ [f]) = Some h" "fd_kind f \<noteq> MessageKind \<and> fd_kind f \<noteq> GroupKind" for h
      using set_update [of "pre @ fd_name f" h into] ok leaf_of_path [OF that(1)] Suc.prems(1) [of "[f]"] f that(2)
      by (fastforce simp: list_all_iff)
    show "?P
       (if fd_list f \<or> fd_map f then into
        else if fd_kind f = MessageKind \<or> fd_kind f = GroupKind
        then if HasPrefix (fd_message f) ''google.protobuf.'' then into
             else describe c left (fd_message f) (pre @ fd_name f @ ''.'') (trail @ [f]) into
        else case leaf_of f (trail @ [f]) of None \<Rightarrow> into
             | Some h \<Rightarrow> AList.update (pre @ fd_name f) h into)"
      using ok deeper leaf by (simp split: option.split)
  qed (use Suc.prems in simp)
qed simp

lemma pathOf_walk: "pathOf c f = Some path \<Longrightarrow> walk c (ct_event c) path"
  using describe_walks [of c "ct_event c" "[]" "[]" "Suc maxDepth" "[]"]
  by (auto simp: pathOf_def vocabulary_def list_all_iff dest!: map_of_SomeD)

text \<open>Protobuf does not let a message have two fields of one name.\<close>

definition names_distinct :: "contract \<Rightarrow> bool" where
  "names_distinct c \<longleftrightarrow> (\<forall>message. distinct (map fd_name (ct_fields c message)))"

lemma walk_apart: "names_distinct c \<Longrightarrow> walk c message p \<Longrightarrow> walk c message q \<Longrightarrow> p \<noteq> q \<Longrightarrow> apart p q"
proof (induction p arbitrary: message q)
  case (Cons f p)
  then obtain g q' where q: "q = g # q'" by (cases q) auto
  show ?case
  proof (cases "fd_name f = fd_name g")
    case True
    have "f \<in> set (ct_fields c message)" "g \<in> set (ct_fields c message)"
      using Cons.prems(2,3) q by (cases p; cases q'; simp)+
    with True Cons.prems(1) have "f = g" by (metis distinct_map inj_onD names_distinct_def)
    then have "p = [] \<longleftrightarrow> q' = []" using Cons.prems(2,3) q by (cases p; cases q') auto
    moreover have "p \<noteq> q'" using Cons.prems(4) q \<open>f = g\<close> by simp
    moreover have "walk c (fd_message g) p" "walk c (fd_message g) q'" if "p \<noteq> []" "q' \<noteq> []"
      using that Cons.prems(2,3) q \<open>f = g\<close> by (cases p; cases q'; simp)+
    ultimately show ?thesis using Cons.IH [OF Cons.prems(1), of "fd_message g" q'] q by auto
  qed (simp add: q)
qed simp

lemma paths_apart:
  "names_distinct c \<Longrightarrow> pathOf c f = Some p \<Longrightarrow> pathOf c g = Some q \<Longrightarrow> f \<noteq> g \<Longrightarrow> apart p q"
  using walk_apart [OF _ pathOf_walk pathOf_walk] pathOf_ok(2) by metis

section \<open>The event a case describes\<close>

lemma each_carried_None: "each_carried c r part given fs = None \<longleftrightarrow> list_all (\<lambda>f. carries c r (part @ ''.event.'' @ f) f (the (lookup given f)) = None) fs"
  by (induction fs) auto

lemma carriesD:
  assumes "carries c r w f v = None"
  obtains path literal where "pathOf c f = Some path" "literalOf c v (last path) = Inr literal" "\<not> zero_value literal" "f \<noteq> classField"
  using assms by (auto simp: carries_def pathOf_def KindOf_def split: option.splits if_splits sum.splits)

definition given_value :: "contract \<Rightarrow> rule_case \<Rightarrow> field \<Rightarrow> pvalue option" where
  "given_value c s f =
     (case (lookup (rc_event s) f, pathOf c f) of
        (Some v, Some path) \<Rightarrow> (case literalOf c v (last path) of Inl _ \<Rightarrow> None | Inr literal \<Rightarrow> Some literal)
      | _ \<Rightarrow> None)"

definition settable :: "contract \<Rightarrow> rule_case \<Rightarrow> field \<Rightarrow> bool" where
  "settable c s f \<longleftrightarrow>
     f \<noteq> classField \<and>
     (\<exists>v path literal. lookup (rc_event s) f = Some v \<and> pathOf c f = Some path \<and> literalOf c v (last path) = Inr literal \<and>
        \<not> zero_value literal)"

lemma fields_set:
  assumes "names_distinct c" "list_all (settable c s) fs" "pathOf c f = Some path"
  shows "read_path (foldl (set_field c s) m fs) path = (if f \<in> set fs then given_value c s f else read_path m path)"
  using assms(2)
proof (induction fs rule: rev_induct)
  case (snoc g fs)
  obtain v q literal where g: "lookup (rc_event s) g = Some v" "pathOf c g = Some q" "literalOf c v (last q) = Inr literal"
    "\<not> zero_value literal" using snoc.prems by (auto simp: settable_def)
  show ?case
  proof (cases "f = g")
    case True
    then show ?thesis using g assms(3) read_place_same pathOf_ok(1) [OF g(2)]
      by (simp add: set_field_def given_value_def)
  next
    case False
    from read_place_other [OF paths_apart [OF assms(1,3) g(2) False]] show ?thesis
      using snoc False g by (simp add: set_field_def)
  qed
qed simp

lemma Accepts_settable:
  assumes "Accepts c r part s = None" shows "list_all (settable c s) (case_fields s)"
proof -
  have "list_all (\<lambda>f. carries c r (part @ ''.event.'' @ f) f (the (lookup (rc_event s) f)) = None) (case_fields s)"
    using assms by (auto simp: Accepts_def each_carried_None split: if_splits)
  moreover have "\<exists>v. lookup (rc_event s) f = Some v" if "f \<in> set (case_fields s)" for f
    using that by (auto simp: case_fields_def map_of_eq_None_iff [symmetric] simp del: map_of_eq_None_iff) (meson weak_map_of_SomeI)
  ultimately show ?thesis unfolding list_all_iff settable_def by (metis carriesD option.sel)
qed

lemma spelled_plain:
  assumes "spelled path = f" "path \<noteq> []" "CHR ''.'' \<notin> set f" shows "\<exists>leaf. path = [leaf] \<and> fd_name leaf = f"
proof -
  obtain leaf rest where path: "path = leaf # rest" using assms(2) by (cases path) auto
  with assms(1,3) show ?thesis by (cases rest) (auto simp: spelled_def)
qed

lemma class_path:
  assumes "pathOf c classField = Some path" obtains leaf where "path = [leaf]" "fd_name leaf = classField"
  using spelled_plain [OF pathOf_ok(2,1) [OF assms]] that by (auto simp: classField_def)

text \<open>The contract declares the class of an event as an enumeration.\<close>

definition class_declared :: "contract \<Rightarrow> bool" where
  "class_declared c \<longleftrightarrow> KindOf c classField = Some Choice"

lemma described_class:
  assumes "names_distinct c" "class_declared c" "Accepts c r part s = None"
  shows "event_class_of (describes c p s) = r_class (pg_rule p)"
proof -
  obtain path where path: "pathOf c classField = Some path" using assms(2) by (auto simp: class_declared_def KindOf_def pathOf_def)
  then obtain leaf where leaf: "path = [leaf]" "fd_name leaf = classField" by (rule class_path)
  note set' = Accepts_settable [OF assms(3)]
  then have "classField \<notin> set (case_fields s)" by (auto simp: list_all_iff settable_def)
  then have "lookup (describes c p s) classField = lookup (if r_class (pg_rule p) = 0 then [] else [(classField, VEnum (r_class (pg_rule p)))]) classField"
    using fields_set [OF assms(1) set' path] leaf by (simp add: describes_def)
  then show ?thesis by (simp add: event_class_of_def get_enum_def classField_def split: if_splits)
qed

lemma described_field:
  assumes "names_distinct c" "Accepts c r part s = None" "pathOf c f = Some path" "f \<noteq> classField"
  shows "read_path (describes c p s) path = given_value c s f"
proof -
  have "fd_name leaf \<noteq> classField" if "path = [leaf]" for leaf
    using that pathOf_ok(2) [OF assms(3)] assms(4) by (auto simp: spelled_def)
  then have "read_path [(classField, VEnum n)] path = None" for n
    by (cases "([(classField, VEnum n)], path)" rule: read_path.cases) auto
  moreover have "f \<notin> set (case_fields s) \<Longrightarrow> given_value c s f = None"
    by (auto simp: given_value_def case_fields_def image_iff split: option.splits dest!: map_of_SomeD)
  ultimately show ?thesis
    using fields_set [OF assms(1) Accepts_settable [OF assms(2)] assms(3)] by (simp add: describes_def)
qed

lemma literal_fits: "literalOf c v leaf = Inr l \<Longrightarrow> value_fits (fd_kind leaf) l"
  by (auto simp: literalOf_def numberOf_def value_fits_def kind_bounds_def exactly_def Let_def
      split: pkind.splits if_splits option.splits)

lemma vocabulary_valid: "valid_map (vocabulary c)"
proof -
  have "valid_map into \<Longrightarrow> valid_map (describe c left message pre trail into)" for left message pre trail into
  proof (induction left arbitrary: message pre trail into)
    case (Suc left)
    show ?case unfolding describe.simps
      by (rule foldl_invariant [where P = valid_map]) (use Suc in \<open>auto split: option.split\<close>)
  qed simp
  then show ?thesis by (simp add: vocabulary_def del: describe.simps)
qed

lemma described_typed:
  assumes "names_distinct c" "class_declared c" "Accepts c r part s = None"
  shows "typed_event c (describes c p s)"
proof -
  have "value_fits (fd_kind (last path)) v" if path: "pathOf c f = Some path" "read_path (describes c p s) path = Some v" for f path v
  proof (cases "f = classField")
    case True
    with path(1) obtain leaf where leaf: "path = [leaf]" "fd_name leaf = classField" by (auto elim: class_path)
    have "fd_kind leaf = EnumKind"
      using kind_of_path [of c f Choice path] path(1) leaf(1) assms(2) True by (simp add: class_declared_def kind_fits_def)
    moreover have "classField \<notin> set (case_fields s)"
      using Accepts_settable [OF assms(3)] by (auto simp: list_all_iff settable_def)
    ultimately show ?thesis
      using fields_set [OF assms(1) Accepts_settable [OF assms(3)] path(1)] path(2) leaf True
      by (auto simp: describes_def value_fits_def split: if_splits)
  next
    case False
    with described_field [OF assms(1,3) path(1)] path(2) have "given_value c s f = Some v" by metis
    then show ?thesis using path(1) literal_fits by (auto simp: given_value_def split: option.splits sum.splits)
  qed
  then show ?thesis using vocabulary_valid [of c]
    by (fastforce simp: typed_event_def list_all_iff pathOf_def in_set_lookup split: option.splits)
qed

text \<open>
  C40. A case that is accepted and passes holds its rule to its word: the event it describes carries the
  rule's class, exactly what the case gives each field it names and nothing in any other, and it is
  expected to match if and only if the rule, as written, matches it.
\<close>

theorem case_holds_rule:
  assumes "names_distinct c" "class_declared c" "Compile c proto_size r = Some (Inr p)"
    and "Accepts c r part s = None" "Check c p s = None"
  shows "(\<forall>f path. pathOf c f = Some path \<longrightarrow> f \<noteq> classField \<longrightarrow> read_path (describes c p s) path = given_value c s f) \<and>
    event_class_of (describes c p s) = r_class r \<and> (rc_expect s = Matches \<longleftrightarrow> rule_means c r (describes c p s))"
proof -
  have "Decide c p (Some (describes c p s)) \<noteq> None \<longleftrightarrow> rule_means c r (describes c p s)"
    by (rule decides_means [OF assms(3) described_typed [OF assms(1,2,4)]])
  then have "rc_expect s = Matches \<longleftrightarrow> rule_means c r (describes c p s)"
    using assms(5) by (auto simp: Check_def failed_def split: option.splits if_splits)
  then show ?thesis
    using described_field [OF assms(1,4)] described_class [OF assms(1,2,4)] CompileD(2) [OF assms(3)] by simp
qed

section \<open>An example\<close>

definition case_contract :: contract where
  "case_contract = sample_contract\<lparr>ct_fields := (\<lambda>m.
     if m = ''Event''
     then \<lparr>fd_name = classField, fd_kind = EnumKind, fd_list = False, fd_map = False, fd_message = [],
            fd_enum = \<lparr>en_name = ''EventClass'', en_values = [(0, ''EVENT_CLASS_UNSPECIFIED''), (1, ''EVENT_CLASS_AUTHENTICATION'')]\<rparr>,
            fd_oneof = False\<rparr> # ct_fields sample_contract m
     else ct_fields sample_contract m)\<rparr>"

definition password_case :: rule_case where
  "password_case =
     \<lparr>rc_name = ''one password'', rc_description = [], rc_expect = Matches,
      rc_event = [(''authentication.method'', TextValue ''password'')], rc_evidence = [], rc_severity = OtherSeverity []\<rparr>"

definition bare_program :: program where
  "bare_program = \<lparr>pg_rule = few_rule, pg_root = None, pg_stages = [], pg_fields = [], pg_grouped = []\<rparr>"

lemma describes_rule: "pg_rule p = pg_rule q \<Longrightarrow> describes c p s = describes c q s"
  by (simp add: describes_def)

lemma case_rule_compiles: obtains p where "Compile case_contract (\<lambda>_. 0) few_rule = Some (Inr p)"
proof (rule compile_accepts)
  show "\<not> isl (compileMatching case_contract few_rule)" by code_simp
  show "\<not> isl (rule_group case_contract few_rule)" by code_simp
  show "rule_Validate case_contract few_rule = None" by code_simp
qed (auto intro: that)

theorem case_holds_rule_witness:
  "\<exists>p. Compile case_contract (\<lambda>_. 0) few_rule = Some (Inr p) \<and> Check case_contract p password_case = None \<and>
     rule_means case_contract few_rule (describes case_contract p password_case)"
proof -
  obtain p where p: "Compile case_contract (\<lambda>_. 0) few_rule = Some (Inr p)" by (rule case_rule_compiles)
  have named: "names_distinct case_contract"
    by (simp add: names_distinct_def case_contract_def sample_contract_def classField_def)
  have declared: "class_declared case_contract" by code_simp
  have accepted: "Accepts case_contract few_rule ''cases[0]'' password_case = None" by code_simp
  have "describes case_contract p password_case = describes case_contract bare_program password_case"
    by (rule describes_rule) (simp add: CompileD(2) [OF p] bare_program_def)
  moreover have "rule_means case_contract few_rule (describes case_contract bare_program password_case)" by code_simp
  ultimately have "Decide case_contract p (Some (describes case_contract p password_case)) \<noteq> None"
    using decides_means [OF p described_typed [OF named declared accepted]] by simp
  then have "Check case_contract p password_case = None"
    by (auto simp: Check_def password_case_def split: option.splits)
  with case_holds_rule [OF named declared p accepted this] p show ?thesis by (auto simp: password_case_def)
qed

end
