(* ===== verification/Detection_Contract.thy ===== *)
theory Detection_Contract
  imports Detection_Program
begin

text \<open>
  The contract every detection on the backbone meets (\<^verbatim>\<open>internal/detection/contract.go\<close>): each process
  that takes one holds it to this before it acts on it. A repeated message decoded by protobuf has no nil
  elements, so those refusals cannot arise here; \<^verbatim>\<open>contractInstant\<close> is word for word the event contract's
  \<^const>\<open>instant_check\<close>. The result: what an admitted detection is.
\<close>

definition MaxEvidence :: nat where "MaxEvidence = 4096"

definition longestWritten :: "contract \<Rightarrow> nat \<times> nat" where
  "longestWritten c =
     (foldl max 0 (map (heldAtMost c) (Fields c)), foldl max 0 (map (valueAtMost c) (Fields c)))"

definition contractText :: "string \<Rightarrow> string \<Rightarrow> nat \<Rightarrow> bool \<Rightarrow> violation option" where
  "contractText f value limit required =
     (if \<not> ValidString value then violation_of f ''is not UTF-8''
      else if required \<and> TrimSpace value = [] then violation_of f ''is missing''
      else if limit < length value then violation_of f (''is longer than '' @ dec_of_nat limit @ '' bytes'')
      else None)"

definition contractIdentifier :: "string \<Rightarrow> string \<Rightarrow> violation option" where
  "contractIdentifier f value = (if \<not> ValidIdentifier value then violation_of f ''is missing or malformed'' else None)"

text \<open>\<^verbatim>\<open>durationpb\<close>'s own checks: the range of ten thousand years, and \<^verbatim>\<open>AsDuration\<close> saturating at 64 bits.\<close>

definition duration_valid :: "wire_duration \<Rightarrow> bool" where
  "duration_valid d =
     (\<bar>du_seconds d\<bar> \<le> 315576000000 \<and> \<bar>du_nanos d\<bar> < 1000000000 \<and>
      \<not> (0 < du_seconds d \<and> du_nanos d < 0) \<and> \<not> (du_seconds d < 0 \<and> 0 < du_nanos d))"

definition AsDuration :: "wire_duration \<Rightarrow> duration" where
  "AsDuration d = max (- (2 ^ 63)) (min (2 ^ 63 - 1) (du_seconds d * second + du_nanos d))"

definition contractDuration :: "string \<Rightarrow> wire_duration option \<Rightarrow> bool \<Rightarrow> violation option \<times> duration" where
  "contractDuration f value positive =
     (case value of
        None \<Rightarrow> (violation_of f ''is missing'', 0)
      | Some d \<Rightarrow>
          if \<not> duration_valid d then (violation_of f ''is not a representable duration'', 0)
          else if positive \<and> AsDuration d \<le> 0 then (violation_of f ''must be positive'', 0)
          else (None, AsDuration d))"

definition validateDecidingTechnique :: "technique option \<Rightarrow> violation option" where
  "validateDecidingTechnique held =
     (case held of
        None \<Rightarrow> None
      | Some t \<Rightarrow>
          if technique_empty t then None
          else if t_tactic t = [] \<or> t_id t = [] \<or> t_name t = []
          then violation_of ''technique'' ''needs a tactic, an id and a name, or none of the three''
          else if t_tactic t \<notin> set tactics then violation_of ''technique.tactic'' ''is not an ATT&CK enterprise tactic''
          else if \<not> technique_id (t_id t) then violation_of ''technique.id'' ''is not an ATT&CK technique identifier''
          else contractText ''technique.name'' (t_name t) MaxNameLength True)"

definition validateDecidingRule :: "wire_rule option \<Rightarrow> violation option" where
  "validateDecidingRule rule =
     (case rule of
        None \<Rightarrow> violation_of ''rule'' ''is missing''
      | Some r \<Rightarrow>
          if \<not> rule_identifier (wr_id r) \<or> MaxIDLength < length (wr_id r) \<or> versioned (wr_id r)
          then violation_of ''rule.id'' ''is not a stable rule identifier''
          else if wr_revision r = 0 then violation_of ''rule.revision'' ''must be at least 1''
          else or_else (contractText ''rule.name'' (wr_name r) MaxNameLength True)
            (case wr_source r of
               None \<Rightarrow> None
             | Some s \<Rightarrow>
                 if (src_catalogue s = []) \<noteq> (src_identifier s = [])
                 then violation_of ''rule.source'' ''needs a catalogue and an identifier, or neither''
                 else if src_catalogue s = [] then None
                 else if \<not> rule_identifier (src_catalogue s) \<or> MaxIDLength < length (src_catalogue s)
                 then violation_of ''rule.source.catalogue'' ''is not a catalogue identifier''
                 else contractText ''rule.source.identifier'' (src_identifier s) MaxNameLength True))"

definition sourceEvents :: "string list \<Rightarrow> violation option" where
  "sourceEvents ids =
     (if ids = [] then violation_of ''source_event_ids'' ''names no event''
      else if MaxStages < length ids
      then violation_of ''source_event_ids'' (''names '' @ dec_of_nat (length ids) @ '' events and the ceiling is '' @ dec_of_nat MaxStages)
      else case find (\<lambda>(i, s). \<not> ValidIdentifier s) (enumerate 0 ids) of
        None \<Rightarrow> None
      | Some (i, s) \<Rightarrow> violation_of (indexed ''source_event_ids'' i) ''is malformed'')"

abbreviation known_operators :: "string list" where
  "known_operators \<equiv> map operator_text [Equals, OneOf, Contains, StartsWith, EndsWith, Above, AtLeast, Below, AtMost, Present]"

abbreviation addressed :: "contract \<Rightarrow> event_class \<Rightarrow> field \<Rightarrow> bool" where
  "addressed c class f \<equiv> KindOf c f \<noteq> None \<and> AddressableBy c f class"

fun each_seen :: "contract \<Rightarrow> event_class \<Rightarrow> nat \<Rightarrow> wire_evidence list \<Rightarrow> violation option" where
  "each_seen c class i [] = None"
| "each_seen c class i (e # es) =
     (let f = indexed ''evidence'' i in
      if \<not> addressed c class (we_field e) then violation_of (f @ ''.field'') ''is not addressable by this event class''
      else if we_operator e \<notin> set known_operators then violation_of (f @ ''.operator'') ''is not an operator the rule language declares''
      else or_else (contractText (f @ ''.held'') (we_held e) (fst (longestWritten c)) False)
        (if we_absent e \<and> we_held e \<noteq> [] then violation_of (f @ ''.held'') ''is set for an absent field''
         else each_seen c class (Suc i) es))"

definition evidence_check :: "contract \<Rightarrow> wire_evidence list \<Rightarrow> event_class \<Rightarrow> violation option" where
  "evidence_check c found class =
     (if MaxEvidence < length found
      then violation_of ''evidence'' (''carries '' @ dec_of_nat (length found) @ '' entries and the ceiling is '' @ dec_of_nat MaxEvidence)
      else each_seen c class 0 found)"

fun each_grouping :: "contract \<Rightarrow> event_class \<Rightarrow> string \<Rightarrow> nat \<Rightarrow> field list \<Rightarrow> wire_grouping list \<Rightarrow> violation option" where
  "each_grouping c class f i seen [] = None"
| "each_grouping c class f i seen (g # gs) =
     (let part = indexed f i in
      if \<not> addressed c class (wg_field g) then violation_of (part @ ''.field'') ''is not addressable by this event class''
      else if wg_field g \<in> set seen then violation_of (part @ ''.field'') ''is repeated''
      else or_else (contractText (part @ ''.value'') (wg_value g) (snd (longestWritten c)) False)
        (if wg_absent g \<and> wg_value g \<noteq> [] then violation_of (part @ ''.value'') ''is set for an absent field''
         else each_grouping c class f (Suc i) (wg_field g # seen) gs))"

definition groupings :: "contract \<Rightarrow> string \<Rightarrow> wire_grouping list \<Rightarrow> event_class \<Rightarrow> violation option" where
  "groupings c f group' class =
     (if MaxGroupBy < length group'
      then violation_of f (''names '' @ dec_of_nat (length group') @ '' fields and the ceiling is '' @ dec_of_nat MaxGroupBy)
      else each_grouping c class f 0 [] group')"

definition aggregation_check :: "contract \<Rightarrow> wire_aggregation option \<Rightarrow> event_class \<Rightarrow> instant \<Rightarrow> violation option" where
  "aggregation_check c counted class event_time =
     (case counted of
        None \<Rightarrow> None
      | Some a \<Rightarrow>
          if uint (wa_threshold a) < MinCount \<or> MaxCount < uint (wa_threshold a)
          then violation_of ''aggregation.threshold'' (''must be between '' @ itoa MinCount @ '' and '' @ itoa MaxCount)
          else if wa_count a < wa_threshold a \<or> MaxCount < uint (wa_count a)
          then violation_of ''aggregation.count'' ''is below the threshold or above the window ceiling''
          else case contractDuration ''aggregation.window'' (wa_window a) True of
            (Some e, _) \<Rightarrow> Some e
          | (None, window) \<Rightarrow>
              if MaxWithin < window then violation_of ''aggregation.window'' (''is longer than '' @ Duration_String MaxWithin)
              else or_else (instant_check ''aggregation.first_event_time'' (wa_first a))
                (let first = time_of (wa_first a) in
                 if event_time < first \<or> window < time_sub event_time first
                 then violation_of ''aggregation.first_event_time'' ''does not fall inside the aggregation window''
                 else groupings c ''aggregation.group'' (wa_group a) class))"

record told_so_far =
  ts_names :: "string list"
  ts_sent :: "(string \<times> string) list"
  ts_agents :: nat
  ts_first :: instant
  ts_previous :: instant

definition stage_check :: "nat \<Rightarrow> wire_stage \<Rightarrow> string \<Rightarrow> told_so_far \<Rightarrow> violation option" where
  "stage_check i s source t =
     (let f = indexed ''correlation.stages'' i in
      or_else (contractText (f @ ''.name'') (ws_name s) MaxStageLength True)
      (if ws_name s \<in> set (ts_names t) then violation_of (f @ ''.name'') ''is repeated''
       else if ws_event s \<noteq> source then violation_of (f @ ''.event_id'') ''does not match source_event_ids''
       else if ws_agent s \<noteq> [] \<and> \<not> agentidentity_Valid (ws_agent s) then violation_of (f @ ''.agent_id'') ''is not an agent identity''
       else if (ws_agent s, ws_event s) \<in> set (ts_sent t) then violation_of (f @ ''.event_id'') ''names an event another stage names''
       else or_else (instant_check (f @ ''.event_time'') (ws_time s))
         (if 0 < i \<and> time_of (ws_time s) < ts_previous t then violation_of (f @ ''.event_time'') ''is before the previous stage''
          else None)))"

definition stage_told :: "nat \<Rightarrow> wire_stage \<Rightarrow> told_so_far \<Rightarrow> told_so_far" where
  "stage_told i s t =
     \<lparr>ts_names = ws_name s # ts_names t, ts_sent = (ws_agent s, ws_event s) # ts_sent t,
      ts_agents = (if ws_agent s \<noteq> [] then Suc (ts_agents t) else ts_agents t),
      ts_first = (if i = 0 then time_of (ws_time s) else ts_first t), ts_previous = time_of (ws_time s)\<rparr>"

fun each_told :: "nat \<Rightarrow> wire_stage list \<Rightarrow> string list \<Rightarrow> told_so_far \<Rightarrow> violation + told_so_far" where
  "each_told i [] ids t = Inr t"
| "each_told i (s # ss) ids t =
     (case stage_check i s (ids ! i) t of Some e \<Rightarrow> Inl e | None \<Rightarrow> each_told (Suc i) ss ids (stage_told i s t))"

definition correlation_check ::
  "contract \<Rightarrow> wire_correlation option \<Rightarrow> event_class \<Rightarrow> string list \<Rightarrow> instant \<Rightarrow> string \<Rightarrow> violation option"
where
  "correlation_check c told class ids event_time about =
     (case told of
        None \<Rightarrow> if length ids \<noteq> 1 then violation_of ''source_event_ids'' ''must name one event for an uncorrelated detection'' else None
      | Some w \<Rightarrow>
          if length (wc_stages w) < MinStages \<or> MaxStages < length (wc_stages w)
          then violation_of ''correlation.stages'' (''must name between '' @ dec_of_nat MinStages @ '' and '' @ dec_of_nat MaxStages @ '' stages'')
          else if length ids \<noteq> length (wc_stages w) then violation_of ''source_event_ids'' ''does not match the correlated stages''
          else case contractDuration ''correlation.window'' (wc_window w) True of
            (Some e, _) \<Rightarrow> Some e
          | (None, window) \<Rightarrow>
          if MaxWithin < window then violation_of ''correlation.window'' (''is longer than '' @ Duration_String MaxWithin)
          else case contractDuration ''correlation.clock_spread'' (wc_spread w) False of
            (Some e, _) \<Rightarrow> Some e
          | (None, spread) \<Rightarrow>
          if spread < 0 then violation_of ''correlation.clock_spread'' ''is negative''
          else case each_told 0 (wc_stages w) ids \<lparr>ts_names = [], ts_sent = [], ts_agents = 0, ts_first = 0, ts_previous = 0\<rparr> of
            Inl e \<Rightarrow> Some e
          | Inr t \<Rightarrow>
              if ts_previous t \<noteq> event_time then violation_of ''event_time'' ''does not equal the last correlated stage''
              else if ts_agents t \<noteq> 0 \<and> ts_agents t \<noteq> length (wc_stages w)
              then violation_of ''correlation.stages'' ''name the agent of some of their events and not of the others''
              else if ts_agents t \<noteq> 0 \<and> about \<noteq> ws_agent (last (wc_stages w))
              then violation_of ''origin.agent_id'' ''is not the agent of the last stage''
              else if window < time_sub (ts_previous t) (ts_first t)
              then violation_of ''correlation.stages'' ''span longer than the correlation window''
              else groupings c ''correlation.group'' (wc_group w) class)"

definition detection_ValidateContract :: "contract \<Rightarrow> (detection \<Rightarrow> nat) \<Rightarrow> detection option \<Rightarrow> violation option" where
  "detection_ValidateContract c proto_size made =
     (case made of
        None \<Rightarrow> violation_of ''detection'' ''is missing''
      | Some d \<Rightarrow>
          if MaxDetectionBytes < proto_size d
          then violation_of ''detection'' (''encodes to '' @ dec_of_nat (proto_size d) @ '' bytes and the ceiling is '' @ dec_of_nat MaxDetectionBytes)
          else or_else (contractIdentifier ''detection_id'' (d_id d))
          (if d_schema_version d \<noteq> DetectionSchemaVersion
           then violation_of ''schema_version'' (''must be '' @ itoa DetectionSchemaVersion)
           else or_else (validateDecidingRule (d_rule d))
          (or_else (contractIdentifier ''ruleset_id'' (d_ruleset d))
          (or_else (declared_check ''severity'' (d_severity d) (ct_severity_name c))
          (or_else (validateDecidingTechnique (d_technique d))
          (or_else (declared_check ''event_class'' (d_class d) (ct_class_name c))
          (or_else (ValidateOrigin (d_origin d))
          (or_else (sourceEvents (d_source_events d))
          (or_else (instant_check ''event_time'' (d_event_time d))
          (or_else (instant_check ''detected_time'' (d_detected_time d))
          (or_else (evidence_check c (d_evidence d) (d_class d))
          (if d_aggregation d \<noteq> None \<and> d_correlation d \<noteq> None
           then violation_of ''detection'' ''carries both an aggregation and a correlation''
           else or_else (aggregation_check c (d_aggregation d) (d_class d) (time_of (d_event_time d)))
             (correlation_check c (d_correlation d) (d_class d) (d_source_events d) (time_of (d_event_time d)) (detection_agent d))))))))))))))"

section \<open>What an admitted detection is\<close>

lemma each_told_Cons:
  "each_told i (s # ss) ids t = Inr t' \<longleftrightarrow> stage_check i s (ids ! i) t = None \<and> each_told (Suc i) ss ids (stage_told i s t) = Inr t'"
  by (simp split: option.splits)

lemma stage_check_None:
  "stage_check i s source t = None \<Longrightarrow>
     ws_name s \<notin> set (ts_names t) \<and> ws_event s = source \<and> (ws_agent s \<noteq> [] \<longrightarrow> agentidentity_Valid (ws_agent s)) \<and>
     (ws_agent s, ws_event s) \<notin> set (ts_sent t) \<and> (0 < i \<longrightarrow> ts_previous t \<le> time_of (ws_time s))"
  by (auto simp: stage_check_def Let_def split: if_splits)

lemma each_told_events:
  "each_told i ss ids t = Inr t' \<Longrightarrow> i + length ss \<le> length ids \<Longrightarrow> map ws_event ss = take (length ss) (drop i ids)"
proof (induction ss arbitrary: i t)
  case (Cons s ss)
  then have "map ws_event ss = take (length ss) (drop (Suc i) ids)" "ws_event s = ids ! i"
    by (auto simp: each_told_Cons simp del: each_told.simps dest: stage_check_None)
  moreover have "drop i ids = ids ! i # drop (Suc i) ids" using Cons.prems(2) by (simp add: Cons_nth_drop_Suc)
  ultimately show ?case by simp
qed simp

lemma each_told_seen:
  "each_told i ss ids t = Inr t' \<Longrightarrow> distinct (ts_names t) \<Longrightarrow> distinct (ts_sent t) \<Longrightarrow>
     distinct (ts_names t') \<and> distinct (ts_sent t') \<and> ts_names t' = rev (map ws_name ss) @ ts_names t \<and>
     ts_sent t' = rev (map (\<lambda>s. (ws_agent s, ws_event s)) ss) @ ts_sent t"
proof (induction ss arbitrary: i t)
  case (Cons s ss)
  then have a: "stage_check i s (ids ! i) t = None" "each_told (Suc i) ss ids (stage_told i s t) = Inr t'"
    by (simp_all add: each_told_Cons del: each_told.simps)
  have "distinct (ts_names (stage_told i s t))" "distinct (ts_sent (stage_told i s t))"
    using stage_check_None [OF a(1)] Cons.prems(2,3) by (auto simp: stage_told_def)
  from Cons.IH [OF a(2) this] show ?case by (auto simp: stage_told_def simp del: distinct_append)
qed simp

lemma each_told_agents:
  "each_told i ss ids t = Inr t' \<Longrightarrow>
     ts_agents t' = ts_agents t + length (filter (\<lambda>s. ws_agent s \<noteq> []) ss) \<and>
     list_all (\<lambda>s. ws_agent s \<noteq> [] \<longrightarrow> agentidentity_Valid (ws_agent s)) ss"
proof (induction ss arbitrary: i t)
  case (Cons s ss)
  then have a: "stage_check i s (ids ! i) t = None" "each_told (Suc i) ss ids (stage_told i s t) = Inr t'"
    by (simp_all add: each_told_Cons del: each_told.simps)
  show ?case using Cons.IH [OF a(2)] stage_check_None [OF a(1)] by (simp add: stage_told_def)
qed simp

abbreviation stage_times :: "wire_stage list \<Rightarrow> instant list" where
  "stage_times \<equiv> map (\<lambda>s. time_of (ws_time s))"

lemma each_told_later:
  "each_told i ss ids t = Inr t' \<Longrightarrow> 0 < i \<Longrightarrow>
     sorted (ts_previous t # stage_times ss) \<and> ts_previous t' = last (ts_previous t # stage_times ss) \<and> ts_first t' = ts_first t"
proof (induction ss arbitrary: i t)
  case (Cons s ss)
  then have a: "stage_check i s (ids ! i) t = None" "each_told (Suc i) ss ids (stage_told i s t) = Inr t'"
    by (simp_all add: each_told_Cons del: each_told.simps)
  show ?case using Cons.IH [OF a(2)] stage_check_None [OF a(1)] Cons.prems(2) by (auto simp: stage_told_def)
qed simp

lemma each_told_times:
  assumes "each_told 0 ss ids t = Inr t'" "ss \<noteq> []"
  shows "sorted (stage_times ss) \<and> ts_previous t' = last (stage_times ss) \<and> ts_first t' = hd (stage_times ss)"
proof -
  obtain s r where ss: "ss = s # r" using assms(2) by (cases ss) auto
  then have "each_told (Suc 0) r ids (stage_told 0 s t) = Inr t'" using assms(1) by (simp add: each_told_Cons del: each_told.simps)
  from each_told_later [OF this] show ?thesis by (simp add: ss stage_told_def)
qed

lemma each_grouping_distinct:
  "each_grouping c class f i seen gs = None \<Longrightarrow>
     distinct (map wg_field gs) \<and> set (map wg_field gs) \<inter> set seen = {} \<and> list_all (\<lambda>g. addressed c class (wg_field g)) gs"
proof (induction gs arbitrary: i seen)
  case (Cons g gs)
  then have g: "addressed c class (wg_field g)" "wg_field g \<notin> set seen" and gs: "each_grouping c class f (Suc i) (wg_field g # seen) gs = None"
    by (auto simp: Let_def split: if_splits)
  show ?case using g Cons.IH [OF gs] by auto
qed simp

lemma within_exact: "time_sub t u \<le> w \<Longrightarrow> w \<le> MaxWithin \<Longrightarrow> t - u \<le> w"
  by (auto simp: time_sub_def MaxWithin_def max_duration_def min_duration_def duration_units min_def max_def split: if_splits)

definition groups_ok :: "contract \<Rightarrow> event_class \<Rightarrow> wire_grouping list \<Rightarrow> bool" where
  "groups_ok c class gs \<longleftrightarrow>
     length gs \<le> MaxGroupBy \<and> distinct (map wg_field gs) \<and> list_all (\<lambda>g. addressed c class (wg_field g)) gs"

definition count_ok :: "contract \<Rightarrow> detection \<Rightarrow> wire_aggregation \<Rightarrow> bool" where
  "count_ok c d a \<longleftrightarrow>
     MinCount \<le> uint (wa_threshold a) \<and> uint (wa_threshold a) \<le> uint (wa_count a) \<and> uint (wa_count a) \<le> MaxCount \<and>
     (\<exists>w. wa_window a = Some w \<and> 0 < AsDuration w \<and> AsDuration w \<le> MaxWithin \<and>
        time_of (wa_first a) \<le> time_of (d_event_time d) \<and> time_of (d_event_time d) \<le> time_of (wa_first a) + AsDuration w) \<and>
     groups_ok c (d_class d) (wa_group a)"

definition story_ok :: "contract \<Rightarrow> detection \<Rightarrow> wire_correlation \<Rightarrow> bool" where
  "story_ok c d w \<longleftrightarrow>
     MinStages \<le> length (wc_stages w) \<and> length (wc_stages w) \<le> MaxStages \<and>
     map ws_event (wc_stages w) = d_source_events d \<and> distinct (map ws_name (wc_stages w)) \<and>
     distinct (map (\<lambda>s. (ws_agent s, ws_event s)) (wc_stages w)) \<and>
     sorted (stage_times (wc_stages w)) \<and> last (stage_times (wc_stages w)) = time_of (d_event_time d) \<and>
     (\<exists>v. wc_window w = Some v \<and> 0 < AsDuration v \<and> AsDuration v \<le> MaxWithin \<and>
        last (stage_times (wc_stages w)) \<le> hd (stage_times (wc_stages w)) + AsDuration v) \<and>
     (list_all (\<lambda>s. ws_agent s = []) (wc_stages w) \<or>
      list_all (\<lambda>s. agentidentity_Valid (ws_agent s)) (wc_stages w) \<and> ws_agent (last (wc_stages w)) = detection_agent d) \<and>
     groups_ok c (d_class d) (wc_group w)"

lemma groupings_ok: "groupings c f gs class = None \<Longrightarrow> groups_ok c class gs"
  using each_grouping_distinct [where gs = gs and seen = "[]" and i = 0] by (auto simp: groupings_def groups_ok_def split: if_splits)

lemma contractDuration_None:
  "contractDuration f v True = (None, w) \<Longrightarrow> \<exists>d. v = Some d \<and> w = AsDuration d \<and> 0 < w"
  by (auto simp: contractDuration_def violation_of_def split: option.splits if_splits)

lemma aggregation_check_ok:
  assumes "aggregation_check c (Some a) (d_class d) (time_of (d_event_time d)) = None"
  shows "count_ok c d a"
proof -
  obtain e w where w: "contractDuration ''aggregation.window'' (wa_window a) True = (e, w)" by fastforce
  have n: "MinCount \<le> uint (wa_threshold a)" "\<not> wa_count a < wa_threshold a" "uint (wa_count a) \<le> MaxCount" and e: "e = None"
    and m: "w \<le> MaxWithin" "time_of (wa_first a) \<le> time_of (d_event_time d)"
      "time_sub (time_of (d_event_time d)) (time_of (wa_first a)) \<le> w"
    and g: "groupings c ''aggregation.group'' (wa_group a) (d_class d) = None"
    using assms w by (auto simp: aggregation_check_def Let_def split: if_splits option.splits)
  from contractDuration_None [OF w [unfolded e]] within_exact [OF m(3,1)] m(1,2) n groupings_ok [OF g]
  show ?thesis by (auto simp: count_ok_def word_less_alt)
qed

lemma agents_all_or_none:
  assumes "length (filter (\<lambda>s. ws_agent s \<noteq> []) ss) = 0 \<or> length (filter (\<lambda>s. ws_agent s \<noteq> []) ss) = length ss"
    "list_all (\<lambda>s. ws_agent s \<noteq> [] \<longrightarrow> agentidentity_Valid (ws_agent s)) ss"
  shows "list_all (\<lambda>s. ws_agent s = []) ss \<or>
    length (filter (\<lambda>s. ws_agent s \<noteq> []) ss) \<noteq> 0 \<and> list_all (\<lambda>s. agentidentity_Valid (ws_agent s)) ss"
proof (cases "filter (\<lambda>s. ws_agent s \<noteq> []) ss = []")
  case True
  then show ?thesis by (simp add: filter_empty_conv list_all_iff)
next
  case False
  then have "length (filter (\<lambda>s. ws_agent s \<noteq> []) ss) = length ss" using assms(1) by simp
  then have "ws_agent s \<noteq> []" if "s \<in> set ss" for s
    using length_filter_less [OF that, of "\<lambda>s. ws_agent s \<noteq> []"] by (cases "ws_agent s = []") simp_all
  then show ?thesis using False assms(2) by (simp add: list_all_iff)
qed

lemma correlation_check_ok:
  assumes "correlation_check c (Some w) (d_class d) (d_source_events d) (time_of (d_event_time d)) (detection_agent d) = None"
  shows "story_ok c d w"
proof -
  let ?t0 = "\<lparr>ts_names = [], ts_sent = [], ts_agents = 0, ts_first = 0, ts_previous = 0\<rparr>" and ?ss = "wc_stages w"
  obtain e v where v: "contractDuration ''correlation.window'' (wc_window w) True = (e, v)" by fastforce
  obtain e' u where u: "contractDuration ''correlation.clock_spread'' (wc_spread w) False = (e', u)" by fastforce
  have n: "MinStages \<le> length ?ss" "length ?ss \<le> MaxStages" "length (d_source_events d) = length ?ss" "e = None" "e' = None" "v \<le> MaxWithin"
    using assms v u by (auto simp: correlation_check_def split: if_splits option.splits)
  obtain t where t: "each_told 0 ?ss (d_source_events d) ?t0 = Inr t"
    using assms v u n by (auto simp: correlation_check_def split: if_splits sum.splits)
  have r: "ts_previous t = time_of (d_event_time d)" "ts_agents t = 0 \<or> ts_agents t = length ?ss"
    "ts_agents t \<noteq> 0 \<longrightarrow> detection_agent d = ws_agent (last ?ss)" "time_sub (ts_previous t) (ts_first t) \<le> v"
    "groupings c ''correlation.group'' (wc_group w) (d_class d) = None"
    using assms v u n t by (auto simp: correlation_check_def split: if_splits)
  have ne: "?ss \<noteq> []" using n(1) by (auto simp: MinStages_def)
  note times = each_told_times [OF t ne] and seen = each_told_seen [OF t] and agents = each_told_agents [OF t]
  have "map ws_event ?ss = d_source_events d" using each_told_events [OF t] n(3) by simp
  moreover have "distinct (map ws_name ?ss)" "distinct (map (\<lambda>s. (ws_agent s, ws_event s)) ?ss)"
    using seen distinct_rev by (simp_all, metis+)
  moreover have "list_all (\<lambda>s. ws_agent s = []) ?ss \<or>
      list_all (\<lambda>s. agentidentity_Valid (ws_agent s)) ?ss \<and> ws_agent (last ?ss) = detection_agent d"
    using agents_all_or_none [of ?ss] agents r(2,3) by auto
  moreover have "last (stage_times ?ss) - hd (stage_times ?ss) \<le> v"
    using within_exact [OF r(4) n(6)] times by simp
  ultimately show ?thesis
    using n r times contractDuration_None [OF v [unfolded n(4)]] groupings_ok [OF r(5)] by (auto simp: story_ok_def)
qed

text \<open>
  C12. What the contract admits is well-formed: a detection carries a count or a story and not both. A count has
  reached its threshold, is within the ceiling, and began within its window of the event that completed it.
  A detection that tells no story names exactly one event. A story's stages are the source events in order,
  under names of their own and no event of an agent twice, in order of time, the last at the detection's own
  time and no further from the first than the window; and its events name their agents all or none, the last
  of them the agent the detection is about.
\<close>

theorem admitted_detection:
  assumes "detection_ValidateContract c proto_size (Some d) = None"
  shows "(d_aggregation d = None \<or> d_correlation d = None) \<and>
    (\<forall>a. d_aggregation d = Some a \<longrightarrow> count_ok c d a) \<and>
    (case d_correlation d of None \<Rightarrow> length (d_source_events d) = 1 | Some w \<Rightarrow> story_ok c d w)"
proof -
  have both: "d_aggregation d = None \<or> d_correlation d = None"
    and counted: "aggregation_check c (d_aggregation d) (d_class d) (time_of (d_event_time d)) = None"
    and told: "correlation_check c (d_correlation d) (d_class d) (d_source_events d) (time_of (d_event_time d)) (detection_agent d) = None"
    using assms by (auto simp: detection_ValidateContract_def split: if_splits)
  show ?thesis
  proof (cases "d_correlation d")
    case None
    then have "length (d_source_events d) = 1" using told by (auto simp: correlation_check_def split: if_splits)
    then show ?thesis using None counted aggregation_check_ok by auto
  next
    case (Some w)
    then show ?thesis using both told correlation_check_ok by auto
  qed
qed

definition stage_at :: "string \<Rightarrow> string \<Rightarrow> int \<Rightarrow> wire_stage" where
  "stage_at name event n = \<lparr>ws_name = name, ws_event = event, ws_time = Some \<lparr>ts_seconds = n, ts_nanos = 0\<rparr>, ws_agent = ''web-01''\<rparr>"

definition sample_detection :: detection where
  "sample_detection =
     \<lparr>d_id = ''det-0001'', d_schema_version = 1,
      d_rule = Some \<lparr>wr_id = ''guessed_password'', wr_revision = 1, wr_name = ''Guessed'', wr_source = None\<rparr>,
      d_ruleset = ''set'', d_severity = 3, d_technique = None, d_class = 1,
      d_origin = Some [(''agent_id'', VString ''web-01''), (''tenant_id'', VString ''acme'')],
      d_source_events = [''evt-0001'', ''evt-0002''],
      d_event_time = Some \<lparr>ts_seconds = 160, ts_nanos = 0\<rparr>, d_detected_time = Some \<lparr>ts_seconds = 161, ts_nanos = 0\<rparr>,
      d_evidence = [], d_aggregation = None,
      d_correlation = Some \<lparr>wc_window = Some \<lparr>du_seconds = 60, du_nanos = 0\<rparr>, wc_spread = Some \<lparr>du_seconds = 0, du_nanos = 0\<rparr>,
        wc_stages = [stage_at ''failed'' ''evt-0001'' 100, stage_at ''entered'' ''evt-0002'' 160],
        wc_group = []\<rparr>\<rparr>"

lemma ValidString_ascii: "list_all (\<lambda>b. byte b < 128) s \<Longrightarrow> ValidString s"
proof (induction s)
  case (Cons b s)
  then show ?case by (subst ValidString.simps) (simp add: RuneError_def)
qed (simp add: ValidString.simps)

lemma contractText_ascii:
  "list_all (\<lambda>b. byte b < 128) s \<and> TrimSpace s \<noteq> [] \<and> length s \<le> limit \<Longrightarrow> contractText f s limit required = None"
  by (simp add: contractText_def ValidString_ascii)

lemma sample_texts [simp]:
  "contractText f ''Guessed'' MaxNameLength True = None"
  "contractText f ''failed'' MaxStageLength True = None"
  "contractText f ''entered'' MaxStageLength True = None"
  by (rule contractText_ascii, code_simp)+

lemma sample_story:
  "correlation_check sample_contract (d_correlation sample_detection) 1 [''evt-0001'', ''evt-0002''] (time_of (d_event_time sample_detection)) ''web-01'' = None"
proof -
  have "agentidentity_Valid ''web-01''" by code_simp
  then show ?thesis
    by (simp add: correlation_check_def sample_detection_def stage_at_def stage_check_def stage_told_def instant_check_def
      contractDuration_def duration_valid_def AsDuration_def timestamp_valid_def time_of_def AsTime_def time_sub_def
      MinStages_def MaxStages_def MaxWithin_def duration_units max_duration_def min_duration_def unix_epoch_def
      groupings_def Let_def or_else_def)
qed

lemma sample_rule_named: "validateDecidingRule (d_rule sample_detection) = None"
proof -
  have "rule_identifier ''guessed_password''" "\<not> versioned ''guessed_password''" "length ''guessed_password'' \<le> MaxIDLength"
    by code_simp+
  then show ?thesis by (simp add: validateDecidingRule_def sample_detection_def)
qed

theorem admitted_detection_witness:
  "detection_ValidateContract sample_contract (\<lambda>_. 512) (Some sample_detection) = None \<and>
   story_ok sample_contract sample_detection (the (d_correlation sample_detection))"
proof -
  let ?d = sample_detection and ?c = sample_contract
  have "contractIdentifier ''detection_id'' (d_id ?d) = None" "contractIdentifier ''ruleset_id'' (d_ruleset ?d) = None"
    "ValidateOrigin (d_origin ?d) = None" "sourceEvents (d_source_events ?d) = None" "detection_agent ?d = ''web-01''"
    by code_simp+
  moreover have "declared_check ''severity'' 3 (ct_severity_name ?c) = None" "declared_check ''event_class'' 1 (ct_class_name ?c) = None"
    by (simp_all add: declared_check_def sample_contract_def)
  moreover note sample_story sample_rule_named
  ultimately have a: "detection_ValidateContract ?c (\<lambda>_. 512) (Some ?d) = None"
    by (simp add: detection_ValidateContract_def MaxDetectionBytes_def sample_detection_def DetectionSchemaVersion_def
      validateDecidingTechnique_def evidence_check_def aggregation_check_def instant_check_def timestamp_valid_def)
  show ?thesis using a admitted_detection [OF a] by (simp add: sample_detection_def)
qed

end
