(* ===== verification/State_Store.thy ===== *)
theory State_Store
  imports State_Quota "HOL-Library.Sublist"
begin

text \<open>
  What the analysis engine relies on of the store of windows (the interface \<^verbatim>\<open>Store\<close> of
  \<^verbatim>\<open>internal/detectionstate/state.go\<close>), as a locale, what follows from it for a caller, and the keeper
  as the instance the executable chooses.
\<close>

text \<open>Observations in event time, of distinct events, none older than the window before the newest.\<close>

definition window_read :: "duration \<Rightarrow> observation list \<Rightarrow> bool" where
  "window_read w xs \<longleftrightarrow>
     sorted (map o_at xs) \<and> distinct (map o_event xs) \<and> (\<forall>x \<in> set xs. \<forall>y \<in> set xs. o_at y - o_at x \<le> w)"

lemma window_read_part:
  assumes "window_read w xs" "subseq ys xs" shows "window_read w ys"
proof -
  obtain N where "ys = nths xs N" using assms(2) by (auto simp: subseq_conv_nths)
  then show ?thesis
    using assms(1) by (auto simp: window_read_def nths_map [symmetric] intro: sorted_nths distinct_nthsI dest: in_set_nthsD)
qed

locale window_store =
  fixes good :: "'s \<Rightarrow> bool"
    and window_at :: "'s \<Rightarrow> state_key \<Rightarrow> observation list"
    and fold_in :: "string option \<Rightarrow> state_key \<Rightarrow> observation \<Rightarrow> duration \<Rightarrow> bool \<Rightarrow> 's \<Rightarrow> 's \<times> state \<times> observation list \<times> state_error option"
  assumes fold_good: "good s \<Longrightarrow> fold_in ctx key seen w reads s = (s', st, xs, err) \<Longrightarrow> good s'"
    and fold_window: "good s \<Longrightarrow> fold_in ctx key seen w reads s = (s', st, xs, None) \<Longrightarrow> \<not> s_repeated st \<Longrightarrow>
      window_read w (window_at s' key) \<and> set (window_at s' key) \<subseteq> insert seen (set (window_at s key)) \<and>
      s_count st = int (length (window_at s' key)) \<and>
      (window_at s' key \<noteq> [] \<longrightarrow> s_first st = o_at (hd (window_at s' key))) \<and> (reads \<longrightarrow> xs = window_at s' key)"
    and fold_repeated: "good s \<Longrightarrow> o_event seen \<in> o_event ` set (window_at s key) \<Longrightarrow>
      fold_in ctx key seen w reads s = (s', st, xs, err) \<Longrightarrow> err \<noteq> None \<or> s_repeated st \<and> window_at s' key = window_at s key"
begin

text \<open>What a caller counts is the number of distinct events of the window.\<close>

lemma counts_events:
  assumes "good s" "fold_in ctx key seen w reads s = (s', st, xs, None)" "\<not> s_repeated st"
  shows "s_count st = int (card (o_event ` set (window_at s' key)))"
  using fold_window [OF assms] by (metis distinct_card image_set length_map window_read_def)

text \<open>Any part of the window, in its order, is told in event time and within the window.\<close>

lemma part_read:
  assumes "good s" "fold_in ctx key seen w True s = (s', st, xs, None)" "\<not> s_repeated st" "subseq ys xs"
  shows "window_read w ys"
  using fold_window [OF assms(1-3)] window_read_part [OF _ assms(4)] by simp

end

section \<open>The keeper is such a store\<close>

definition keeper_window :: "keeper \<Rightarrow> state_key \<Rightarrow> observation list" where
  "keeper_window k key = (case lookup (kp_keys k) key of None \<Rightarrow> [] | Some h \<Rightarrow> h_seen h)"

lemma observed_window:
  assumes "held_ok h" "0 < c" "0 \<le> h_window h" "held_observe seen c h = (h', st, None)" "\<not> s_repeated st"
  shows "window_read (h_window h) (h_seen h') \<and> set (h_seen h') \<subseteq> insert seen (set (h_seen h)) \<and>
    s_count st = int (length (h_seen h')) \<and> (h_seen h' \<noteq> [] \<longrightarrow> s_first st = o_at (hd (h_seen h')))"
proof (cases rule: held_observe_cases [of seen h c])
  case folded
  let ?cut = "held_newest seen h - h_window h"
  let ?e = "held_expire ?cut h"
  note ex = held_expire_ok [OF assms(1), of ?cut]
  have ins: "held_ok (held_insert seen ?e)"
    using folded(1) ex held_expire_ids [OF assms(1)] by (intro held_ok_insert) auto
  have h': "h' = held_trim c (held_insert seen ?e)" "st = held_state c h'" using folded(3,4) assms(4) by auto
  note tr = held_trim_ok [OF ins less_imp_le [OF assms(2)]]
  have sub: "set (h_seen h') \<subseteq> insert seen (set (h_seen ?e))"
    using tr h'(1) held_insert_fields(1) [of ?e seen] ex by (auto dest: in_set_dropD)
  have bounds: "?cut \<le> o_at x \<and> o_at x \<le> held_newest seen h" if "x \<in> set (h_seen h')" for x
  proof (cases "x = seen")
    case False
    then have x: "x \<in> set (h_seen ?e)" using sub that by auto
    then have "x \<in> set (h_seen h)" "?cut \<le> o_at x"
      using ex assms(1) by (auto simp: held_ok_def dropWhile_sorted)
    then show ?thesis using held_last_ge [OF assms(1), of x] by (simp add: held_newest_def)
  qed (use folded(2) in \<open>simp add: held_newest_def\<close>)
  have "held_ok h'" using tr h'(1) by simp
  have "window_read (h_window h) (h_seen h')"
    unfolding window_read_def
  proof (intro conjI ballI)
    fix x y assume "x \<in> set (h_seen h')" "y \<in> set (h_seen h')"
    then show "o_at y - o_at x \<le> h_window h" using bounds [of x] bounds [of y] by linarith
  qed (use \<open>held_ok h'\<close> in \<open>simp_all add: held_ok_def\<close>)
  moreover have "set (h_seen ?e) \<subseteq> set (h_seen h)" using ex by (auto dest: set_dropWhileD)
  ultimately show ?thesis using sub h'(2) by (auto simp: held_state_def zero_state_def hd_conv_nth)
qed (use assms(4,5) in auto)

lemma keeper_fold_window:
  assumes ok: "keeper_ok k" and f: "keeper_fold ctx key seen w reads k = (k', st, xs, None)" and new: "\<not> s_repeated st"
  shows "window_read w (keeper_window k' key) \<and> set (keeper_window k' key) \<subseteq> insert seen (set (keeper_window k key)) \<and>
    s_count st = int (length (keeper_window k' key)) \<and>
    (keeper_window k' key \<noteq> [] \<longrightarrow> s_first st = o_at (hd (keeper_window k' key))) \<and> (reads \<longrightarrow> xs = keeper_window k' key)"
proof -
  have wf: "keeper_wf k" and c: "0 < bd_observations_per_key (kp_bounds k)"
    using ok by (auto simp: keeper_ok_def bounds_valid_iff)
  from f show ?thesis
  proof (cases rule: keeper_fold_cases)
    case (held entry entry')
    have "keeper_window k' key = h_seen entry'" by (simp add: held(4) keep_key_def keeper_window_def)
    moreover have "reads \<longrightarrow> xs = h_seen entry'" using f held by (auto simp: keeper_fold_def Let_def split: if_splits option.splits prod.splits)
    moreover have "held_ok (entry\<lparr>h_window := w\<rparr>)" using wf_held [OF wf held(1)] by simp
    ultimately show ?thesis
      using observed_window [OF _ c _ held(3) new] held(1,5) by (simp add: keeper_window_def)
  next
    case (opened k2 entry')
    have "keeper_wf k2" using admit_frees [OF advance_wf [OF wf] opened(2)] by (simp add: frees_def)
    moreover have "h_key entry' = key" by (rule opened_entry(1) [OF ok opened(4)])
    ultimately have window: "keeper_window k' key = h_seen entry'" by (simp add: opened(5) open_eq keeper_window_def)
    have "reads \<longrightarrow> xs = h_seen entry'"
      using f opened by (auto simp: keeper_fold_def Let_def split: if_splits option.splits prod.splits)
    with window show ?thesis
      using observed_window [OF held_ok_new c _ opened(4) new] opened(6) by (auto simp: new_held_def)
  qed simp_all
qed

lemma keeper_fold_repeated:
  assumes ok: "keeper_ok k" and name: "o_event seen \<in> o_event ` set (keeper_window k key)"
    and f: "keeper_fold ctx key seen w reads k = (k', st, xs, err)"
  shows "err \<noteq> None \<or> s_repeated st \<and> keeper_window k' key = keeper_window k key"
  using f
proof (cases rule: keeper_fold_cases)
  case (held entry entry')
  have "o_event seen \<in> h_ids (entry\<lparr>h_window := w\<rparr>)"
    using name held(1) wf_held [of k key entry] ok by (simp add: keeper_ok_def keeper_window_def held_ok_def)
  then have "entry' = entry\<lparr>h_window := w\<rparr>" "s_repeated st" using held(3) by (auto simp: held_observe_def)
  then show ?thesis using held(1,4) by (simp add: keeper_window_def keep_key_def)
qed (use name in \<open>auto simp: keeper_window_def\<close>)

interpretation ks: window_store keeper_ok keeper_window keeper_fold
  by unfold_locales (simp add: keeper_fold_ok, rule keeper_fold_window, assumption+, rule keeper_fold_repeated, assumption+)

section \<open>Two observations of one key\<close>

lemma sort_search_0 [simp]: "sort_search 0 P = 0"
  by code_simp

lemma observe_first:
  assumes "0 < w" "0 < o_at seen" "0 < c"
  shows "\<exists>h' st. held_observe seen c (new_held key w) = (h', st, None) \<and> h_seen h' = [seen] \<and> \<not> s_repeated st"
proof -
  let ?h = "new_held key w"
  have "held_expire (o_at seen - w) ?h = ?h" by (subst held_expire.simps) (simp add: new_held_def)
  moreover have ins: "h_seen (held_insert seen ?h) = [seen]" by (simp add: held_insert_def new_held_def Let_def)
  moreover have "held_trim c (held_insert seen ?h) = held_insert seen ?h"
    using assms(3) ins by (subst held_trim.simps) simp
  moreover have "h_ids ?h = {}" "held_last ?h = 0" "h_window ?h = w" by (simp_all add: new_held_def held_last_def)
  ultimately show ?thesis using assms(1,2) by (simp add: held_observe_def held_state_def Let_def)
qed

lemma first_fold:
  assumes "NewKeeper b = Inr k" "observation_validate seen = None" "0 < o_at seen" "0 < w" "w \<le> bd_window b"
  shows "\<exists>k' st xs. keeper_fold None key seen w reads k = (k', st, xs, None) \<and> \<not> s_repeated st \<and> keeper_window k' key = [seen]"
proof -
  have k: "kp_keys k = []" "kp_tenants k = []" "kp_bounds k = b" "bounds_validate b = None"
    using assms(1) by (auto simp: NewKeeper_def split: option.splits)
  let ?k1 = "keeper_advance (k_tenant key) seen k"
  have k1: "kp_keys ?k1 = []" "kp_bounds ?k1 = b" "kp_tenants ?k1 = []"
    using k by (simp_all add: keeper_advance_def Let_def)
  have adm: "keeper_admit key ?k1 = (?k1, None)"
    using k1 k(4) by (simp add: keeper_admit_def admit_store_def at_ceiling_def Let_def bounds_valid_iff)
  obtain h' st where h: "held_observe seen (bd_observations_per_key b) (new_held key w) = (h', st, None)" "h_seen h' = [seen]" "\<not> s_repeated st"
    using observe_first [OF assms(4,3), of "bd_observations_per_key b" key] k(4) by (auto simp: bounds_valid_iff)
  then have "keeper_fold None key seen w reads k = (keeper_open h' seen ?k1, st, if \<not> reads then [] else h_seen h', None)"
    using assms(2,4,5) k(1,3) k1(1) adm by (simp add: keeper_fold_def Let_def)
  moreover have "keeper_window (keeper_open h' seen ?k1) key = [seen]"
    using opened_entry(1) [of k seen key w h' st None] NewKeeper_ok [OF assms(1)] h k(3) advance_wf [of k]
    by (simp add: keeper_window_def open_eq keeper_ok_def)
  ultimately show ?thesis using h(3) by blast
qed

lemma observe_second:
  assumes "held_ok h" "h_seen h = [x]" "o_event y \<noteq> o_event x" "o_at x < o_at y" "o_at y - o_at x \<le> h_window h" "2 \<le> c"
  shows "\<exists>h' st. held_observe y c h = (h', st, None) \<and> h_seen h' = [x, y] \<and> \<not> s_repeated st"
proof -
  have "held_expire (o_at y - h_window h) h = h" using assms(2,5) by (subst held_expire.simps) simp
  moreover have ins: "h_seen (held_insert y h) = [x, y]"
  proof -
    have "map o_at (h_seen (held_insert y h)) = sort (map o_at (h_seen (held_insert y h)))"
      using held_insert_fields(3) [OF assms(1)] by (simp add: sorted_sort_id)
    moreover have "mset (h_seen (held_insert y h)) = {#x, y#}" using held_insert_fields(2) [OF assms(1), of y] assms(2) by simp
    then have "h_seen (held_insert y h) = [x, y] \<or> h_seen (held_insert y h) = [y, x]"
      by (cases "h_seen (held_insert y h)"; cases "tl (h_seen (held_insert y h))") (auto simp: add_eq_conv_ex)
    ultimately show ?thesis using held_insert_fields(3) [OF assms(1), of y] assms(4) by auto
  qed
  moreover have "held_trim c (held_insert y h) = held_insert y h" using assms(6) ins by (subst held_trim.simps) simp
  moreover have "h_ids h = {o_event x}" "held_last h = o_at x" using assms(1,2) by (simp_all add: held_ok_def held_last_def)
  ultimately show ?thesis using assms(3-5) by (simp add: held_observe_def held_state_def Let_def)
qed

lemma second_fold:
  assumes "keeper_ok k" "keeper_window k key = [x]" "observation_validate y = None" "o_event y \<noteq> o_event x" "o_at x < o_at y"
    "o_at y - o_at x \<le> w" "w \<le> bd_window (kp_bounds k)" "2 \<le> bd_observations_per_key (kp_bounds k)"
  shows "\<exists>k' st xs. keeper_fold None key y w reads k = (k', st, xs, None) \<and> \<not> s_repeated st \<and> keeper_window k' key = [x, y]"
proof -
  obtain h where h: "lookup (kp_keys k) key = Some h" "h_seen h = [x]"
    using assms(2) by (auto simp: keeper_window_def split: option.splits)
  have "held_ok (h\<lparr>h_window := w\<rparr>)" using wf_held [OF _ h(1)] assms(1) by (simp add: keeper_ok_def)
  from observe_second [OF this, of x y "bd_observations_per_key (kp_bounds k)"] obtain h' st where
    "held_observe y (bd_observations_per_key (kp_bounds k)) (h\<lparr>h_window := w\<rparr>) = (h', st, None)" "h_seen h' = [x, y]" "\<not> s_repeated st"
    using h(2) assms(4-6,8) by auto
  then show ?thesis using assms(3,5-7) h(1)
    by (auto simp: keeper_fold_def keeper_advance_def keeper_window_def Let_def split: option.splits)
qed

end
