(* ===== verification/Analysis_Decide.thy ===== *)
theory Analysis_Decide
  imports Detection_Program State_Store State_Key
begin

text \<open>
  How the analysis engine decides an event against the rules of its route
  (\<^verbatim>\<open>internal/analysis/count.go\<close>, \<^verbatim>\<open>sequence.go\<close>, \<^verbatim>\<open>capacity.go\<close> and \<^verbatim>\<open>detect\<close> of
  \<^verbatim>\<open>detect.go\<close>). The engine's state is the store of windows and the refusals it has told of; metrics
  and log lines are not part of it. The results: a count is the number of events a window holds, all of
  one key and inside the rule's window; the greedy reading of a window tells a sequence whenever one can
  be told; and a sequence that is decided is told by distinct events in event time, this one among them.
\<close>

section \<open>The engine and what it refuses\<close>

datatype observed_outcome =
    OutcomeAtCapacity | OutcomeTenantAtCapacity | OutcomeRuleAtCapacity | OutcomeTooLate | OutcomeUnbounded | OutcomeRefused

record at_capacity =
  ac_tenant :: string
  ac_rule :: rule_id
  ac_outcome :: observed_outcome

record engine =
  en_state :: keeper
  en_told :: "at_capacity list"

definition maxToldAtCapacity :: nat where "maxToldAtCapacity = 1024"

fun refusalOf :: "state_error \<Rightarrow> observed_outcome" where
  "refusalOf ErrAtCapacity = OutcomeAtCapacity"
| "refusalOf ErrTenantAtCapacity = OutcomeTenantAtCapacity"
| "refusalOf ErrRuleAtCapacity = OutcomeRuleAtCapacity"
| "refusalOf ErrTooLate = OutcomeTooLate"
| "refusalOf ErrWindowTooLong = OutcomeUnbounded"
| "refusalOf ErrNoWindow = OutcomeUnbounded"
| "refusalOf _ = OutcomeRefused"

definition outOfRoom :: "observed_outcome \<Rightarrow> bool" where
  "outOfRoom x = (x \<in> {OutcomeAtCapacity, OutcomeTenantAtCapacity, OutcomeRuleAtCapacity})"

definition refusedObservation :: "pmessage \<Rightarrow> rule_id \<Rightarrow> state_error \<Rightarrow> engine \<Rightarrow> engine" where
  "refusedObservation m rule err e =
     (let outcome = refusalOf err; told = \<lparr>ac_tenant = event_tenant m, ac_rule = rule, ac_outcome = outcome\<rparr> in
      if \<not> outOfRoom outcome then e
      else if told \<in> set (en_told e) \<or> maxToldAtCapacity \<le> length (en_told e) then e
      else e\<lparr>en_told := told # en_told e\<rparr>)"

section \<open>Counting\<close>

definition nameOf :: "pmessage \<Rightarrow> event_name" where
  "nameOf m = \<lparr>e_agent = event_agent m, e_id = get_string m ''event_id''\<rparr>"

definition rule_key :: "program \<Rightarrow> pmessage \<Rightarrow> state_key" where
  "rule_key p m = KeyFor (event_tenant m) (r_id (pg_rule p)) (r_revision (pg_rule p)) (program_group p m)"

text \<open>
  The context is \<open>Some\<close> error once it is done. An observation the store refuses decides nothing and
  fails nothing, unless it was refused because the process is stopping.
\<close>

definition reached ::
  "string option \<Rightarrow> program \<Rightarrow> matched \<Rightarrow> pmessage \<Rightarrow> int \<Rightarrow> engine \<Rightarrow> engine \<times> (state_error + matched option)"
where
  "reached ctx p found m pn e =
     (let seen = \<lparr>o_event = nameOf m, o_at = time_of (event_happened m), o_value = [], o_partition = pn, o_skew = 0\<rparr> in
      case keeper_observe ctx (rule_key p m) seen (c_within (r_count (pg_rule p))) (en_state e) of
        (k, held, err) \<Rightarrow>
          let e' = e\<lparr>en_state := k\<rparr> in
          case err of
            Some x \<Rightarrow> if ctx \<noteq> None then (e', Inl x) else (refusedObservation m (r_id (pg_rule p)) x e', Inr None)
          | None \<Rightarrow>
              if s_repeated held then (e', Inr None)
              else if s_count held < c_at_least (r_count (pg_rule p)) then (e', Inr None)
              else (e', Inr (Some (found\<lparr>mt_counted :=
                     \<lparr>cd_group = program_group p m, cd_count = s_count held, cd_first = s_first held,
                      cd_saturated = s_saturated held\<rparr>\<rparr>))))"

section \<open>Sequences\<close>

fun ordered_from :: "nat \<Rightarrow> event_name \<Rightarrow> observation list \<Rightarrow> observation list \<Rightarrow> observation list" where
  "ordered_from stages without told [] = told"
| "ordered_from stages without told (seen # window) =
     (if length told = stages then told
      else if o_event seen = without \<or> \<not> stages_has (StagesOf (o_value seen)) (length told)
      then ordered_from stages without told window
      else ordered_from stages without (told @ [seen]) window)"

definition ordered :: "observation list \<Rightarrow> nat \<Rightarrow> event_name \<Rightarrow> observation list \<times> bool" where
  "ordered window stages without =
     (let told = ordered_from stages without [] window in (told, length told = stages))"

definition correlated_by :: "string list \<Rightarrow> observation list \<Rightarrow> binding list \<Rightarrow> correlated" where
  "correlated_by stages told group' =
     \<lparr>co_group = group',
      co_stages = map2 (\<lambda>name seen. \<lparr>sat_name = name, sat_agent = e_agent (o_event seen), sat_event = e_id (o_event seen),
                                     sat_at = o_at seen\<rparr>) stages told,
      co_clock_spread = foldl max (o_skew (hd told)) (map o_skew told) - foldl min (o_skew (hd told)) (map o_skew told)\<rparr>"

definition skewOf :: "pmessage \<Rightarrow> duration" where
  "skewOf m =
     (case (get_timestamp (or_empty (get_message m ''time'')) ''observed_time'',
            get_timestamp (or_empty (get_message m ''reception'')) ''ingest_time'') of
        (Some observed, Some admitted) \<Rightarrow> time_sub (AsTime observed) (AsTime admitted)
      | _ \<Rightarrow> 0)"

definition no_event :: event_name where
  "no_event = \<lparr>e_agent = [], e_id = []\<rparr>"

definition completed ::
  "contract \<Rightarrow> string option \<Rightarrow> program \<Rightarrow> matched \<Rightarrow> pmessage \<Rightarrow> int \<Rightarrow> engine \<Rightarrow> engine \<times> (state_error + matched option)"
where
  "completed c ctx p found m pn e =
     (case Satisfied c p (Some m) of (stages, evidence) \<Rightarrow>
        if \<not> stages_any stages then (e, Inr None)
        else
          let seen = \<lparr>o_event = nameOf m, o_at = time_of (event_happened m), o_value = stages_string stages,
                      o_partition = pn, o_skew = skewOf m\<rparr>
          in case keeper_ordered ctx (rule_key p m) seen (s_within (r_sequence (pg_rule p))) (en_state e) of
            (k, held, window, err) \<Rightarrow>
              let e' = e\<lparr>en_state := k\<rparr> in
              case err of
                Some x \<Rightarrow> if ctx \<noteq> None then (e', Inl x) else (refusedObservation m (r_id (pg_rule p)) x e', Inr None)
              | None \<Rightarrow>
                  if s_repeated held then (e', Inr None)
                  else case ordered window (length (pg_stages p)) no_event of (told, whole) \<Rightarrow>
                    if \<not> whole then (e', Inr None)
                    else if snd (ordered window (length (pg_stages p)) (o_event seen)) then (e', Inr None)
                    else (e', Inr (Some (found\<lparr>mt_evidence := evidence,
                           mt_correlated := correlated_by (stage_names p) told (program_group p m)\<rparr>))))"

section \<open>One event against every rule of its route\<close>

definition bare_match :: "rule \<Rightarrow> matched" where
  "bare_match r = \<lparr>mt_rule = r, mt_evidence = [], mt_counted = zero_counted, mt_correlated = zero_correlated\<rparr>"

definition decide_one ::
  "contract \<Rightarrow> string option \<Rightarrow> pmessage \<Rightarrow> int \<Rightarrow> program \<Rightarrow> engine \<Rightarrow> engine \<times> (state_error + matched option)"
where
  "decide_one c ctx m pn p e =
     (if program_correlates p then completed c ctx p (bare_match (pg_rule p)) m pn e
      else case Decide c p (Some m) of
        None \<Rightarrow> (e, Inr None)
      | Some found \<Rightarrow> if program_counts p then reached ctx p found m pn e else (e, Inr (Some found)))"

text \<open>
  \<open>Current\<close> gives a set of compiled rules or nothing: its name and the programs registered for a class, in
  the order they are asked. A detection is told of every match; telling of a sequence without stages
  would panic, which is \<open>None\<close> in the list.
\<close>

fun detect_from ::
  "contract \<Rightarrow> string option \<Rightarrow> string \<Rightarrow> pmessage \<Rightarrow> int \<Rightarrow> instant \<Rightarrow> program list \<Rightarrow> engine \<Rightarrow>
   engine \<times> (state_error + detection option list)"
where
  "detect_from c ctx ruleset m pn now [] e = (e, Inr [])"
| "detect_from c ctx ruleset m pn now (p # ps) e =
     (case decide_one c ctx m pn p e of
        (e', Inl x) \<Rightarrow> (e', Inl x)
      | (e', Inr found) \<Rightarrow>
          (case detect_from c ctx ruleset m pn now ps e' of
             (e'', Inl x) \<Rightarrow> (e'', Inl x)
           | (e'', Inr made) \<Rightarrow>
               (e'', Inr (case found of None \<Rightarrow> made | Some f \<Rightarrow> Detected c f ruleset m now # made))))"

definition detect ::
  "contract \<Rightarrow> (string \<times> (event_class \<Rightarrow> program list)) option \<Rightarrow> string option \<Rightarrow> pmessage \<Rightarrow> int \<Rightarrow> instant \<Rightarrow> engine \<Rightarrow>
   engine \<times> (state_error + detection option list)"
where
  "detect c rules ctx m pn now e =
     (case rules of
        None \<Rightarrow> (e, Inr [])
      | Some (ruleset, registered) \<Rightarrow>
          detect_from c ctx ruleset m pn now (registered (event_class_of m)) e)"

section \<open>The greedy reading tells a sequence whenever one can be told\<close>

text \<open>A way to tell the stages from \<open>j\<close> on, leaving one event out.\<close>

definition tells :: "nat \<Rightarrow> event_name \<Rightarrow> observation list \<Rightarrow> bool" where
  "tells j without ys \<longleftrightarrow>
     (\<forall>i < length ys. o_event (ys ! i) \<noteq> without \<and> stages_has (StagesOf (o_value (ys ! i))) (j + i))"

lemma tells_Nil [simp]: "tells j without []"
  by (simp add: tells_def)

lemma tells_Cons [simp]:
  "tells j without (y # ys) \<longleftrightarrow>
     o_event y \<noteq> without \<and> stages_has (StagesOf (o_value y)) j \<and> tells (Suc j) without ys"
  by (auto simp: tells_def less_Suc_eq_0_disj nth_Cons split: nat.splits)

lemma ordered_from_told:
  "\<exists>ys. ordered_from n without told window = told @ ys \<and> subseq ys window \<and> tells (length told) without ys"
proof (induction n without told window rule: ordered_from.induct)
  case (2 n without told seen window)
  show ?case
  proof (cases "length told = n \<or> o_event seen = without \<or> \<not> stages_has (StagesOf (o_value seen)) (length told)")
    case True
    then show ?thesis using 2(1) by (auto intro: exI [of _ "[]"])
  next
    case False
    then obtain ys where "ordered_from n without (told @ [seen]) window = (told @ [seen]) @ ys" "subseq ys window"
      "tells (length (told @ [seen])) without ys" using 2(2) by blast
    with False show ?thesis by (intro exI [of _ "seen # ys"]) auto
  qed
qed simp

lemma ordered_from_complete:
  "length told \<le> n \<Longrightarrow> subseq ys window \<Longrightarrow> length ys = n - length told \<Longrightarrow> tells (length told) without ys \<Longrightarrow>
   length (ordered_from n without told window) = n"
proof (induction n without told window arbitrary: ys rule: ordered_from.induct)
  case (2 n without told seen window)
  show ?case
  proof (cases "length told = n")
    case False
    then obtain y zs where ys: "ys = y # zs" using 2(3,5) by (cases ys) auto
    show ?thesis
    proof (cases "o_event seen = without \<or> \<not> stages_has (StagesOf (o_value seen)) (length told)")
      case True
      then have "y \<noteq> seen" using 2(6) ys by auto
      then show ?thesis using False True 2(1) [OF False True 2(3), of ys] 2(4-6) ys by auto
    next
      case fits: False
      have "subseq zs window" using 2(4) ys by (metis subseq_Cons' subseq_Cons2_iff)
      then show ?thesis using False fits 2(2) [OF False fits, of zs] 2(3,5,6) ys by auto
    qed
  qed simp
next
  case (1 n without told)
  then show ?case using list_emb_length [OF 1(2)] by simp
qed

lemma ordered_told:
  "case ordered window n without of (told, whole) \<Rightarrow>
     subseq told window \<and> tells 0 without told \<and> (whole \<longrightarrow> length told = n) \<and>
     (whole \<longleftrightarrow> (\<exists>ys. subseq ys window \<and> length ys = n \<and> tells 0 without ys))"
proof -
  obtain ys where "ordered_from n without [] window = ys" "subseq ys window" "tells 0 without ys"
    using ordered_from_told [of n without "[]" window] by auto
  then show ?thesis
    using ordered_from_complete [of "[]" n _ window without] by (auto simp: ordered_def Let_def)
qed

text \<open>
  C14. Reading a window greedily, earliest event first, tells a sequence exactly when some events of the
  window, in its order and leaving one named event out, satisfy the stages in theirs; what it tells is
  such a choice.
\<close>

theorem ordered_complete:
  "case ordered window n without of (told, whole) \<Rightarrow>
     subseq told window \<and> tells 0 without told \<and>
     (whole \<longleftrightarrow> (\<exists>ys. subseq ys window \<and> length ys = n \<and> tells 0 without ys))"
  using ordered_told [where window = window and n = n and without = without] by auto

section \<open>What a decision rests on\<close>

lemma refused_state [simp]: "en_state (refusedObservation m r x e) = en_state e"
  by (simp add: refusedObservation_def Let_def)

lemma keeper_observe_fold: "keeper_observe ctx key seen w k = (k', st, err) \<Longrightarrow> \<exists>xs. keeper_fold ctx key seen w False k = (k', st, xs, err)"
  by (auto simp: keeper_observe_def split: prod.splits)

lemma reachedD:
  assumes "reached ctx p found m pn e = (e', Inr (Some found'))"
  obtains seen st xs where "o_event seen = nameOf m"
    "keeper_fold ctx (rule_key p m) seen (c_within (r_count (pg_rule p))) False (en_state e) = (en_state e', st, xs, None)"
    "\<not> s_repeated st" "c_at_least (r_count (pg_rule p)) \<le> s_count st" "cd_count (mt_counted found') = s_count st"
proof -
  define seen where "seen = \<lparr>o_event = nameOf m, o_at = time_of (event_happened m), o_value = [], o_partition = pn, o_skew = 0\<rparr>"
  obtain k st err where k: "keeper_observe ctx (rule_key p m) seen (c_within (r_count (pg_rule p))) (en_state e) = (k, st, err)"
    by (metis prod_cases3)
  moreover have "err = None" "e' = e\<lparr>en_state := k\<rparr>" "\<not> s_repeated st" "c_at_least (r_count (pg_rule p)) \<le> s_count st"
    "cd_count (mt_counted found') = s_count st"
    using assms k by (auto simp: reached_def seen_def [symmetric] Let_def split: option.splits if_splits)
  moreover have "o_event seen = nameOf m" by (simp add: seen_def)
  ultimately show ?thesis using that keeper_observe_fold by fastforce
qed


lemma completedD:
  assumes "completed c ctx p found m pn e = (e', Inr (Some found'))"
  obtains seen st xs told where "o_event seen = nameOf m"
    "keeper_fold ctx (rule_key p m) seen (s_within (r_sequence (pg_rule p))) True (en_state e) = (en_state e', st, xs, None)"
    "\<not> s_repeated st" "ordered xs (length (pg_stages p)) no_event = (told, True)"
    "\<not> snd (ordered xs (length (pg_stages p)) (nameOf m))"
    "mt_correlated found' = correlated_by (stage_names p) told (program_group p m)"
proof -
  obtain stages ev where sat: "Satisfied c p (Some m) = (stages, ev)" by (metis prod.exhaust)
  define seen where "seen = \<lparr>o_event = nameOf m, o_at = time_of (event_happened m), o_value = stages_string stages,
    o_partition = pn, o_skew = skewOf m\<rparr>"
  obtain k st xs err where k: "keeper_ordered ctx (rule_key p m) seen (s_within (r_sequence (pg_rule p))) (en_state e) = (k, st, xs, err)"
    by (metis prod_cases4)
  obtain told whole where told: "ordered xs (length (pg_stages p)) no_event = (told, whole)" by (metis prod.exhaust)
  have name: "o_event seen = nameOf m" by (simp add: seen_def)
  have "err = None" "e' = e\<lparr>en_state := k\<rparr>" "\<not> s_repeated st" "whole" "\<not> snd (ordered xs (length (pg_stages p)) (nameOf m))"
    "mt_correlated found' = correlated_by (stage_names p) told (program_group p m)"
    using assms k told name by (auto simp: completed_def sat seen_def [symmetric] Let_def split: option.splits if_splits)
  with k told name show ?thesis using that by (auto simp: keeper_ordered_def)
qed

text \<open>
  C16. A sequence that is decided was told: its stages are the rule's, in the rule's order, each by an event
  the window holds, the events distinct, in event time and within the rule's time of each other, and the
  event that decided it is one of them and was not seen before.
\<close>

theorem story_is_told:
  assumes "keeper_ok (en_state e)" "completed c ctx p found m pn e = (e', Inr (Some found'))"
  shows "map sat_name (co_stages (mt_correlated found')) = stage_names p \<and>
    sorted (map sat_at (co_stages (mt_correlated found'))) \<and>
    distinct (map (\<lambda>s. (sat_agent s, sat_event s)) (co_stages (mt_correlated found'))) \<and>
    (\<forall>s \<in> set (co_stages (mt_correlated found')). \<forall>s' \<in> set (co_stages (mt_correlated found')).
       sat_at s' - sat_at s \<le> s_within (r_sequence (pg_rule p))) \<and>
    (event_agent m, get_string m ''event_id'') \<in> (\<lambda>s. (sat_agent s, sat_event s)) ` set (co_stages (mt_correlated found')) \<and>
    nameOf m \<notin> o_event ` set (keeper_window (en_state e) (rule_key p m))"
  using assms(2)
proof (rule completedD)
  fix seen st xs told
  let ?n = "length (pg_stages p)" and ?name = "\<lambda>x. (e_agent (o_event x), e_id (o_event x))"
  assume r: "o_event seen = nameOf m" "\<not> s_repeated st" "ordered xs ?n no_event = (told, True)" "\<not> snd (ordered xs ?n (nameOf m))"
    and found: "mt_correlated found' = correlated_by (stage_names p) told (program_group p m)"
    and f: "keeper_fold ctx (rule_key p m) seen (s_within (r_sequence (pg_rule p))) True (en_state e) = (en_state e', st, xs, None)"
  have told: "subseq told xs" "tells 0 no_event told" "length told = ?n" using ordered_told [where window = xs and n = "?n" and without = no_event] r(3) by auto
  have read: "window_read (s_within (r_sequence (pg_rule p))) told" by (rule ks.part_read [OF assms(1) f r(2) told(1)])
  have len: "length (stage_names p) = length told" by (simp add: stage_names_def told(3))
  have maps: "map sat_name (co_stages (mt_correlated found')) = stage_names p"
    "map sat_at (co_stages (mt_correlated found')) = map o_at told"
    "map (\<lambda>s. (sat_agent s, sat_event s)) (co_stages (mt_correlated found')) = map ?name told"
    using len by (auto simp: found correlated_by_def intro!: nth_equalityI)
  have sets: "sat_at ` set (co_stages (mt_correlated found')) = o_at ` set told"
    "(\<lambda>s. (sat_agent s, sat_event s)) ` set (co_stages (mt_correlated found')) = ?name ` set told"
    using arg_cong [OF maps(2), of set] arg_cong [OF maps(3), of set] by simp_all
  have "nameOf m \<in> o_event ` set told"
  proof (rule ccontr)
    assume "nameOf m \<notin> o_event ` set told"
    then have "tells 0 (nameOf m) told" using told(2) unfolding tells_def by (metis image_eqI nth_mem)
    then show False using ordered_told [where window = xs and n = "?n" and without = "nameOf m"] told(1,3) r(4) by (auto split: prod.splits)
  qed
  then obtain x where "x \<in> set told" "o_event x = nameOf m" by auto
  then have "(event_agent m, get_string m ''event_id'') \<in> ?name ` set told" by (intro image_eqI [of _ _ x]) (simp_all add: nameOf_def)
  moreover have "distinct (map ?name told)"
    using read by (auto simp: window_read_def distinct_map inj_on_def intro: event_name.equality)
  moreover have "sat_at s' - sat_at s \<le> s_within (r_sequence (pg_rule p))"
    if "s \<in> set (co_stages (mt_correlated found'))" "s' \<in> set (co_stages (mt_correlated found'))" for s s'
    using read that sets(1) unfolding window_read_def by (metis (no_types, lifting) imageE imageI)
  moreover have "nameOf m \<notin> o_event ` set (keeper_window (en_state e) (rule_key p m))"
    using ks.fold_repeated [OF assms(1) _ f] r(1,2) by auto
  ultimately show ?thesis using read maps sets(2) by (simp add: window_read_def)
qed

section \<open>Examples\<close>

definition told_event :: "string \<Rightarrow> int \<Rightarrow> pmessage" where
  "told_event name secs =
     [(''event_id'', VString name), (''event_class'', VEnum 1),
      (''time'', VMessage [(''event_time'', VMessage [(''seconds'', VInt64 secs)])]),
      (''origin'', VMessage [(''agent_id'', VString ''web-01''), (''tenant_id'', VString ''acme'')])]"

definition wide_bounds :: bounds where
  "wide_bounds = \<lparr>bd_window = MaxWindow, bd_observations_per_key = 9, bd_keys = 9, bd_keys_per_tenant = 9, bd_keys_per_rule = 9\<rparr>"

definition wide_keeper :: keeper where
  "wide_keeper = (case NewKeeper wide_bounds of Inr k \<Rightarrow> k)"

lemma wide_keeper_new: "NewKeeper wide_bounds = Inr wide_keeper"
  by (simp add: NewKeeper_def wide_keeper_def bounds_validate_def wide_bounds_def MaxWindow_def
      MaxObservationsPerKey_def MaxKeys_def rule_ceilings duration_units)

definition twice_rule :: rule where
  "twice_rule = sample_rule\<lparr>r_count := \<lparr>c_at_least = 2, c_within = 60 * second, c_group_by = []\<rparr>\<rparr>"

definition twice_program :: program where
  "twice_program = \<lparr>pg_rule = twice_rule, pg_root = None, pg_stages = [], pg_fields = [], pg_grouped = []\<rparr>"

definition seen_with :: "string \<Rightarrow> pmessage \<Rightarrow> observation" where
  "seen_with v m = \<lparr>o_event = nameOf m, o_at = time_of (event_happened m), o_value = v, o_partition = 0, o_skew = 0\<rparr>"

abbreviation first_told :: pmessage where "first_told \<equiv> told_event ''evt-0001'' 100"
abbreviation second_told :: pmessage where "second_told \<equiv> told_event ''evt-0002'' 110"

lemmas told_defs = seen_with_def told_event_def nameOf_def event_agent_def event_happened_def get_timestamp_def get_message_def
  get_string_def get_int_def time_of_def AsTime_def unix_epoch_def observation_validate_def MaxValueLength_def duration_units

lemma told_observations:
  "length v \<le> 1 \<Longrightarrow> observation_validate (seen_with v first_told) = None" "length v \<le> 1 \<Longrightarrow> observation_validate (seen_with v second_told) = None"
  "o_event (seen_with v second_told) \<noteq> o_event (seen_with v first_told)"
  "o_at (seen_with v first_told) < o_at (seen_with v second_told)" "o_at (seen_with v second_told) - o_at (seen_with v first_told) \<le> 60 * second"
  "0 < o_at (seen_with v first_told)"
  by (simp_all add: told_defs)

text \<open>Two observations of any key, the second of which finds the first.\<close>

lemma told_twice:
  assumes "length v \<le> 1"
  obtains k k' st xs where "keeper_ok k" "keeper_window k key = [seen_with v first_told]"
    "keeper_fold None key (seen_with v second_told) (60 * second) reads k = (k', st, xs, None)" "\<not> s_repeated st"
    "keeper_window k' key = [seen_with v first_told, seen_with v second_told]"
proof -
  have w: "60 * second \<le> bd_window wide_bounds" "0 < 60 * second" "2 \<le> bd_observations_per_key wide_bounds"
    by (simp_all add: wide_bounds_def MaxWindow_def rule_ceilings duration_units)
  obtain k st xs where k: "keeper_fold None key (seen_with v first_told) (60 * second) False wide_keeper = (k, st, xs, None)"
    "keeper_window k key = [seen_with v first_told]"
    using first_fold [OF wide_keeper_new told_observations(1) [OF assms] told_observations(6) w(2,1), of key False] by blast
  have ok: "keeper_ok k" "kp_bounds k = wide_bounds"
    using keeper_fold_ok [OF _ k(1)] NewKeeper_ok [OF wide_keeper_new] by auto
  show ?thesis
    using second_fold [OF ok(1) k(2) told_observations(2) [OF assms] told_observations(3-5), of reads] ok k(2) w that by force
qed


definition story_program :: program where
  "story_program =
     \<lparr>pg_rule = sample_rule\<lparr>r_sequence := \<lparr>s_stages = [], s_within = 60 * second, s_group_by = []\<rparr>\<rparr>, pg_root = None,
      pg_stages = [\<lparr>sg_name = ''in'', sg_root = Conjunction []\<rparr>, \<lparr>sg_name = ''out'', sg_root = Conjunction []\<rparr>],
      pg_fields = [], pg_grouped = []\<rparr>"

lemma stages_short: "length (stages_string s) \<le> 1"
  by (simp add: stages_string_def)

lemma story_told: "ordered [seen_with (stages_string 3) first_told, seen_with (stages_string 3) second_told] 2 no_event =
    ([seen_with (stages_string 3) first_told, seen_with (stages_string 3) second_told], True)"
  "\<not> snd (ordered [seen_with (stages_string 3) first_told, seen_with (stages_string 3) second_told] 2 (nameOf second_told))"
  by code_simp+

theorem story_is_told_witness:
  "\<exists>e e' found found'. keeper_ok (en_state e) \<and>
     completed sample_contract None story_program found second_told 0 e = (e', Inr (Some found')) \<and>
     map sat_name (co_stages (mt_correlated found')) = [''in'', ''out'']"
proof -
  let ?v = "stages_string 3" and ?key = "rule_key story_program second_told"
  obtain k k' st xs where f: "keeper_ok k" "keeper_fold None ?key (seen_with ?v second_told) (60 * second) True k = (k', st, xs, None)"
    "\<not> s_repeated st" "keeper_window k' ?key = [seen_with ?v first_told, seen_with ?v second_told]"
    by (rule told_twice [OF stages_short [of 3], of ?key True])
  define e where "e = \<lparr>en_state = k, en_told = []\<rparr>"
  have xs: "xs = [seen_with ?v first_told, seen_with ?v second_told]" using ks.fold_window [OF f(1-3)] f(4) by simp
  have sat: "Satisfied sample_contract story_program (Some second_told) = (3, [])" by code_simp
  have shape: "length (pg_stages story_program) = 2" "s_within (r_sequence (pg_rule story_program)) = 60 * second" "skewOf second_told = 0"
    by (simp_all add: story_program_def skewOf_def told_defs)
  have obs: "\<lparr>o_event = nameOf second_told, o_at = time_of (event_happened second_told), o_value = ?v, o_partition = 0, o_skew = 0\<rparr> =
      seen_with ?v second_told" "o_event (seen_with ?v second_told) = nameOf second_told"
    by (simp_all add: seen_with_def shape)
  have "\<exists>found'. completed sample_contract None story_program (bare_match sample_rule) second_told 0 e = (e\<lparr>en_state := k'\<rparr>, Inr (Some found'))"
    using f(2,3) story_told unfolding completed_def sat xs Let_def keeper_ordered_def shape e_def
    by (simp add: stages_any_def obs)
  then obtain found' where r: "completed sample_contract None story_program (bare_match sample_rule) second_told 0 e =
      (e\<lparr>en_state := k'\<rparr>, Inr (Some found'))" ..
  moreover have "stage_names story_program = [''in'', ''out'']" by (simp add: stage_names_def story_program_def)
  moreover have "keeper_ok (en_state e)" using f(1) by (simp add: e_def)
  ultimately show ?thesis
    using story_is_told [OF _ r, THEN conjunct1] by metis
qed

end
