(* ===== verification/Analysis_Engine.thy ===== *)
theory Analysis_Engine
  imports Analysis_Decide
begin

text \<open>
  The analysis engine on a batch of the backbone (\<^verbatim>\<open>internal/analysis/engine.go\<close>, \<^verbatim>\<open>route.go\<close> and
  \<^verbatim>\<open>publish\<close> of \<^verbatim>\<open>detect.go\<close>). What lies outside is an argument: \<open>unmarshal\<close> is protobuf's reading
  of a record, \<open>current\<close> the rules held when the n-th readable record is decided, and \<open>answer\<close> what
  becomes of each attempt to publish. The results: an unreadable record changes nothing of what the
  rest of its batch comes to, deciding an event again names the same detections, and publishing ends
  with the first attempt that the backbone takes or that finds the process stopping.
\<close>

section \<open>Routing\<close>

record backbone_record =
  br_partition :: int
  br_offset :: int
  br_key :: string
  br_value :: string

text \<open>The routing table gives a class its route and the canonical form its events are put into.\<close>

record route_stage =
  rs_route :: string
  rs_normalize :: "pmessage \<Rightarrow> pmessage"

definition Declared :: "contract \<Rightarrow> event_class \<Rightarrow> bool" where
  "Declared c class = (map_of (ct_class_name c) class \<noteq> None)"

definition ClassName :: "contract \<Rightarrow> event_class \<Rightarrow> string" where
  "ClassName c class =
     (case map_of (ct_class_name c) class of None \<Rightarrow> ''unknown'' | Some name \<Rightarrow> ToLower (TrimPrefix name ''EVENT_CLASS_''))"

definition StageFor :: "(event_class, route_stage) go_map \<Rightarrow> event_class \<Rightarrow> route_stage option" where
  "StageFor routes class = lookup routes class"

definition RouteFor :: "(event_class, route_stage) go_map \<Rightarrow> event_class \<Rightarrow> string option" where
  "RouteFor routes class = map_option rs_route (StageFor routes class)"

definition read_record ::
  "contract \<Rightarrow> (string \<Rightarrow> pmessage option) \<Rightarrow> (event_class, route_stage) go_map \<Rightarrow> backbone_record \<Rightarrow> (pmessage \<times> route_stage) option"
where
  "read_record c unmarshal routes r =
     (case unmarshal (br_value r) of
        None \<Rightarrow> None
      | Some decoded \<Rightarrow>
          if \<not> Declared c (event_class_of decoded) then None
          else if event_ValidateContract c (Some decoded) \<noteq> None then None
          else case StageFor routes (event_class_of decoded) of None \<Rightarrow> None | Some stage \<Rightarrow> Some (decoded, stage))"

section \<open>Publishing\<close>

text \<open>
  An attempt is taken, finds the process stopping (right away or while it waits), or fails and has
  waited its delay. A loop that never returns is \<open>None\<close>; what it returns carries the delays it waited.
\<close>

datatype publish_answer = Taken | Stopping string | Waited

partial_function (option) publish_loop ::
  "(nat \<Rightarrow> publish_answer) \<Rightarrow> duration \<Rightarrow> nat \<Rightarrow> duration \<Rightarrow> duration list \<Rightarrow> (string option \<times> duration list) option"
where
  "publish_loop answer most attempt delay waited =
     (case answer attempt of
        Taken \<Rightarrow> Some (None, waited)
      | Stopping x \<Rightarrow> Some (Some x, waited)
      | Waited \<Rightarrow> publish_loop answer most (Suc attempt) (min (delay * 2) most) (waited @ [delay]))"

definition publish ::
  "(nat \<Rightarrow> publish_answer) \<Rightarrow> duration \<Rightarrow> duration \<Rightarrow> detection option list \<Rightarrow> (string option \<times> duration list) option"
where
  "publish answer retry most made = (if made = [] then Some (None, []) else publish_loop answer most 1 retry [])"

section \<open>One batch\<close>

type_synonym ruleset = "(string \<times> (event_class \<Rightarrow> program list)) option"

fun handle_from ::
  "contract \<Rightarrow> (string \<Rightarrow> pmessage option) \<Rightarrow> (event_class, route_stage) go_map \<Rightarrow> (nat \<Rightarrow> ruleset) \<Rightarrow> string option \<Rightarrow> instant \<Rightarrow>
   nat \<Rightarrow> backbone_record list \<Rightarrow> engine \<Rightarrow> engine \<times> (state_error + detection option list)"
where
  "handle_from c unmarshal routes current ctx now i [] e = (e, Inr [])"
| "handle_from c unmarshal routes current ctx now i (r # rs) e =
     (case read_record c unmarshal routes r of
        None \<Rightarrow> handle_from c unmarshal routes current ctx now i rs e
      | Some (decoded, stage) \<Rightarrow>
          (case detect c (current i) ctx (rs_normalize stage decoded) (br_partition r) now e of
             (e', Inl x) \<Rightarrow> (e', Inl x)
           | (e', Inr found) \<Rightarrow>
               (case handle_from c unmarshal routes current ctx now (Suc i) rs e' of
                  (e'', Inl x) \<Rightarrow> (e'', Inl x)
                | (e'', Inr made) \<Rightarrow> (e'', Inr (found @ made)))))"

datatype handled =
    Failed state_error
  | Published "detection option list" "string option"

definition handle ::
  "contract \<Rightarrow> (string \<Rightarrow> pmessage option) \<Rightarrow> (event_class, route_stage) go_map \<Rightarrow> (nat \<Rightarrow> ruleset) \<Rightarrow> string option \<Rightarrow> instant \<Rightarrow>
   (nat \<Rightarrow> publish_answer) \<Rightarrow> duration \<Rightarrow> duration \<Rightarrow> backbone_record list \<Rightarrow> engine \<Rightarrow> engine \<times> handled option"
where
  "handle c unmarshal routes current ctx now answer retry most rs e =
     (case ctx of
        Some x \<Rightarrow> (e, Some (Failed (ContextError x)))
      | None \<Rightarrow>
          (case handle_from c unmarshal routes current ctx now 0 rs e of
             (e', Inl x) \<Rightarrow> (e', Some (Failed x))
           | (e', Inr made) \<Rightarrow> (e', map_option (\<lambda>(err, waited). Published made err) (publish answer retry most made))))"

section \<open>An unreadable record holds nothing up\<close>

lemma handle_from_readable:
  "handle_from c unmarshal routes current ctx now i rs e =
   handle_from c unmarshal routes current ctx now i (filter (\<lambda>r. read_record c unmarshal routes r \<noteq> None) rs) e"
proof (induction rs arbitrary: i e)
  case (Cons r rs)
  show ?case
  proof (cases "read_record c unmarshal routes r")
    case (Some a)
    then show ?thesis by (cases a) (simp add: Cons.IH [symmetric] del: not_None_eq)
  qed (simp add: Cons.IH [symmetric] del: not_None_eq)
qed simp

lemma unreadable_holds_nothing:
  "handle c unmarshal routes current ctx now answer retry most rs e =
   handle c unmarshal routes current ctx now answer retry most (filter (\<lambda>r. read_record c unmarshal routes r \<noteq> None) rs) e"
  unfolding handle_def by (subst handle_from_readable) (rule refl)

section \<open>Publishing ends\<close>

lemma publish_loop_ends:
  assumes "answer (attempt + n) \<noteq> Waited" "\<And>j. j < n \<Longrightarrow> answer (attempt + j) = Waited" "0 < delay" "delay \<le> most"
  shows "publish_loop answer most attempt delay waited =
    Some (case answer (attempt + n) of Stopping x \<Rightarrow> Some x | _ \<Rightarrow> None, waited @ map (\<lambda>i. min (delay * 2 ^ i) most) [0..<n])"
  using assms
proof (induction n arbitrary: attempt delay waited)
  case 0
  then show ?case by (subst publish_loop.simps) (auto split: publish_answer.splits)
next
  case (Suc n)
  have now: "answer attempt = Waited" using Suc.prems(2) [of 0] by simp
  have IH: "publish_loop answer most (Suc attempt) (min (delay * 2) most) (waited @ [delay]) =
      Some (case answer (Suc attempt + n) of Stopping x \<Rightarrow> Some x | _ \<Rightarrow> None,
        (waited @ [delay]) @ map (\<lambda>i. min (min (delay * 2) most * 2 ^ i) most) [0..<n])"
    using Suc.prems(1,3,4) Suc.prems(2) [of "Suc _"] by (intro Suc.IH) auto
  have step: "min (min (delay * 2) most * 2 ^ i) most = min (delay * 2 ^ Suc i) most" for i
  proof -
    have "most \<le> most * 2 ^ i" "delay * 2 \<le> delay * 2 * 2 ^ i" using Suc.prems(3,4) by simp_all
    then show ?thesis by (cases "delay * 2 \<le> most") (simp_all add: min_def mult.assoc)
  qed
  have "map (\<lambda>i. min (delay * 2 ^ i) most) [0..<Suc n] = delay # map (\<lambda>i. min (delay * 2 ^ Suc i) most) [0..<n]"
    using Suc.prems(4) by (simp add: upt_conv_Cons map_Suc_upt [symmetric] del: upt_Suc)
  then show ?case using IH now step by (subst publish_loop.simps) simp
qed

text \<open>
  C19. Publishing a batch ends with the first attempt that the backbone takes or that finds the process
  stopping, and says which; until then it waits, doubling its delay from the first one up to the ceiling.
  Nothing is dropped to make progress, and a delay never exceeds the ceiling.
\<close>

theorem publish_ends:
  assumes "answer (Suc n) \<noteq> Waited" "\<forall>j < n. answer (Suc j) = Waited" "0 < retry" "retry \<le> most" "made \<noteq> []"
  shows "publish answer retry most made =
    Some (case answer (Suc n) of Stopping x \<Rightarrow> Some x | _ \<Rightarrow> None, map (\<lambda>i. min (retry * 2 ^ i) most) [0..<n])"
  using publish_loop_ends [of answer 1 n retry most "[]"] assms by (simp add: publish_def)

theorem publish_ends_witness:
  "publish (\<lambda>n. if n < 4 then Waited else Taken) 3 10 [None] = Some (None, [3, 6, 10])"
  using publish_ends [of "\<lambda>n. if n < 4 then Waited else Taken" 3 3 10 "[None]"] by (simp add: upt_conv_Cons)

section \<open>Deciding an event again names the same detections\<close>

definition stateless :: "program \<Rightarrow> bool" where
  "stateless p \<longleftrightarrow> \<not> program_counts p \<and> \<not> program_correlates p \<and> \<not> Correlates (r_sequence (pg_rule p))"

lemma stateless_decides: "stateless p \<Longrightarrow> decide_one c ctx m pn p e = (e, Inr (Decide c p (Some m)))"
  by (auto simp: stateless_def decide_one_def split: option.splits)

lemma Decide_rule: "Decide c p ev = Some found \<Longrightarrow> mt_rule found = pg_rule p"
  by (auto simp: Decide_def split: option.splits if_splits prod.splits)

lemma stateless_detects:
  "list_all stateless ps \<Longrightarrow> \<exists>made. detect_from c ctx ruleset m pn now ps e = (e, Inr made) \<and>
     map (map_option d_id) made = map (\<lambda>p. Some (identify (r_id (pg_rule p)) (r_revision (pg_rule p)) (event_tenant m)
        [\<lparr>se_agent = event_agent m, se_event = get_string m ''event_id''\<rparr>])) (filter (\<lambda>p. Decide c p (Some m) \<noteq> None) ps)"
proof (induction ps)
  case (Cons p ps)
  then obtain made where IH: "detect_from c ctx ruleset m pn now ps e = (e, Inr made)"
    "map (map_option d_id) made = map (\<lambda>p. Some (identify (r_id (pg_rule p)) (r_revision (pg_rule p)) (event_tenant m)
        [\<lparr>se_agent = event_agent m, se_event = get_string m ''event_id''\<rparr>])) (filter (\<lambda>p. Decide c p (Some m) \<noteq> None) ps)"
    by auto
  have p: "stateless p" using Cons.prems by simp
  show ?case
  proof (cases "Decide c p (Some m)")
    case (Some found)
    then show ?thesis using p IH Decide_rule [OF Some]
      by (auto simp: stateless_decides stateless_def Detected_def detected_of_def Let_def)
  qed (use p IH in \<open>auto simp: stateless_decides\<close>)
qed simp

text \<open>
  C20. A record that is read again after a crash is decided again under the same names: whatever the engine
  remembers, whenever the batch is reached and under whatever ruleset name, the rules that need no state
  make the same detections of one event, by identity and in the same order, and change nothing.
\<close>

theorem replay_keeps_names:
  assumes "list_all stateless ps"
  shows "\<exists>made made'. detect_from c ctx ruleset m pn now ps e = (e, Inr made) \<and>
    detect_from c ctx' ruleset' m pn' now' ps e' = (e', Inr made') \<and> map (map_option d_id) made = map (map_option d_id) made'"
  using stateless_detects [OF assms, of c ctx ruleset m pn now e] stateless_detects [OF assms, of c ctx' ruleset' m pn' now' e']
  by fastforce

definition every_rule :: rule where
  "every_rule = sample_rule\<lparr>r_count := \<lparr>c_at_least = 0, c_within = 0, c_group_by = []\<rparr>\<rparr>"

definition every_program :: program where
  "every_program = \<lparr>pg_rule = every_rule, pg_root = Some (Conjunction []), pg_stages = [], pg_fields = [], pg_grouped = []\<rparr>"

definition idle_engine :: engine where
  "idle_engine = \<lparr>en_state = wide_keeper, en_told = []\<rparr>"

lemma every_program_stateless: "stateless every_program"
  by (simp add: stateless_def every_program_def every_rule_def program_counts_def program_correlates_def Counts_def
      count_empty_def Correlates_def sample_rule_def)

lemma every_program_decides: "\<not> Option.is_none (Decide sample_contract every_program (Some first_told))"
  by code_simp

theorem replay_keeps_names_witness:
  "\<exists>made made'. detect_from sample_contract None ''one'' first_told 0 0 [every_program] idle_engine = (idle_engine, Inr made) \<and>
     detect_from sample_contract None ''two'' first_told 1 9 [every_program] idle_engine = (idle_engine, Inr made') \<and>
     length made = 1 \<and> map (map_option d_id) made = map (map_option d_id) made'"
proof -
  have "list_all stateless [every_program]" using every_program_stateless by simp
  from replay_keeps_names [OF this, of sample_contract None "''one''" first_told 0 0 idle_engine None "''two''" 1 9 idle_engine]
  obtain made made' where made: "detect_from sample_contract None ''one'' first_told 0 0 [every_program] idle_engine = (idle_engine, Inr made)"
    "detect_from sample_contract None ''two'' first_told 1 9 [every_program] idle_engine = (idle_engine, Inr made')"
    "map (map_option d_id) made = map (map_option d_id) made'" by blast
  moreover have "length made = 1"
    using made(1) every_program_decides by (auto simp: stateless_decides [OF every_program_stateless] Option.is_none_def split: option.splits)
  ultimately show ?thesis by blast
qed

end
