(* ===== verification/Spec2Isabelle.thy ===== *)
theory Spec2Isabelle
  imports State_Quota State_Key Alert_Store Incident_Triage Agent_Roster Detection_Case Detection_Contract Analysis_Engine
begin

text \<open>
  \<^bold>\<open>The Seagull backend, verified.\<close> The backend takes telemetry from enrolled agents, makes it durable on a
  backbone, decides it against detection rules, and folds what was found into alerts and incidents
  that people work through. This library models that path, from the admission of an event to the
  triage of an alert, and the life of the agents that send: \<^verbatim>\<open>internal/event\<close>, \<^verbatim>\<open>detection\<close>,
  \<^verbatim>\<open>detectionstate\<close>, \<^verbatim>\<open>analysis\<close>, \<^verbatim>\<open>alert\<close>, \<^verbatim>\<open>incident\<close>, \<^verbatim>\<open>agent\<close> and the alert tables of
  \<^verbatim>\<open>postgres\<close>.

  \<^bold>\<open>How the parts interact.\<close> The gateway admits an event only if it meets the contract. The analysis
  engine reads events from the backbone in batches, decides each one against the compiled rules of its
  class, keeps the windows that counting and correlating rules need in a bounded store, and publishes
  detections. The alert writer folds detections into alerts under a tuning and keeps them in a
  relational store; people move alerts and incidents through their states. Agents are registered, move
  through a lifecycle of their own, and the gateway folds the records of it into a roster that says whose
  telemetry is admitted.

  \<^bold>\<open>How the code is modelled.\<close> A struct is a record, an enumeration a datatype with a constructor for what
  the source does not declare, a Go map an association list with distinct keys, an error a value of a sum
  or an option, an instant the number of nanoseconds since Go's zero time, a loop a recursive function.
  A revision that may wrap is a word of its width. Event messages are trees of named values read along
  the descriptors of the contract. What is not in the sources is an argument: the contract's descriptors,
  its printable characters and URL parser (the record \<open>contract\<close>), the encoded size of a message, the
  decoding of a record, the rules in force, what becomes of an attempt to publish.

  \<^bold>\<open>The prelude.\<close> \<open>Go_Prelude\<close> (time, maps, binary search, first error), \<open>Go_Heap\<close> (container/heap and the locale
  \<open>min_queue\<close> of what it promises),
  \<open>Go_Float\<close>, \<open>Go_Format\<close> (floats and their writing), \<open>Go_Strings\<close> (strings, decimals, length-prefixed
  writing), \<open>Go_Quote\<close> (quoting and reading back), \<open>Go_Digest\<close> (SHA-256), \<open>Go_Base64\<close>, \<open>Go_Time\<close>.

  \<^bold>\<open>Theories, sources and results.\<close>

  \<^item> \<open>Detection_Rule\<close>, \<open>Event_Contract\<close>, \<open>Detection_Message\<close>: the declarations of \<^verbatim>\<open>detection/{rule, expression,
    count, sequence, field, class, held}.go\<close>: rules, the vocabulary walked out of the contract, and what is read
    back from a detection.
  \<^item> \<open>Event_Validate\<close>: \<^verbatim>\<open>event/{limits, validate}.go\<close>, \<^verbatim>\<open>agentidentity\<close>. An admitted event is bounded in every text.
  \<^item> \<open>Detection_Validate\<close>: \<^verbatim>\<open>detection/validate.go\<close>. An accepted rule is complete, typed, bounded, and fits the
    widest state a deployment may declare.
  \<^item> \<open>Detection_Node\<close>, \<open>Detection_Contradiction\<close>, \<open>Detection_Detected\<close>, \<open>Detection_Program\<close>, \<open>Detection_Case\<close>,
    \<open>Detection_Contract\<close>:
    \<^verbatim>\<open>detection/{compile, decide, contradiction, detected, weight, check, contract}.go\<close>. A compiled rule decides exactly what
    was written; the check for contradictions refuses only what no event can change; evidence is enough to
    decide and reads back as the event carried it; a detection is named by exactly what decided it; a case
    that passes says what its rule says; a detection the contract admits is a count or a story, well-formed;
    compiling never panics.
  \<^item> \<open>State_Bounds\<close>, \<open>State_Window\<close>, \<open>State_Keeper\<close>, \<open>State_Fairness\<close>, \<open>State_Quota\<close>, \<open>State_Key\<close>, \<open>State_Store\<close>:
    \<^verbatim>\<open>detectionstate\<close>. A window depends on the set of observations and not on their order or redelivery;
    every quota holds after any calls; tenants do not disturb each other; a refusal is honest; a key is
    exactly its tenant, rule, revision and group. \<open>State_Store\<close> states the store's contract as a locale
    (\<open>window_store\<close>), derives what a caller may rely on, and interprets it with the keeper.
  \<^item> \<open>Analysis_Decide\<close>, \<open>Analysis_Engine\<close>: \<^verbatim>\<open>analysis/{count, sequence, capacity, detect, engine, route}.go\<close>. A count is
    of distinct events inside the window; the greedy reading of a window tells a sequence whenever one can
    be told; a decided sequence is told in event time by distinct events; an unreadable record holds nothing
    up; replaying names the same detections; publishing ends.
  \<^item> \<open>Lifecycle\<close>: the contract every lifecycle below meets (the locale \<open>lifecycle\<close>), with the trail of any moves.
  \<^item> \<open>Alert_Triage\<close>, \<open>Alert_Tuning\<close>, \<open>Alert_Store\<close>: \<^verbatim>\<open>alert\<close> and \<^verbatim>\<open>postgres/{alerts, fold}.go\<close>. A trail leads from open
    to where the alert is by legal, explained moves; detections of two rules or tenants never fold into one
    alert; recording a batch again changes nothing; pages list every alert once.
  \<^item> \<open>Incident_Triage\<close>: \<^verbatim>\<open>incident\<close>. An incident is raised from a story and keeps it.
  \<^item> \<open>Agent_Lifecycle\<close>, \<open>Agent_Roster\<close>: \<^verbatim>\<open>agent\<close>. The trail of an agent is legal, a certificate is renewed by its holder,
    and the roster refines the decision taken from the set of records, in whatever order they arrive.

  \<^bold>\<open>Bounds and fuel.\<close> The walk over the contract's descriptors counts down from \<^verbatim>\<open>maxDepth\<close> as the source
  does; reading a quoted text uses its length as fuel, and each step consumes a character; the loops of
  a window and of the heap have termination proofs by the length of what is left. Publishing may retry
  forever: it is a partial function to an option, and it is shown to return when an attempt is taken or
  the process stops. Digests are modelled in full and stay symbolic in the proofs: identities are exact up
  to a collision of the truncated digest, which the statements name.

  \<^bold>\<open>Not modelled.\<close> Network servers, database drivers and broker clients (\<^verbatim>\<open>ingest\<close>, \<^verbatim>\<open>control\<close>, \<^verbatim>\<open>broker\<close>,
  \<^verbatim>\<open>clickhouse\<close>, the other tables of \<^verbatim>\<open>postgres\<close>, \<^verbatim>\<open>hunt\<close>) are effects on services that are not in the sources;
  the files people write (\<^verbatim>\<open>rulefile\<close>, \<^verbatim>\<open>alertfile\<close>, \<^verbatim>\<open>policyfile\<close>, \<^verbatim>\<open>sigma\<close>) are read through a third-party
  parser; metrics, log lines, configuration and start-up decide nothing. The canonical form of an event
  (\<^verbatim>\<open>analysis/normalize.go\<close>) rests on Unicode and address tables and is an argument of the engine. The
  inventory, vulnerability, assessment, policy, update and authorization packages are planes of their own
  beside the detection path and are left for a development of their own. Unknown fields of a message are
  not represented, so dropping them is the identity; setting one body of an event does not clear another,
  which an accepted case never asks for. Negative zero is not told from zero.
\<close>

end
